(* ===== verification/Prelude.thy ===== *)
theory Prelude
  imports Main "HOL-Library.Word"
begin

text \<open>
  Shared vocabulary of the FunsOS development: the C integer types as words, the array and
  search loops the kernel sources repeat, and the lemmas on bits, lists and finite sets that the
  component theories use through the simplifier.
\<close>

unbundle bit_operations_syntax

type_synonym u8 = "8 word"
type_synonym u16 = "16 word"
type_synonym u32 = "32 word"
type_synonym u64 = "64 word"

text \<open>Facts that unfold the state updates of a component, and facts on single bits.\<close>

named_theorems kernel_simps \<open>rewrite rules for the field updates of kernel operations\<close>
named_theorems kernel_inv \<open>preservation of a component's invariant by one operation\<close>
named_theorems bit_rules \<open>bit tests on words built from masks and shifts\<close>

subsection \<open>Loops that search an array for the first hit\<close>

text \<open>
  \<open>for (i = 0; i < n; i++) if (p(a[i])) return i;\<close> over an array given as a list.
\<close>

fun find_index :: "('a \<Rightarrow> bool) \<Rightarrow> 'a list \<Rightarrow> nat option" where
  "find_index p [] = None"
| "find_index p (x # xs) = (if p x then Some 0 else map_option Suc (find_index p xs))"

lemma find_index_SomeD:
  "find_index p xs = Some i \<Longrightarrow> i < length xs \<and> p (xs ! i) \<and> (\<forall>j<i. \<not> p (xs ! j))"
proof (induction xs arbitrary: i)
  case Nil
  then show ?case by simp
next
  case (Cons x xs)
  show ?case
  proof (cases "p x")
    case True
    with Cons.prems show ?thesis by simp
  next
    case False
    with Cons.prems obtain k where k: "find_index p xs = Some k" "i = Suc k" by auto
    with Cons.IH [of k] False show ?thesis by (auto simp: less_Suc_eq_0_disj)
  qed
qed

lemma find_index_None_iff [simp]: "find_index p xs = None \<longleftrightarrow> (\<forall>x\<in>set xs. \<not> p x)"
  by (induction xs) auto

lemma find_index_SomeI:
  "i < length xs \<Longrightarrow> p (xs ! i) \<Longrightarrow> (\<forall>j<i. \<not> p (xs ! j)) \<Longrightarrow> find_index p xs = Some i"
proof (induction xs arbitrary: i)
  case Nil
  then show ?case by simp
next
  case (Cons x xs)
  show ?case
  proof (cases i)
    case 0
    with Cons.prems show ?thesis by simp
  next
    case (Suc k)
    with Cons.prems have "\<not> p x" by auto
    moreover have "find_index p xs = Some k"
      using Cons.prems Suc by (intro Cons.IH) auto
    ultimately show ?thesis using Suc by simp
  qed
qed

lemma find_index_exists: "x \<in> set xs \<Longrightarrow> p x \<Longrightarrow> \<exists>i. find_index p xs = Some i"
  using find_index_None_iff [of p xs] by (metis not_None_eq)

subsection \<open>Removal of one array element by shifting the tail down\<close>

definition remove_nth :: "nat \<Rightarrow> 'a list \<Rightarrow> 'a list" where
  "remove_nth i xs = take i xs @ drop (Suc i) xs"

lemma length_remove_nth [simp]: "i < length xs \<Longrightarrow> length (remove_nth i xs) = length xs - 1"
  by (simp add: remove_nth_def)

lemma set_remove_nth: "set (remove_nth i xs) \<subseteq> set xs"
  by (auto simp: remove_nth_def dest: in_set_takeD in_set_dropD)

lemma remove_nth_split:
  "i < length xs \<Longrightarrow> xs = take i xs @ xs ! i # drop (Suc i) xs"
  by (rule id_take_nth_drop)

lemma map_remove_nth: "map f (remove_nth i xs) = remove_nth i (map f xs)"
  by (simp add: remove_nth_def take_map drop_map)

lemma distinct_remove_nth: "distinct xs \<Longrightarrow> distinct (remove_nth i xs)"
  by (auto simp: remove_nth_def set_take_disj_set_drop_if_distinct)

lemma remove_nth_notin:
  assumes "distinct xs" and i: "i < length xs"
  shows "xs ! i \<notin> set (remove_nth i xs)"
proof -
  have "xs = take i xs @ xs ! i # drop (Suc i) xs" by (rule remove_nth_split [OF i])
  with assms(1) have "distinct (take i xs @ xs ! i # drop (Suc i) xs)" by argo
  then show ?thesis by (auto simp: remove_nth_def)
qed

lemma set_remove_nth_distinct:
  assumes "distinct xs" and i: "i < length xs"
  shows "set (remove_nth i xs) = set xs - {xs ! i}"
proof -
  have "set xs = set (take i xs @ xs ! i # drop (Suc i) xs)"
    using remove_nth_split [OF i] by argo
  then have "set xs = insert (xs ! i) (set (remove_nth i xs))"
    by (auto simp: remove_nth_def)
  then show ?thesis using remove_nth_notin [OF assms] by auto
qed

subsection \<open>Single bits\<close>

text \<open>The simplifier writes \<open>1 << n\<close> as \<open>2 ^ n\<close>; the rules are stated in that form.\<close>

lemma test_bit_mask [bit_rules]:
  fixes w :: "'a::len word"
  assumes "n < LENGTH('a)"
  shows "(w AND 2 ^ n = 0) \<longleftrightarrow> \<not> bit w n"
proof
  assume z: "w AND 2 ^ n = 0"
  have "bit (w AND 2 ^ n) n = bit w n" using assms by (simp add: bit_simps)
  with z show "\<not> bit w n" by simp
next
  assume "\<not> bit w n"
  then show "w AND 2 ^ n = 0" by (intro bit_word_eqI) (auto simp: bit_simps)
qed

lemma bit_or_mask [bit_rules]:
  fixes w :: "'a::len word"
  shows "n < LENGTH('a) \<Longrightarrow> bit (w OR 2 ^ n) m \<longleftrightarrow> m = n \<or> bit w m"
  by (auto simp: bit_simps)

lemma bit_and_not_mask [bit_rules]:
  fixes w :: "'a::len word"
  shows "bit (w AND NOT (2 ^ n)) m \<longleftrightarrow> m \<noteq> n \<and> bit w m"
  by (auto simp: bit_simps dest: bit_imp_le_length)

lemma word_neq_maxE:
  fixes w :: "'a::len word"
  assumes "w \<noteq> - 1"
  obtains n where "n < LENGTH('a)" "\<not> bit w n"
proof -
  have "\<exists>n<LENGTH('a). \<not> bit w n"
  proof (rule ccontr)
    assume "\<not> ?thesis"
    then have "w = - 1" by (intro bit_word_eqI) simp
    with assms show False by simp
  qed
  then show ?thesis using that by blast
qed

lemma AND_subset_iff:
  fixes a b :: "'a::len word"
  shows "a AND b = a \<longleftrightarrow> (\<forall>n. bit a n \<longrightarrow> bit b n)"
  by (auto simp: bit_eq_iff bit_simps dest: bit_imp_le_length)

subsection \<open>Words as numbers\<close>

lemma unat_Suc_word: "x \<noteq> - 1 \<Longrightarrow> unat (x + 1 :: 'a::len word) = Suc (unat x)"
  by (metis add.commute add_diff_cancel_left' diff_add_cancel eq_diff_eq unatSuc
      add.inverse_inverse add_eq_0_iff2 minus_equation_iff)

lemma unat_u32_less: "unat (a :: u32) < 4294967296"
  using unsigned_less [of a, where ?'a = nat] by simp

lemma unat_of_nat_less: "n < 2 ^ LENGTH('a) \<Longrightarrow> unat (of_nat n :: 'a::len word) = n"
  by (simp add: unat_of_nat)

lemma unat_minus_one_word: "x \<noteq> 0 \<Longrightarrow> unat (x - 1 :: 'a::len word) = unat x - 1"
  by (rule unat_minus_one)

text \<open>Signed 32-bit counters that do not overflow.\<close>

lemma sint_u32_bounds: "- 2147483648 \<le> sint (c :: u32)" "sint (c :: u32) < 2147483648"
  using sint_ge [of c] sint_lt [of c] by simp_all

lemma sint_add_u32:
  fixes a b :: u32
  assumes "- 2147483648 \<le> sint a + sint b" and "sint a + sint b < 2147483648"
  shows "sint (a + b) = sint a + sint b"
  using assms by (simp add: sint_word_add signed_take_bit_int_eq_self)

lemma sint_diff_u32:
  fixes a b :: u32
  assumes "- 2147483648 \<le> sint a - sint b" and "sint a - sint b < 2147483648"
  shows "sint (a - b) = sint a - sint b"
  using assms by (simp add: sint_word_diff signed_take_bit_int_eq_self)

subsection \<open>Loops whose body may fail\<close>

text \<open>\<open>for (x : xs) if (!f(x)) fail;\<close> threading a state.\<close>

fun fold_opt :: "('s \<Rightarrow> 'a \<Rightarrow> 's option) \<Rightarrow> 's \<Rightarrow> 'a list \<Rightarrow> 's option" where
  "fold_opt f s [] = Some s"
| "fold_opt f s (x # xs) = (case f s x of None \<Rightarrow> None | Some t \<Rightarrow> fold_opt f t xs)"

lemma fold_opt_append:
  "fold_opt f s (xs @ ys) = (case fold_opt f s xs of None \<Rightarrow> None | Some t \<Rightarrow> fold_opt f t ys)"
  by (induction xs arbitrary: s) (auto split: option.splits)

lemma fold_opt_keeps:
  "(\<And>s x t. P s \<Longrightarrow> x \<in> set xs \<Longrightarrow> f s x = Some t \<Longrightarrow> P t) \<Longrightarrow> P s \<Longrightarrow>
     fold_opt f s xs = Some t \<Longrightarrow> P t"
proof (induction xs arbitrary: s)
  case (Cons x xs)
  from Cons.prems(3) obtain u where u: "f s x = Some u" "fold_opt f u xs = Some t"
    by (auto split: option.splits)
  have "P u" using Cons.prems(1) [of s x u] Cons.prems(2) u(1) by simp
  with u(2) show ?case by (intro Cons.IH [of u]) (auto intro: Cons.prems(1))
qed simp

end
