(* ===== verification/Interfaces.thy ===== *)
theory Interfaces
  imports Prelude
begin

text \<open>
  The contracts that several FunsOS components share, each as a locale: a component driven by a
  sequence of calls (\<open>call_system\<close>), an allocator of numbered slots
  (\<open>index_allocator\<close>), and a first-in first-out byte or message channel
  (\<open>fifo_channel\<close>). The clients' lemmas are proved here once; the component theories
  interpret the locales on their own operations.
\<close>

subsection \<open>Components driven by calls\<close>

definition run_calls :: "('s \<Rightarrow> 'c \<Rightarrow> 's) \<Rightarrow> 's \<Rightarrow> 'c list \<Rightarrow> 's" where
  "run_calls exec s cs = foldl exec s cs"

lemma run_calls_Nil [simp]: "run_calls exec s [] = s"
  by (simp add: run_calls_def)

lemma run_calls_Cons [simp]: "run_calls exec s (c # cs) = run_calls exec (exec s c) cs"
  by (simp add: run_calls_def)

lemma run_calls_append: "run_calls exec s (cs @ ds) = run_calls exec (run_calls exec s cs) ds"
  by (simp add: run_calls_def)

locale call_system =
  fixes exec :: "'s \<Rightarrow> 'c \<Rightarrow> 's"
    and ok :: "'c \<Rightarrow> bool"
    and inv :: "'s \<Rightarrow> bool"
  assumes exec_keeps: "inv s \<Longrightarrow> ok c \<Longrightarrow> inv (exec s c)"
begin

lemma run_keeps: "inv s \<Longrightarrow> list_all ok cs \<Longrightarrow> inv (run_calls exec s cs)"
  by (induction cs arbitrary: s) (auto intro: exec_keeps)

end

subsection \<open>Allocators of numbered slots\<close>

text \<open>\<open>n\<close> allocations in a row, keeping the indices that were handed out.\<close>

fun alloc_many :: "('s \<Rightarrow> nat option \<times> 's) \<Rightarrow> nat \<Rightarrow> 's \<Rightarrow> nat list \<times> 's" where
  "alloc_many alloc 0 s = ([], s)"
| "alloc_many alloc (Suc n) s =
     (case alloc s of
        (None, t) \<Rightarrow> ([], t)
      | (Some i, t) \<Rightarrow> (let (is, u) = alloc_many alloc n t in (i # is, u)))"

text \<open>
  \<open>used s\<close> is the set of slots in use, \<open>lo\<close> the first slot that is ever handed out,
  \<open>cap s\<close> the number of slots.
\<close>

locale index_allocator =
  fixes inv :: "'s \<Rightarrow> bool"
    and used :: "'s \<Rightarrow> nat set"
    and lo :: nat
    and cap :: "'s \<Rightarrow> nat"
    and alloc :: "'s \<Rightarrow> nat option \<times> 's"
    and free :: "'s \<Rightarrow> nat \<Rightarrow> 's"
  assumes used_bound: "inv s \<Longrightarrow> used s \<subseteq> {..<cap s}"
    and reserved: "inv s \<Longrightarrow> {..<min lo (cap s)} \<subseteq> used s"
    and alloc_Some: "inv s \<Longrightarrow> alloc s = (Some i, t) \<Longrightarrow>
        inv t \<and> i < cap s \<and> i \<notin> used s \<and> used t = insert i (used s) \<and> cap t = cap s"
    and alloc_None: "inv s \<Longrightarrow> alloc s = (None, t) \<Longrightarrow> t = s \<and> used s = {..<cap s}"
    and free_used: "inv s \<Longrightarrow> lo \<le> i \<Longrightarrow> i < cap s \<Longrightarrow>
        inv (free s i) \<and> used (free s i) = used s - {i} \<and> cap (free s i) = cap s"
begin

lemma finite_used: "inv s \<Longrightarrow> finite (used s)"
  using used_bound finite_subset by blast

lemma alloc_many_spec:
  "inv s \<Longrightarrow> alloc_many alloc n s = (is, t) \<Longrightarrow>
     inv t \<and> cap t = cap s \<and> used t = used s \<union> set is \<and> distinct is \<and> set is \<inter> used s = {}
     \<and> length is = min n (cap s - card (used s))"
proof (induction n arbitrary: s "is")
  case 0
  then show ?case by simp
next
  case (Suc n)
  show ?case
  proof (cases "alloc s")
    case (Pair r u)
    show ?thesis
    proof (cases r)
      case None
      with Suc.prems Pair alloc_None [of s u] show ?thesis by auto
    next
      case (Some i)
      with Suc.prems Pair obtain js where js: "alloc_many alloc n u = (js, t)" "is = i # js"
        by (auto split: prod.splits)
      from alloc_Some [OF Suc.prems(1)] Pair Some
      have u: "inv u" "i < cap s" "i \<notin> used s" "used u = insert i (used s)" "cap u = cap s"
        by auto
      have card: "card (used u) = Suc (card (used s))" and "card (used u) \<le> cap s"
        using u finite_used [OF Suc.prems(1)] used_bound [OF u(1)]
          card_mono [of "{..<cap s}" "used u"] by auto
      with Suc.IH [OF u(1) js(1)] u js(2) show ?thesis by auto
    qed
  qed
qed

lemma alloc_succeeds:
  assumes "inv s" and "card (used s) < cap s"
  shows "\<exists>i t. alloc s = (Some i, t)"
proof (cases "alloc s")
  case (Pair r t)
  with assms alloc_None [OF assms(1), of t] show ?thesis by (cases r) auto
qed

lemma alloc_free_restores:
  assumes "inv s" and "alloc s = (Some i, t)"
  shows "used (free t i) = used s"
proof -
  from alloc_Some [OF assms]
  have t: "inv t" "i \<notin> used s" "used t = insert i (used s)" "i < cap s" "cap t = cap s"
    by auto
  have "lo \<le> i"
  proof (rule ccontr)
    assume "\<not> lo \<le> i"
    with reserved [OF assms(1)] t(4) have "i \<in> used s" by auto
    with t(2) show False by simp
  qed
  with free_used [OF t(1)] t show ?thesis by auto
qed

end

subsection \<open>First-in first-out channels\<close>

text \<open>
  A schedule of writes and reads. \<open>transfer\<close> collects, in order, the elements the channel
  accepted and the elements it delivered.
\<close>

fun transfer :: "('s \<Rightarrow> 'a list \<Rightarrow> nat \<times> 's) \<Rightarrow> ('s \<Rightarrow> nat \<Rightarrow> 'a list \<times> 's)
    \<Rightarrow> 's \<Rightarrow> ('a list + nat) list \<Rightarrow> 'a list \<times> 'a list \<times> 's" where
  "transfer put get s [] = ([], [], s)"
| "transfer put get s (Inl xs # es) =
     (let (n, t) = put s xs; (i, d, u) = transfer put get t es in (take n xs @ i, d, u))"
| "transfer put get s (Inr n # es) =
     (let (ys, t) = get s n; (i, d, u) = transfer put get t es in (i, ys @ d, u))"

text \<open>
  \<open>contents\<close> reads the channel as a list; \<open>put\<close> takes as much of the input as fits and
  reports how much it took, \<open>get\<close> takes at most \<open>n\<close> elements.
\<close>

locale fifo_channel =
  fixes inv :: "'s \<Rightarrow> bool"
    and contents :: "'s \<Rightarrow> 'a list"
    and cap :: nat
    and put :: "'s \<Rightarrow> 'a list \<Rightarrow> nat \<times> 's"
    and get :: "'s \<Rightarrow> nat \<Rightarrow> 'a list \<times> 's"
  assumes put_spec: "inv s \<Longrightarrow> put s xs = (n, t) \<Longrightarrow>
        inv t \<and> n = min (length xs) (cap - length (contents s))
        \<and> contents t = contents s @ take n xs"
    and get_spec: "inv s \<Longrightarrow> get s n = (ys, t) \<Longrightarrow>
        inv t \<and> ys = take n (contents s) \<and> contents t = drop n (contents s)"
begin

lemma transfer_fifo:
  "inv s \<Longrightarrow> transfer put get s es = (i, d, t) \<Longrightarrow>
     inv t \<and> contents s @ i = d @ contents t"
proof (induction es arbitrary: s i d t)
  case Nil
  then show ?case by simp
next
  case (Cons e es)
  show ?case
  proof (cases e)
    case (Inl xs)
    obtain n u where nu: "put s xs = (n, u)" by fastforce
    obtain i' d' t' where tr: "transfer put get u es = (i', d', t')" by (cases "transfer put get u es")
    have res: "t' = t" "d = d'" "i = take n xs @ i'"
      using Cons.prems(2) Inl nu tr by auto
    have u: "inv u" "contents u = contents s @ take n xs"
      using put_spec [OF Cons.prems(1) nu] by auto
    have "inv t' \<and> contents u @ i' = d' @ contents t'" by (rule Cons.IH [OF u(1) tr])
    with res u show ?thesis by simp
  next
    case (Inr n)
    obtain ys u where yu: "get s n = (ys, u)" by fastforce
    obtain i' d' t' where tr: "transfer put get u es = (i', d', t')" by (cases "transfer put get u es")
    have res: "t' = t" "d = ys @ d'" "i = i'"
      using Cons.prems(2) Inr yu tr by auto
    have u: "inv u" "ys = take n (contents s)" "contents u = drop n (contents s)"
      using get_spec [OF Cons.prems(1) yu] by auto
    have ih: "inv t' \<and> contents u @ i' = d' @ contents t'" by (rule Cons.IH [OF u(1) tr])
    have "contents s = ys @ contents u" using u by simp
    with ih res show ?thesis by simp
  qed
qed

end

end
