(* ===== verification/Signal.thy ===== *)
theory Signal
  imports Interfaces
begin

text \<open>
  Unix-style signals, \<open>kernel/signal.c\<close>, on the process table of \<open>kernel/process.c\<close> and the
  \<open>sched_unblock\<close> entry point of \<open>kernel/sched.c\<close>. Function pointers are 32-bit addresses
  (\<open>SIG_DFL\<close> is 0, \<open>SIG_IGN\<close> is 1, \<open>SIG_ERR\<close> is -1); the signal frames pushed on user stacks live
  in a memory of 32-bit words.
\<close>

subsection \<open>State\<close>

datatype proc_state = PROCESS_UNUSED | PROCESS_READY | PROCESS_RUNNING | PROCESS_BLOCKED | PROCESS_ZOMBIE

abbreviation "SIGKILL \<equiv> 9 :: int"
abbreviation "SIGALRM \<equiv> 14 :: int"
abbreviation "SIGCHLD \<equiv> 17 :: int"
abbreviation "SIGCONT \<equiv> 18 :: int"
abbreviation "SIGSTOP \<equiv> 19 :: int"
abbreviation "SIGTSTP \<equiv> 20 :: int"
abbreviation "SIGTTIN \<equiv> 21 :: int"
abbreviation "SIGTTOU \<equiv> 22 :: int"
abbreviation "SIGURG \<equiv> 23 :: int"
abbreviation "SIGWINCH \<equiv> 28 :: int"
abbreviation "SIGIO \<equiv> 29 :: int"
abbreviation "NSIG \<equiv> 32 :: int"

abbreviation "SIG_DFL \<equiv> 0 :: u32"
abbreviation "SIG_IGN \<equiv> 1 :: u32"
abbreviation "SIG_ERR \<equiv> - 1 :: u32"

abbreviation "SA_RESTORER \<equiv> 0x04000000 :: u32"

abbreviation "SIG_BLOCK \<equiv> 0 :: int"
abbreviation "SIG_UNBLOCK \<equiv> 1 :: int"
abbreviation "SIG_SETMASK \<equiv> 2 :: int"

abbreviation "BLOCK_REASON_NONE \<equiv> 0 :: int"
abbreviation "BLOCK_REASON_WAIT \<equiv> 3 :: int"
abbreviation "BLOCK_REASON_SLEEP \<equiv> 2 :: int"

record sigaction_entry =
  sa_handler :: u32
  sa_mask :: u32
  sa_flags :: u32

record sigaction = sigaction_entry +
  sa_restorer :: u32

record regs =
  eip :: u32
  eflags :: u32
  eax :: u32
  ecx :: u32
  edx :: u32
  useresp :: u32

text \<open>The fields of \<open>struct pcb_t\<close> the signal code reads and writes.\<close>

record pcb =
  pid :: int
  pstate :: proc_state
  blocked_reason :: int
  ctx :: regs
  signal_pending :: u32
  signal_blocked :: u32
  signal_handlers :: "nat \<Rightarrow> u32"
  signal_sa_flags :: u32
  signal_sa_mask :: u32
  signal_restorer :: u32
  alarm_ticks :: u32
  signal_frame_addr :: u32
  signal_actions :: "nat \<Rightarrow> sigaction_entry"
  sig_pending_bits :: u32
  sig_queue :: "(int \<times> int) list"

text \<open>
  The process table, the scheduler's current process, the processes handed to the ready queue (in
  order), and user memory.
\<close>

record ksys =
  process_table :: "int \<Rightarrow> pcb option"
  current :: "int option"
  runq :: "int list"
  umem :: "u32 \<Rightarrow> u32"

definition process_get_pcb :: "ksys \<Rightarrow> int \<Rightarrow> pcb option" where
  "process_get_pcb s p = (if p < 0 \<or> p \<ge> 256 then None else process_table s p)"

definition put_pcb :: "ksys \<Rightarrow> int \<Rightarrow> pcb \<Rightarrow> ksys" where
  "put_pcb s i p = s\<lparr>process_table := (process_table s)(i \<mapsto> p)\<rparr>"

text \<open>\<open>sched_unblock\<close>: only a blocked process becomes ready and is queued.\<close>

definition sched_unblock :: "ksys \<Rightarrow> int \<Rightarrow> ksys" where
  "sched_unblock s i =
     (case process_table s i of
        None \<Rightarrow> s
      | Some p \<Rightarrow>
          if pstate p \<noteq> PROCESS_BLOCKED then s
          else (put_pcb s i (p\<lparr>pstate := PROCESS_READY, blocked_reason := BLOCK_REASON_NONE\<rparr>))
                 \<lparr>runq := runq s @ [i]\<rparr>)"

definition sigbit :: "int \<Rightarrow> u32" where
  "sigbit sig = push_bit (nat (sig - 1)) 1"

subsection \<open>Initialisation and sending\<close>

definition signal_init_proc :: "pcb \<Rightarrow> pcb" where
  "signal_init_proc p = p\<lparr>
     signal_handlers := (\<lambda>i. if i < 32 then SIG_DFL else signal_handlers p i),
     signal_actions := (\<lambda>i. if i < 32 then \<lparr>sa_handler = SIG_DFL, sa_mask = 0, sa_flags = 0\<rparr>
                            else signal_actions p i),
     signal_pending := 0, signal_blocked := 0, signal_sa_flags := 0, signal_sa_mask := 0,
     alarm_ticks := 0, signal_frame_addr := 0, signal_restorer := 0, sig_pending_bits := 0\<rparr>"

definition kill :: "ksys \<Rightarrow> int \<Rightarrow> int \<Rightarrow> int \<times> ksys" where
  "kill s p sig =
     (if sig < 1 \<or> sig \<ge> NSIG then (-1, s)
      else case process_get_pcb s p of
             None \<Rightarrow> (-1, s)
           | Some t \<Rightarrow>
               (let s1 = put_pcb s p (t\<lparr>signal_pending := signal_pending t OR sigbit sig\<rparr>);
                    s2 = (if pstate t = PROCESS_BLOCKED \<and> sig \<noteq> SIGCONT then sched_unblock s1 p else s1);
                    s3 = (if sig = SIGCONT \<and> pstate t = PROCESS_BLOCKED then sched_unblock s2 p else s2)
                in (0, s3)))"

definition tkill :: "ksys \<Rightarrow> int \<Rightarrow> int \<Rightarrow> int \<times> ksys" where
  "tkill s tid sig = (if sig < 1 \<or> sig \<ge> NSIG then (-1, s) else kill s tid sig)"

definition tgkill :: "ksys \<Rightarrow> int \<Rightarrow> int \<Rightarrow> int \<Rightarrow> int \<times> ksys" where
  "tgkill s tgid tid sig = (if sig < 1 \<or> sig \<ge> NSIG then (-1, s) else kill s tid sig)"

definition sigqueue :: "ksys \<Rightarrow> int \<Rightarrow> int \<Rightarrow> int \<Rightarrow> int \<times> ksys" where
  "sigqueue s p sig val =
     (if sig < 1 \<or> sig \<ge> NSIG then (-1, s)
      else case process_get_pcb s p of
             None \<Rightarrow> (-1, s)
           | Some t \<Rightarrow>
               (let t1 = t\<lparr>signal_pending := signal_pending t OR sigbit sig\<rparr>;
                    t2 = (if length (sig_queue t1) < 32
                          then t1\<lparr>sig_queue := sig_queue t1 @ [(sig, val)]\<rparr> else t1);
                    s1 = put_pcb s p t2
                in (0, if pstate t2 = PROCESS_BLOCKED then sched_unblock s1 p else s1)))"

definition signal_send :: "ksys \<Rightarrow> int \<Rightarrow> int \<Rightarrow> int \<times> ksys" where
  "signal_send s p sig = kill s p sig"

subsection \<open>Registration and masks\<close>

text \<open>\<open>sigaction\<close> acts on the current process; \<open>act\<close> and the old action are optional pointers.\<close>

definition sigaction_call ::
    "ksys \<Rightarrow> int \<Rightarrow> sigaction_entry option \<Rightarrow> int \<times> sigaction_entry option \<times> ksys" where
  "sigaction_call s signum act =
     (if signum < 1 \<or> signum \<ge> NSIG then (-1, None, s)
      else if signum = SIGKILL \<or> signum = SIGSTOP then (-1, None, s)
      else case Option.bind (current s) (process_table s) of
             None \<Rightarrow> (-1, None, s)
           | Some p \<Rightarrow>
               (let i = nat (signum - 1); old = signal_actions p i in
                case act of
                  None \<Rightarrow> (0, Some old, s)
                | Some a \<Rightarrow>
                    (0, Some old,
                     put_pcb s (the (current s))
                       (p\<lparr>signal_handlers := (signal_handlers p)(i := sa_handler a),
                          signal_actions := (signal_actions p)(i := a)\<rparr>))))"

definition signal_call :: "ksys \<Rightarrow> int \<Rightarrow> u32 \<Rightarrow> u32 \<times> ksys" where
  "signal_call s signum handler =
     (if signum < 1 \<or> signum \<ge> NSIG then (SIG_ERR, s)
      else if signum = SIGKILL \<or> signum = SIGSTOP then (SIG_ERR, s)
      else case Option.bind (current s) (process_table s) of
             None \<Rightarrow> (SIG_ERR, s)
           | Some p \<Rightarrow>
               (let i = nat (signum - 1) in
                (signal_handlers p i,
                 put_pcb s (the (current s))
                   (p\<lparr>signal_handlers := (signal_handlers p)(i := handler),
                      signal_actions := (signal_actions p)
                        (i := (signal_actions p i)\<lparr>sa_handler := handler\<rparr>)\<rparr>))))"

text \<open>The mask update both variants of \<open>sigprocmask\<close> share: \<open>None\<close> is an unknown \<open>how\<close>.\<close>

definition apply_mask :: "int \<Rightarrow> u32 \<Rightarrow> u32 \<Rightarrow> u32 option" where
  "apply_mask how sset blocked =
     (let new_mask = (sset AND NOT (sigbit SIGKILL)) AND NOT (sigbit SIGSTOP) in
      if how = SIG_BLOCK then Some (blocked OR new_mask)
      else if how = SIG_UNBLOCK then Some (blocked AND NOT new_mask)
      else if how = SIG_SETMASK then Some new_mask
      else None)"

definition sigprocmask :: "ksys \<Rightarrow> int \<Rightarrow> u32 option \<Rightarrow> int \<times> u32 option \<times> ksys" where
  "sigprocmask s how sset =
     (case Option.bind (current s) (process_table s) of
        None \<Rightarrow> (-1, None, s)
      | Some p \<Rightarrow>
          (case sset of
             None \<Rightarrow> (0, Some (signal_blocked p), s)
           | Some m \<Rightarrow>
               (case apply_mask how m (signal_blocked p) of
                  None \<Rightarrow> (-1, Some (signal_blocked p), s)
                | Some b \<Rightarrow> (0, Some (signal_blocked p),
                            put_pcb s (the (current s)) (p\<lparr>signal_blocked := b\<rparr>)))))"

definition sigpending :: "ksys \<Rightarrow> int \<times> u32 option" where
  "sigpending s =
     (case Option.bind (current s) (process_table s) of
        None \<Rightarrow> (-1, None)
      | Some p \<Rightarrow> (0, Some (sig_pending_bits p OR signal_pending p)))"

text \<open>\<open>sigsuspend\<close> up to the call of \<open>schedule()\<close>; it yields the mask to restore afterwards.\<close>

definition sigsuspend_enter :: "ksys \<Rightarrow> u32 option \<Rightarrow> (u32 \<times> ksys) option" where
  "sigsuspend_enter s sset =
     (case Option.bind (current s) (process_table s) of
        None \<Rightarrow> None
      | Some p \<Rightarrow>
          (let p1 = (case sset of None \<Rightarrow> p
                     | Some m \<Rightarrow> p\<lparr>signal_blocked := m AND NOT (sigbit SIGKILL OR sigbit SIGSTOP)\<rparr>)
           in Some (signal_blocked p,
                    put_pcb s (the (current s))
                      (p1\<lparr>pstate := PROCESS_BLOCKED, blocked_reason := BLOCK_REASON_SLEEP\<rparr>))))"

text \<open>What \<open>sigsuspend\<close> does when it is scheduled again.\<close>

definition sigsuspend_resume :: "ksys \<Rightarrow> int \<Rightarrow> u32 \<Rightarrow> ksys" where
  "sigsuspend_resume s i old_mask =
     (case process_table s i of None \<Rightarrow> s
      | Some p \<Rightarrow> put_pcb s i (p\<lparr>signal_blocked := old_mask\<rparr>))"

subsection \<open>Delivery\<close>

definition signal_handle_default :: "ksys \<Rightarrow> int \<Rightarrow> int \<Rightarrow> ksys" where
  "signal_handle_default s i sig =
     (case process_table s i of
        None \<Rightarrow> s
      | Some p \<Rightarrow>
          if sig = SIGKILL then put_pcb s i (p\<lparr>pstate := PROCESS_ZOMBIE\<rparr>)
          else if sig \<in> {SIGSTOP, SIGTSTP, SIGTTIN, SIGTTOU}
          then put_pcb s i (p\<lparr>pstate := PROCESS_BLOCKED, blocked_reason := BLOCK_REASON_WAIT\<rparr>)
          else if sig \<in> {SIGCHLD, SIGURG, SIGWINCH, SIGIO} then s
          else if sig = SIGCONT
          then (if pstate p = PROCESS_BLOCKED then sched_unblock s i else s)
          else put_pcb s i (p\<lparr>pstate := PROCESS_ZOMBIE\<rparr>))"

text \<open>The nine words of \<open>signal_frame_t\<close>, in the order of its fields.\<close>

definition frame_words :: "pcb \<Rightarrow> int \<Rightarrow> u32 list" where
  "frame_words p sig =
     [0, word_of_int sig, eip (ctx p), eflags (ctx p), eax (ctx p), ecx (ctx p), edx (ctx p),
      signal_sa_flags p, signal_sa_mask p]"

fun store_words :: "(u32 \<Rightarrow> u32) \<Rightarrow> u32 \<Rightarrow> u32 list \<Rightarrow> (u32 \<Rightarrow> u32)" where
  "store_words m a [] = m"
| "store_words m a (w # ws) = store_words (m(a := w)) (a + 4) ws"

definition signal_deliver :: "ksys \<Rightarrow> int \<Rightarrow> int \<Rightarrow> ksys" where
  "signal_deliver s i sig =
     (case process_table s i of
        None \<Rightarrow> s
      | Some p \<Rightarrow>
          (let handler = signal_handlers p (nat (sig - 1));
               p1 = p\<lparr>signal_pending := signal_pending p AND NOT (sigbit sig)\<rparr>;
               s1 = put_pcb s i p1
           in if handler = SIG_DFL then signal_handle_default s1 i sig
              else if handler = SIG_IGN then s1
              else
                (let frame_addr = useresp (ctx p1) - 36;
                     m1 = store_words (umem s1) frame_addr (frame_words p1 sig);
                     m2 = m1(frame_addr - 4 := word_of_int sig);
                     m3 = m2(frame_addr - 8 := frame_addr)
                 in (put_pcb s1 i
                      (p1\<lparr>ctx := (ctx p1)\<lparr>useresp := frame_addr - 8, eip := handler\<rparr>,
                          signal_frame_addr := frame_addr,
                          signal_blocked := signal_blocked p1 OR sigbit sig\<rparr>))\<lparr>umem := m3\<rparr>)))"

text \<open>The first pending and unblocked signal, in the order of the \<open>for\<close> loop over 1 to 31.\<close>

definition next_signal :: "pcb \<Rightarrow> int option" where
  "next_signal p =
     find (\<lambda>sig. signal_pending p AND sigbit sig \<noteq> 0 \<and> signal_blocked p AND sigbit sig = 0) [1..31]"

text \<open>The \<open>alarm\<close> countdown at the head of \<open>signal_check_deliver\<close>.\<close>

definition alarm_tick :: "ksys \<Rightarrow> int \<Rightarrow> pcb \<Rightarrow> ksys" where
  "alarm_tick s i p =
     (if alarm_ticks p > 0
      then (let s' = put_pcb s i (p\<lparr>alarm_ticks := alarm_ticks p - 1\<rparr>) in
            if alarm_ticks p - 1 = 0 then snd (kill s' (pid p) SIGALRM) else s')
      else s)"

definition signal_check_deliver :: "ksys \<Rightarrow> int \<Rightarrow> ksys" where
  "signal_check_deliver s i =
     (case process_table s i of
        None \<Rightarrow> s
      | Some p \<Rightarrow>
          (let s1 = alarm_tick s i p in
           case process_table s1 i of
             None \<Rightarrow> s1
           | Some p1 \<Rightarrow>
               (case next_signal p1 of None \<Rightarrow> s1 | Some sig \<Rightarrow> signal_deliver s1 i sig)))"

definition signal_has_pending :: "pcb option \<Rightarrow> int \<Rightarrow> bool" where
  "signal_has_pending proc signum =
     (case proc of None \<Rightarrow> False
      | Some p \<Rightarrow> \<not> (signum < 1 \<or> signum \<ge> NSIG) \<and> signal_pending p AND sigbit signum \<noteq> 0)"

definition signal_check :: "ksys \<Rightarrow> int \<Rightarrow> int \<times> ksys" where
  "signal_check s i = (0, signal_check_deliver s i)"

definition signal_check_and_deliver :: "ksys \<Rightarrow> int \<Rightarrow> int \<times> ksys" where
  "signal_check_and_deliver s i =
     (let s1 = signal_check_deliver s i in
      (case process_table s1 i of
         None \<Rightarrow> 0
       | Some p \<Rightarrow> if next_signal p \<noteq> None then 1 else 0, s1))"

subsection \<open>The per-process variants and the alarm\<close>

definition signal_register :: "pcb \<Rightarrow> int \<Rightarrow> u32 \<Rightarrow> int \<times> pcb" where
  "signal_register p sig handler =
     (if sig < 1 \<or> sig \<ge> NSIG then (-1, p)
      else if sig = SIGKILL \<or> sig = SIGSTOP then (-1, p)
      else let i = nat (sig - 1) in
           (0, p\<lparr>signal_handlers := (signal_handlers p)(i := handler),
                 signal_actions := (signal_actions p)
                   (i := (signal_actions p i)\<lparr>sa_handler := handler\<rparr>)\<rparr>))"

definition signal_block :: "pcb \<Rightarrow> int \<Rightarrow> pcb" where
  "signal_block p sig =
     (if sig < 1 \<or> sig \<ge> NSIG then p
      else if sig = SIGKILL \<or> sig = SIGSTOP then p
      else p\<lparr>signal_blocked := signal_blocked p OR sigbit sig\<rparr>)"

definition signal_unblock :: "pcb \<Rightarrow> int \<Rightarrow> pcb" where
  "signal_unblock p sig =
     (if sig < 1 \<or> sig \<ge> NSIG then p
      else p\<lparr>signal_blocked := signal_blocked p AND NOT (sigbit sig)\<rparr>)"

definition signal_sigaction :: "pcb \<Rightarrow> int \<Rightarrow> sigaction option \<Rightarrow> int \<times> sigaction option \<times> pcb" where
  "signal_sigaction p sig act =
     (if sig < 1 \<or> sig \<ge> NSIG then (-1, None, p)
      else if sig = SIGKILL \<or> sig = SIGSTOP then (-1, None, p)
      else
        (let i = nat (sig - 1);
             old = \<lparr>sa_handler = signal_handlers p i, sa_mask = signal_sa_mask p,
                    sa_flags = signal_sa_flags p, sa_restorer = signal_restorer p\<rparr>
         in case act of
              None \<Rightarrow> (0, Some old, p)
            | Some a \<Rightarrow>
                (let p1 = p\<lparr>signal_handlers := (signal_handlers p)(i := sa_handler a),
                            signal_sa_flags := sa_flags a, signal_sa_mask := sa_mask a\<rparr>;
                     p2 = (if sa_flags a AND SA_RESTORER \<noteq> 0
                           then p1\<lparr>signal_restorer := sa_restorer a\<rparr> else p1)
                 in (0, Some old, p2))))"

text \<open>\<open>want_old\<close> says whether the caller passed a non-NULL \<open>oset\<close>.\<close>

definition signal_sigprocmask :: "pcb \<Rightarrow> int \<Rightarrow> u32 option \<Rightarrow> bool \<Rightarrow> int \<times> u32 option \<times> pcb" where
  "signal_sigprocmask p how sset want_old =
     (if sset = None \<and> \<not> want_old then (-1, None, p)
      else
        (let old = (if want_old then Some (signal_blocked p) else None) in
         case sset of
           None \<Rightarrow> (0, old, p)
         | Some m \<Rightarrow>
             (case apply_mask how m (signal_blocked p) of
                None \<Rightarrow> (-1, old, p)
              | Some b \<Rightarrow> (0, old, p\<lparr>signal_blocked := b\<rparr>))))"

definition signal_alarm :: "pcb \<Rightarrow> u32 \<Rightarrow> u32 \<times> pcb" where
  "signal_alarm p seconds =
     (let remaining = (if alarm_ticks p > 0 then alarm_ticks p div 100 else 0) in
      (remaining, p\<lparr>alarm_ticks := (if seconds = 0 then 0 else seconds * 100)\<rparr>))"

text \<open>\<open>signal_pause\<close> up to its call of \<open>schedule()\<close>.\<close>

definition signal_pause :: "pcb \<Rightarrow> pcb" where
  "signal_pause p = p\<lparr>pstate := PROCESS_BLOCKED, blocked_reason := BLOCK_REASON_SLEEP\<rparr>"

definition signal_sigreturn :: "ksys \<Rightarrow> int \<Rightarrow> ksys" where
  "signal_sigreturn s i =
     (case process_table s i of
        None \<Rightarrow> s
      | Some p \<Rightarrow>
          if signal_frame_addr p = 0 then s
          else
            (let f = signal_frame_addr p; m = umem s in
             put_pcb s i
               (p\<lparr>ctx := (ctx p)\<lparr>eip := m (f + 8), eflags := m (f + 12), eax := m (f + 16),
                                ecx := m (f + 20), edx := m (f + 24), useresp := f + 36\<rparr>,
                  signal_blocked := m (f + 32),
                  signal_frame_addr := 0\<rparr>)))"

subsection \<open>Basic facts\<close>

lemma table_put_pcb [kernel_simps]:
  "process_table (put_pcb s i p) = (process_table s)(i \<mapsto> p)"
  by (simp add: put_pcb_def)

lemma sigbit_test [kernel_simps]:
  "1 \<le> sig \<Longrightarrow> sig \<le> 32 \<Longrightarrow> (w AND sigbit sig = 0) \<longleftrightarrow> \<not> bit w (nat (sig - 1))"
  by (simp add: sigbit_def test_bit_mask)

lemma bit_or_sigbit [kernel_simps]:
  "1 \<le> sig \<Longrightarrow> sig \<le> 32 \<Longrightarrow> bit (w OR sigbit sig) k \<longleftrightarrow> k = nat (sig - 1) \<or> bit w k"
  by (simp add: sigbit_def bit_or_mask)

lemma bit_not_sigbit [kernel_simps]:
  "k < 32 \<Longrightarrow> bit (NOT (sigbit sig)) k \<longleftrightarrow> k \<noteq> nat (sig - 1)"
  by (auto simp: sigbit_def bit_simps)

lemma bit_and_not_sigbit [kernel_simps]:
  "bit (w AND NOT (sigbit sig)) k \<longleftrightarrow> k \<noteq> nat (sig - 1) \<and> bit w k"
  by (simp add: sigbit_def bit_and_not_mask)

text \<open>A signal (by its bit number) is deliverable when it is pending and not blocked.\<close>

definition deliverable :: "pcb \<Rightarrow> nat \<Rightarrow> bool" where
  "deliverable p k \<longleftrightarrow> bit (signal_pending p) k \<and> \<not> bit (signal_blocked p) k"

lemma sorted_find_first:
  "sorted_wrt (<) xs \<Longrightarrow>
     find P xs = Some (x :: int) \<longleftrightarrow> x \<in> set xs \<and> P x \<and> (\<forall>y \<in> set xs. y < x \<longrightarrow> \<not> P y)"
  by (induction xs) auto

lemma next_signal_Some:
  "next_signal p = Some sig \<longleftrightarrow>
     1 \<le> sig \<and> sig \<le> 31 \<and> deliverable p (nat (sig - 1))
     \<and> (\<forall>y. 1 \<le> y \<and> y < sig \<longrightarrow> \<not> deliverable p (nat (y - 1)))"
proof -
  have s: "sorted_wrt (<) [1..31::int]" by (rule sorted_wrt_upto)
  show ?thesis
    unfolding next_signal_def sorted_find_first [OF s] deliverable_def
    by (auto simp: sigbit_test)
qed

lemma next_signal_None:
  "next_signal p = None \<longleftrightarrow> (\<forall>y. 1 \<le> y \<and> y \<le> 31 \<longrightarrow> \<not> deliverable p (nat (y - 1)))"
  unfolding next_signal_def find_None_iff deliverable_def by (auto simp: sigbit_test)

lemma sched_unblock_table:
  "process_table (sched_unblock s i) j =
     (case process_table s j of None \<Rightarrow> None
      | Some p \<Rightarrow> Some (if j = i \<and> pstate p = PROCESS_BLOCKED
                      then p\<lparr>pstate := PROCESS_READY, blocked_reason := BLOCK_REASON_NONE\<rparr> else p))"
  by (auto simp: sched_unblock_def put_pcb_def split: option.splits)

subsection \<open>Signals that cannot be blocked or caught\<close>

definition kill_safe :: "pcb \<Rightarrow> bool" where
  "kill_safe p \<longleftrightarrow> \<not> bit (signal_blocked p) 8 \<and> \<not> bit (signal_blocked p) 18
     \<and> signal_handlers p 8 = SIG_DFL \<and> signal_handlers p 18 = SIG_DFL"

definition table_safe :: "ksys \<Rightarrow> bool" where
  "table_safe s \<longleftrightarrow> (\<forall>i p. process_table s i = Some p \<longrightarrow> kill_safe p)"

lemma table_safe_put: "table_safe s \<Longrightarrow> kill_safe p \<Longrightarrow> table_safe (put_pcb s i p)"
  by (auto simp: table_safe_def put_pcb_def)

lemma table_safeD: "table_safe s \<Longrightarrow> process_table s i = Some p \<Longrightarrow> kill_safe p"
  by (auto simp: table_safe_def)

lemma table_safe_more [simp]:
  "table_safe (s\<lparr>umem := m\<rparr>) = table_safe s" "table_safe (s\<lparr>runq := q\<rparr>) = table_safe s"
  "table_safe (s\<lparr>current := c\<rparr>) = table_safe s"
  by (simp_all add: table_safe_def)

lemma kill_safe_more [simp]:
  "kill_safe (p\<lparr>pstate := a\<rparr>) = kill_safe p" "kill_safe (p\<lparr>blocked_reason := r\<rparr>) = kill_safe p"
  "kill_safe (p\<lparr>signal_pending := w\<rparr>) = kill_safe p" "kill_safe (p\<lparr>ctx := c\<rparr>) = kill_safe p"
  "kill_safe (p\<lparr>signal_frame_addr := f\<rparr>) = kill_safe p" "kill_safe (p\<lparr>sig_queue := q\<rparr>) = kill_safe p"
  "kill_safe (p\<lparr>alarm_ticks := t\<rparr>) = kill_safe p" "kill_safe (p\<lparr>signal_actions := x\<rparr>) = kill_safe p"
  "kill_safe (p\<lparr>signal_sa_flags := y\<rparr>) = kill_safe p" "kill_safe (p\<lparr>signal_sa_mask := z\<rparr>) = kill_safe p"
  "kill_safe (p\<lparr>signal_restorer := v\<rparr>) = kill_safe p"
  by (simp_all add: kill_safe_def)

lemma kill_safe_handler:
  "kill_safe p \<Longrightarrow> 1 \<le> sig \<Longrightarrow> sig \<noteq> SIGKILL \<Longrightarrow> sig \<noteq> SIGSTOP \<Longrightarrow>
     kill_safe (p\<lparr>signal_handlers := (signal_handlers p)(nat (sig - 1) := h)\<rparr>)"
  by (auto simp: kill_safe_def nat_eq_iff)

lemma kill_safe_block:
  "kill_safe p \<Longrightarrow> 1 \<le> sig \<Longrightarrow> sig < 32 \<Longrightarrow> sig \<noteq> SIGKILL \<Longrightarrow> sig \<noteq> SIGSTOP \<Longrightarrow>
     kill_safe (p\<lparr>signal_blocked := signal_blocked p OR sigbit sig\<rparr>)"
  by (auto simp: kill_safe_def bit_or_sigbit nat_eq_iff)

lemma kill_safe_mask:
  "kill_safe p \<Longrightarrow> apply_mask how m (signal_blocked p) = Some b \<Longrightarrow> kill_safe (p\<lparr>signal_blocked := b\<rparr>)"
  by (auto simp: kill_safe_def apply_mask_def Let_def bit_not_sigbit bit_or_iff bit_and_iff
      split: if_splits)

lemmas kill_safe_rules = table_safe_put kill_safe_handler kill_safe_block kill_safe_mask

lemma sched_unblock_safe: "table_safe s \<Longrightarrow> table_safe (sched_unblock s i)"
  by (auto simp: sched_unblock_def intro!: table_safe_put dest: table_safeD split: option.splits)

lemma kill_keeps_safe: "table_safe s \<Longrightarrow> table_safe (snd (kill s p sig))"
  by (auto simp: kill_def Let_def process_get_pcb_def intro!: sched_unblock_safe table_safe_put
      dest: table_safeD split: option.splits if_splits)

lemma sigqueue_keeps_safe: "table_safe s \<Longrightarrow> table_safe (snd (sigqueue s p sig v))"
  by (auto simp: sigqueue_def Let_def process_get_pcb_def intro!: sched_unblock_safe table_safe_put
      dest: table_safeD split: option.splits if_splits)

lemma signal_handle_default_safe: "table_safe s \<Longrightarrow> table_safe (signal_handle_default s i sig)"
  by (auto simp: signal_handle_default_def intro!: sched_unblock_safe table_safe_put
      dest: table_safeD split: option.splits)

lemma signal_deliver_safe:
  assumes s: "table_safe s" and sig: "1 \<le> sig" "sig < 32"
  shows "table_safe (signal_deliver s i sig)"
proof (cases "process_table s i")
  case None
  with s show ?thesis by (simp add: signal_deliver_def)
next
  case (Some p)
  define q where "q = p\<lparr>signal_pending := signal_pending p AND NOT (sigbit sig)\<rparr>"
  have q: "kill_safe q" using table_safeD [OF s Some] by (simp add: q_def)
  have t: "table_safe (put_pcb s i q)" using s q by (rule table_safe_put)
  have "sig \<noteq> SIGKILL" "sig \<noteq> SIGSTOP" if "signal_handlers p (nat (sig - 1)) \<noteq> SIG_DFL"
    using q that by (auto simp: kill_safe_def q_def)
  then have "kill_safe (q\<lparr>ctx := c, signal_frame_addr := f, signal_blocked := signal_blocked q OR sigbit sig\<rparr>)"
    if "signal_handlers p (nat (sig - 1)) \<noteq> SIG_DFL" for c f
    using kill_safe_block [of "q\<lparr>ctx := c, signal_frame_addr := f\<rparr>" sig] that q sig by simp
  with t Some show ?thesis
    by (auto simp: signal_deliver_def Let_def simp flip: q_def
        simp del: kill_safe_more intro!: signal_handle_default_safe table_safe_put)
qed

lemma alarm_tick_safe: "table_safe s \<Longrightarrow> kill_safe p \<Longrightarrow> table_safe (alarm_tick s i p)"
  by (auto simp: alarm_tick_def Let_def intro!: kill_keeps_safe table_safe_put)

lemma signal_check_deliver_safe:
  assumes s: "table_safe s" shows "table_safe (signal_check_deliver s i)"
proof (cases "process_table s i")
  case None
  with s show ?thesis by (simp add: signal_check_deliver_def)
next
  case (Some p)
  have t: "table_safe (alarm_tick s i p)"
    by (intro alarm_tick_safe s table_safeD [OF s Some])
  have "table_safe (signal_deliver (alarm_tick s i p) i sig)" if "next_signal q = Some sig" for q sig
    using that t by (intro signal_deliver_safe) (auto simp: next_signal_Some)
  with t Some show ?thesis
    by (auto simp: signal_check_deliver_def Let_def split: option.splits)
qed

text \<open>
  Every entry point except \<open>signal_sigreturn\<close>. The per-process variants act on the process
  whose control block the caller holds; a resumed \<open>sigsuspend\<close> restores the mask its first half
  returned.
\<close>

datatype signal_op =
    Kill int int
  | Sigqueue int int int
  | Sigaction int "sigaction_entry option"
  | Signal int u32
  | Sigprocmask int "u32 option"
  | Sigsuspend "u32 option"
  | Resume int u32
  | Check int
  | Register int int u32
  | Block int int
  | Unblock int int
  | Sigaction_of int int "sigaction option"
  | Sigprocmask_of int int "u32 option" bool
  | Alarm int u32
  | Pause int

definition on_pcb :: "ksys \<Rightarrow> int \<Rightarrow> (pcb \<Rightarrow> pcb) \<Rightarrow> ksys" where
  "on_pcb s i f = (case process_table s i of None \<Rightarrow> s | Some p \<Rightarrow> put_pcb s i (f p))"

fun signal_exec :: "ksys \<Rightarrow> signal_op \<Rightarrow> ksys" where
  "signal_exec s (Kill p sig) = snd (kill s p sig)"
| "signal_exec s (Sigqueue p sig v) = snd (sigqueue s p sig v)"
| "signal_exec s (Sigaction sig act) = snd (snd (sigaction_call s sig act))"
| "signal_exec s (Signal sig h) = snd (signal_call s sig h)"
| "signal_exec s (Sigprocmask how m) = snd (snd (sigprocmask s how m))"
| "signal_exec s (Sigsuspend m) = (case sigsuspend_enter s m of None \<Rightarrow> s | Some (_, t) \<Rightarrow> t)"
| "signal_exec s (Resume i m) = sigsuspend_resume s i m"
| "signal_exec s (Check i) = signal_check_deliver s i"
| "signal_exec s (Register i sig h) = on_pcb s i (\<lambda>p. snd (signal_register p sig h))"
| "signal_exec s (Block i sig) = on_pcb s i (\<lambda>p. signal_block p sig)"
| "signal_exec s (Unblock i sig) = on_pcb s i (\<lambda>p. signal_unblock p sig)"
| "signal_exec s (Sigaction_of i sig act) = on_pcb s i (\<lambda>p. snd (snd (signal_sigaction p sig act)))"
| "signal_exec s (Sigprocmask_of i how m w) =
     on_pcb s i (\<lambda>p. snd (snd (signal_sigprocmask p how m w)))"
| "signal_exec s (Alarm i n) = on_pcb s i (\<lambda>p. snd (signal_alarm p n))"
| "signal_exec s (Pause i) = on_pcb s i signal_pause"

fun resumes_ok :: "signal_op \<Rightarrow> bool" where
  "resumes_ok (Resume i m) \<longleftrightarrow> \<not> bit m 8 \<and> \<not> bit m 18"
| "resumes_ok _ \<longleftrightarrow> True"

lemma on_pcb_safe:
  "table_safe s \<Longrightarrow> (\<And>p. kill_safe p \<Longrightarrow> kill_safe (f p)) \<Longrightarrow> table_safe (on_pcb s i f)"
  by (auto simp: on_pcb_def intro: table_safe_put dest: table_safeD split: option.splits)

lemma bind_current_SomeD:
  "Option.bind (current s) (process_table s) = Some p \<Longrightarrow> table_safe s \<Longrightarrow> kill_safe p"
  by (auto simp: bind_eq_Some_conv dest: table_safeD)

lemma sigaction_call_safe: "table_safe s \<Longrightarrow> table_safe (snd (snd (sigaction_call s sig act)))"
  by (auto simp: sigaction_call_def Let_def intro!: table_safe_put kill_safe_handler
      dest: bind_current_SomeD split: option.splits)

lemma signal_call_safe: "table_safe s \<Longrightarrow> table_safe (snd (signal_call s sig h))"
  by (auto simp: signal_call_def Let_def intro!: table_safe_put kill_safe_handler
      dest: bind_current_SomeD split: option.splits)

lemma sigprocmask_safe: "table_safe s \<Longrightarrow> table_safe (snd (snd (sigprocmask s how m)))"
  by (auto simp: sigprocmask_def intro!: table_safe_put
      dest: bind_current_SomeD intro: kill_safe_mask split: option.splits)

lemma kill_safe_suspend:
  "kill_safe p \<Longrightarrow> kill_safe (p\<lparr>signal_blocked := m AND NOT (sigbit SIGKILL OR sigbit SIGSTOP)\<rparr>)"
  by (auto simp: kill_safe_def sigbit_def bit_simps)

lemma sigsuspend_enter_safe:
  "table_safe s \<Longrightarrow> sigsuspend_enter s m = Some (old, t) \<Longrightarrow>
     table_safe t \<and> \<not> bit old 8 \<and> \<not> bit old 18"
  by (auto simp: sigsuspend_enter_def Let_def intro!: table_safe_put kill_safe_suspend
      dest: bind_current_SomeD split: option.splits) (auto simp: kill_safe_def bit_and_iff bit_not_sigbit dest: bind_current_SomeD)

lemma sigsuspend_resume_safe:
  "table_safe s \<Longrightarrow> \<not> bit m 8 \<Longrightarrow> \<not> bit m 18 \<Longrightarrow> table_safe (sigsuspend_resume s i m)"
  by (auto simp: sigsuspend_resume_def intro!: table_safe_put split: option.splits)
    (auto simp: kill_safe_def dest: table_safeD)

lemma pcb_ops_safe:
  assumes "kill_safe p"
  shows "kill_safe (snd (signal_register p sig h))" "kill_safe (signal_block p sig)"
    "kill_safe (signal_unblock p sig)" "kill_safe (snd (snd (signal_sigaction p sig act)))"
    "kill_safe (snd (snd (signal_sigprocmask p how m w)))" "kill_safe (snd (signal_alarm p n))"
    "kill_safe (signal_pause p)"
proof -
  show "kill_safe (snd (signal_register p sig h))"
    using assms by (auto simp: signal_register_def Let_def intro!: kill_safe_handler)
  show "kill_safe (signal_block p sig)"
    using assms by (auto simp: signal_block_def intro!: kill_safe_block)
  show "kill_safe (signal_unblock p sig)"
    using assms by (auto simp: signal_unblock_def kill_safe_def bit_and_iff)
  show "kill_safe (snd (snd (signal_sigaction p sig act)))"
    using assms by (auto simp: signal_sigaction_def Let_def intro!: kill_safe_handler split: option.splits)
  show "kill_safe (snd (snd (signal_sigprocmask p how m w)))"
    using assms by (auto simp: signal_sigprocmask_def Let_def intro: kill_safe_mask split: option.splits)
qed (use assms in \<open>simp_all add: signal_alarm_def signal_pause_def Let_def\<close>)

lemma signal_exec_safe: "table_safe s \<Longrightarrow> resumes_ok c \<Longrightarrow> table_safe (signal_exec s c)"
proof (cases c)
  case (Sigsuspend m)
  assume "table_safe s"
  with Sigsuspend show ?thesis
    by (auto split: option.splits dest: sigsuspend_enter_safe)
qed (auto intro!: kill_keeps_safe sigqueue_keeps_safe sigaction_call_safe signal_call_safe
      sigprocmask_safe sigsuspend_resume_safe signal_check_deliver_safe on_pcb_safe pcb_ops_safe)

interpretation signal_calls: call_system signal_exec resumes_ok table_safe
  by unfold_locales (rule signal_exec_safe)

subsection \<open>Delivery order and termination by SIGKILL\<close>

lemma kill_other_bits:
  assumes "process_table s i = Some p"
  shows "\<exists>q. process_table (snd (kill s j sig)) i = Some q \<and> signal_blocked q = signal_blocked p
     \<and> signal_handlers q = signal_handlers p
     \<and> (\<forall>k. k \<noteq> nat (sig - 1) \<longrightarrow> bit (signal_pending q) k = bit (signal_pending p) k)"
  using assms
  by (auto simp: kill_def Let_def process_get_pcb_def sched_unblock_table table_put_pcb bit_or_sigbit
      split: option.splits)

lemma alarm_tick_pcb:
  assumes "process_table s i = Some p"
  obtains q where "process_table (alarm_tick s i p) i = Some q" "signal_blocked q = signal_blocked p"
    "signal_handlers q = signal_handlers p"
    "\<And>k. k \<noteq> 13 \<Longrightarrow> bit (signal_pending q) k = bit (signal_pending p) k"
proof -
  define r where "r = p\<lparr>alarm_ticks := alarm_ticks p - 1\<rparr>"
  have r: "process_table (put_pcb s i r) i = Some r" by (simp add: table_put_pcb)
  obtain q where "process_table (snd (kill (put_pcb s i r) (pid p) SIGALRM)) i = Some q"
      "signal_blocked q = signal_blocked r" "signal_handlers q = signal_handlers r"
      "\<And>k. k \<noteq> 13 \<Longrightarrow> bit (signal_pending q) k = bit (signal_pending r) k"
    using kill_other_bits [OF r, of "pid p" SIGALRM] by auto
  note q = this
  have "alarm_tick s i p \<in> {s, put_pcb s i r, snd (kill (put_pcb s i r) (pid p) SIGALRM)}"
    by (simp only: alarm_tick_def Let_def flip: r_def) simp
  then consider "alarm_tick s i p = s" | "alarm_tick s i p = put_pcb s i r"
    | "alarm_tick s i p = snd (kill (put_pcb s i r) (pid p) SIGALRM)" by blast
  then show ?thesis
  proof cases
    case 1
    with assms that [of p] show ?thesis by simp
  next
    case 2
    with r that [of r] show ?thesis by (simp add: r_def)
  next
    case 3
    with q that [of q] show ?thesis by (simp add: r_def)
  qed
qed

lemma signal_handle_default_pcb:
  assumes "process_table s i = Some p"
  shows "\<exists>q. process_table (signal_handle_default s i sig) i = Some q
     \<and> signal_pending q = signal_pending p \<and> signal_blocked q = signal_blocked p
     \<and> signal_handlers q = signal_handlers p \<and> (sig = SIGKILL \<longrightarrow> pstate q = PROCESS_ZOMBIE)"
  using assms by (auto simp: signal_handle_default_def sched_unblock_table table_put_pcb)

lemma signal_deliver_pcb:
  assumes p: "process_table s i = Some p"
  obtains q where "process_table (signal_deliver s i sig) i = Some q"
    "signal_pending q = signal_pending p AND NOT (sigbit sig)"
    "signal_blocked q = signal_blocked p \<or> signal_blocked q = signal_blocked p OR sigbit sig"
    "sig = SIGKILL \<Longrightarrow> signal_handlers p 8 = SIG_DFL \<Longrightarrow> pstate q = PROCESS_ZOMBIE"
proof -
  let ?p = "p\<lparr>signal_pending := signal_pending p AND NOT (sigbit sig)\<rparr>"
  obtain d where d: "process_table (signal_handle_default (put_pcb s i ?p) i sig) i = Some d"
      "signal_pending d = signal_pending ?p" "signal_blocked d = signal_blocked p"
      "sig = SIGKILL \<longrightarrow> pstate d = PROCESS_ZOMBIE"
    using signal_handle_default_pcb [of "put_pcb s i ?p" i ?p sig] by (auto simp: table_put_pcb)
  show thesis
  proof (cases "signal_handlers p (nat (sig - 1)) = SIG_DFL")
    case True
    then have eq: "signal_deliver s i sig = signal_handle_default (put_pcb s i ?p) i sig"
      using p by (simp add: signal_deliver_def Let_def)
    show thesis by (rule that [of d]) (use d eq in auto)
  next
    case False
    then show thesis using p
      by (intro that [of "the (process_table (signal_deliver s i sig) i)"])
        (auto simp: signal_deliver_def Let_def table_put_pcb)
  qed
qed

text \<open>The pending signals below SIGKILL are what may delay it.\<close>

definition ahead :: "pcb \<Rightarrow> nat set" where
  "ahead p = {k. k < 8 \<and> bit (signal_pending p) k}"

lemma finite_ahead [simp]: "finite (ahead p)"
  by (simp add: ahead_def)

lemma check_towards_kill:
  assumes s: "table_safe s" and p: "process_table s i = Some p" and pend: "bit (signal_pending p) 8"
  obtains q where "process_table (signal_check_deliver s i) i = Some q"
    "pstate q = PROCESS_ZOMBIE \<or> bit (signal_pending q) 8 \<and> card (ahead q) < card (ahead p)"
proof -
  obtain a where a: "process_table (alarm_tick s i p) i = Some a" "signal_blocked a = signal_blocked p"
      "signal_handlers a = signal_handlers p"
      "\<And>k. k \<noteq> 13 \<Longrightarrow> bit (signal_pending a) k = bit (signal_pending p) k"
    using alarm_tick_pcb [OF p] by blast
  have safe: "kill_safe p" by (rule table_safeD [OF s p])
  have d8: "deliverable a 8" using a pend safe by (simp add: deliverable_def kill_safe_def)
  then have "next_signal a \<noteq> None" by (auto simp: next_signal_None intro!: exI [of _ 9])
  then obtain sig where sig: "next_signal a = Some sig" by blast
  then have le: "1 \<le> sig" "deliverable a (nat (sig - 1))"
    and low: "\<forall>y. 1 \<le> y \<and> y < sig \<longrightarrow> \<not> deliverable a (nat (y - 1))"
    unfolding next_signal_Some by blast+
  from low [rule_format, of 9] d8 have "sig \<le> 9" by force
  note le = le this
  obtain q where q: "process_table (signal_deliver (alarm_tick s i p) i sig) i = Some q"
      "signal_pending q = signal_pending a AND NOT (sigbit sig)"
      "sig = SIGKILL \<Longrightarrow> signal_handlers a 8 = SIG_DFL \<Longrightarrow> pstate q = PROCESS_ZOMBIE"
    using signal_deliver_pcb [OF a(1)] by blast
  have res: "process_table (signal_check_deliver s i) i = Some q"
    using p a(1) sig q(1) by (simp add: signal_check_deliver_def Let_def)
  show thesis
  proof (cases "sig = SIGKILL")
    case True
    with q(3) a(3) safe show thesis by (intro that [OF res]) (simp add: kill_safe_def)
  next
    case False
    with le have k: "nat (sig - 1) < 8" by linarith
    have "ahead q \<subset> ahead p"
    proof (rule psubsetI)
      show "ahead q \<subseteq> ahead p" by (auto simp: ahead_def q(2) bit_and_not_sigbit a(4))
      have "nat (sig - 1) \<in> ahead p" "nat (sig - 1) \<notin> ahead q"
        using le k a(4) [of "nat (sig - 1)"]
        by (auto simp: ahead_def deliverable_def q(2) bit_and_not_sigbit)
      then show "ahead q \<noteq> ahead p" by blast
    qed
    then have "card (ahead q) < card (ahead p)" by (intro psubset_card_mono) auto
    moreover have "bit (signal_pending q) 8"
      using pend k a(4) by (simp add: q(2) bit_and_not_sigbit)
    ultimately show thesis by (intro that [OF res]) simp
  qed
qed

lemma checks_reach_kill:
  "table_safe s \<Longrightarrow> process_table s i = Some p \<Longrightarrow> bit (signal_pending p) 8 \<Longrightarrow>
     \<exists>m q. m \<le> Suc (card (ahead p)) \<and> process_table (((\<lambda>s. signal_check_deliver s i) ^^ m) s) i = Some q
       \<and> pstate q = PROCESS_ZOMBIE"
proof (induction "card (ahead p)" arbitrary: s p rule: less_induct)
  case less
  obtain q where q: "process_table (signal_check_deliver s i) i = Some q"
      "pstate q = PROCESS_ZOMBIE \<or> bit (signal_pending q) 8 \<and> card (ahead q) < card (ahead p)"
    using check_towards_kill [OF less.prems] by blast
  show ?case
  proof (cases "pstate q = PROCESS_ZOMBIE")
    case True
    with q(1) show ?thesis by (intro exI [of _ 1] exI [of _ q]) auto
  next
    case False
    with q(2) have b: "bit (signal_pending q) 8" "card (ahead q) < card (ahead p)" by auto
    obtain m r where "m \<le> Suc (card (ahead q))" "pstate r = PROCESS_ZOMBIE"
        "process_table (((\<lambda>s. signal_check_deliver s i) ^^ m) (signal_check_deliver s i)) i = Some r"
      using less.hyps [OF b(2) signal_check_deliver_safe [OF less.prems(1)] q(1) b(1)] by blast
    then show ?thesis using b(2)
      by (intro exI [of _ "Suc m"] exI [of _ r]) (auto simp: funpow_Suc_right simp del: funpow.simps)
  qed
qed

subsection \<open>Signal frames\<close>


lemma length_frame_words [simp]: "length (frame_words p sig) = 9"
  by (simp add: frame_words_def)

lemma signal_deliver_frame:
  assumes "process_table s i = Some p" and "signal_handlers p (nat (sig - 1)) \<notin> {SIG_DFL, SIG_IGN}"
  defines "f \<equiv> useresp (ctx p) - 36"
  shows "\<exists>q. process_table (signal_deliver s i sig) i = Some q
     \<and> ctx q = (ctx p)\<lparr>useresp := f - 8, eip := signal_handlers p (nat (sig - 1))\<rparr>
     \<and> signal_frame_addr q = f \<and> signal_blocked q = signal_blocked p OR sigbit sig
     \<and> (let m = umem (signal_deliver s i sig) in
          [m f, m (f + 4), m (f + 8), m (f + 12), m (f + 16), m (f + 20), m (f + 24), m (f + 28), m (f + 32)]
            = frame_words p sig \<and> m (f - 4) = word_of_int sig \<and> m (f - 8) = f)"
  using assms(1, 2) unfolding f_def
  by (simp add: signal_deliver_def Let_def table_put_pcb frame_words_def)

subsection \<open>Properties\<close>

text \<open>
  C16: Starting from a process table in which no process blocks or catches SIGKILL and SIGSTOP, no
  sequence of signal system calls, deliveries, alarms and suspensions makes a process block or catch
  them, as long as \<open>signal_sigreturn\<close> is not used and a resumed \<open>sigsuspend\<close> restores the mask it
  saved.
\<close>

theorem sigkill_never_blocked:
  assumes "table_safe s" and "list_all resumes_ok ops"
  shows "table_safe (run_calls signal_exec s ops)"
  using assms by (rule signal_calls.run_keeps)

definition demo_pcb :: pcb where
  "demo_pcb = \<lparr>pid = 5, pstate = PROCESS_RUNNING, blocked_reason = 0,
     ctx = \<lparr>eip = 0x1000, eflags = 2, eax = 7, ecx = 8, edx = 9, useresp = 0x8000\<rparr>,
     signal_pending = 0, signal_blocked = 0, signal_handlers = (\<lambda>_. SIG_DFL), signal_sa_flags = 0,
     signal_sa_mask = 0, signal_restorer = 0, alarm_ticks = 0, signal_frame_addr = 0,
     signal_actions = (\<lambda>_. \<lparr>sa_handler = 0, sa_mask = 0, sa_flags = 0\<rparr>), sig_pending_bits = 0,
     sig_queue = []\<rparr>"

definition demo_sys :: ksys where
  "demo_sys = \<lparr>process_table = [5 \<mapsto> signal_init_proc demo_pcb], current = Some 5, runq = [],
     umem = (\<lambda>_. 0)\<rparr>"

lemma demo_sys_safe: "table_safe demo_sys"
  by (auto simp: table_safe_def demo_sys_def demo_pcb_def signal_init_proc_def kill_safe_def)

theorem sigkill_never_blocked_witness:
  "table_safe (run_calls signal_exec demo_sys [Sigprocmask 0 (Some (- 1)), Kill 5 9, Check 5])"
  by (rule sigkill_never_blocked [OF demo_sys_safe]) simp

text \<open>
  C17: SIGKILL terminates. In a table where SIGKILL is neither blocked nor caught, sending it to an
  existing process makes that process a zombie within at most nine delivery ticks, whatever other
  signals are pending, whatever handlers are installed and whether or not its alarm is running.
\<close>

theorem sigkill_terminates:
  assumes s: "table_safe s" and t: "process_get_pcb s i = Some t"
  shows "\<exists>m q. m \<le> 9
     \<and> process_table (((\<lambda>s. signal_check_deliver s i) ^^ m) (snd (kill s i SIGKILL))) i = Some q
     \<and> pstate q = PROCESS_ZOMBIE"
proof -
  have p: "\<exists>p. process_table (snd (kill s i SIGKILL)) i = Some p \<and> bit (signal_pending p) 8"
    using t by (auto simp: kill_def Let_def process_get_pcb_def sched_unblock_table table_put_pcb
        bit_or_sigbit split: if_splits)
  then obtain p where p: "process_table (snd (kill s i SIGKILL)) i = Some p" "bit (signal_pending p) 8"
    by blast
  have "card (ahead p) \<le> card {..<8::nat}" by (intro card_mono) (auto simp: ahead_def)
  then have "card (ahead p) \<le> 8" by simp
  moreover obtain m q where "m \<le> Suc (card (ahead p))" "pstate q = PROCESS_ZOMBIE"
      "process_table (((\<lambda>s. signal_check_deliver s i) ^^ m) (snd (kill s i SIGKILL))) i = Some q"
    using checks_reach_kill [OF kill_keeps_safe [OF s] p] by blast
  ultimately show ?thesis by (intro exI [of _ m] exI [of _ q]) simp
qed

theorem sigkill_terminates_witness:
  "\<exists>m q. m \<le> 9
     \<and> process_table (((\<lambda>s. signal_check_deliver s 5) ^^ m) (snd (kill demo_sys 5 SIGKILL))) 5 = Some q
     \<and> pstate q = PROCESS_ZOMBIE"
  by (rule sigkill_terminates [OF demo_sys_safe, of _ "signal_init_proc demo_pcb"])
    (simp add: process_get_pcb_def demo_sys_def)


definition demo_caught :: ksys where
  "demo_caught =
     snd (kill (on_pcb demo_sys 5 (\<lambda>p. snd (snd (signal_sigaction p 10
       (Some \<lparr>sa_handler = 0x4000, sa_mask = - 1, sa_flags = 0, sa_restorer = 0\<rparr>))))) 5 10)"

lemmas demo_defs = demo_caught_def demo_sys_def demo_pcb_def on_pcb_def signal_init_proc_def
  signal_sigaction_def kill_def process_get_pcb_def put_pcb_def Let_def


text \<open>
  \<open>signal_sigreturn\<close> does not restore the mask that was in force before the handler ran: it
  installs the unfiltered \<open>sa_mask\<close> registered with \<open>signal_sigaction\<close>, so a process that asked for
  SIGKILL in its \<open>sa_mask\<close> ends up blocking SIGKILL after its first handled signal.
\<close>

theorem sigreturn_installs_sa_mask:
  assumes p: "process_table s i = Some p" and h: "signal_handlers p (nat (sig - 1)) \<notin> {SIG_DFL, SIG_IGN}"
    and f: "useresp (ctx p) \<noteq> 36"
  shows "\<exists>q. process_table (signal_sigreturn (signal_deliver s i sig) i) i = Some q
     \<and> signal_blocked q = signal_sa_mask p"
  using signal_deliver_frame [OF p h, unfolded Let_def frame_words_def, simplified] f
  by (auto simp: signal_sigreturn_def Let_def table_put_pcb)

theorem sigreturn_installs_sa_mask_witness:
  "\<exists>q. process_table (signal_sigreturn (signal_deliver demo_caught 5 10) 5) 5 = Some q
     \<and> \<not> kill_safe q"
proof -
  let ?p = "the (process_table demo_caught 5)"
  have "process_table demo_caught 5 = Some ?p" "signal_handlers ?p (nat (10 - 1)) \<notin> {SIG_DFL, SIG_IGN}"
    "useresp (ctx ?p) \<noteq> 36" by (simp_all add: demo_defs)
  from sigreturn_installs_sa_mask [OF this]
  obtain q where "process_table (signal_sigreturn (signal_deliver demo_caught 5 10) 5) 5 = Some q"
    "signal_blocked q = - 1" by (auto simp: demo_defs)
  then show ?thesis by (auto simp: kill_safe_def)
qed

end
