(* ===== verification/Pmm.thy ===== *)
theory Pmm
  imports Interfaces
begin

text \<open>
  The physical page allocator, \<open>kernel/pmm.c\<close>: a bitmap of page frames (one bit per 4096-byte
  page), the page counters, the boot-time initialisation, and the single-page and contiguous
  allocation and release routines. Page indices are natural numbers (every index the code forms
  is below \<open>2 ^ 20\<close>); addresses, counters and bitmap words keep their 32 bits.
\<close>

subsection \<open>State\<close>

definition PAGE_SIZE :: nat where
  "PAGE_SIZE = 4096"

definition PMM_MAX_PAGES :: nat where
  "PMM_MAX_PAGES = 1048576"

text \<open>The static variables \<open>bitmap\<close>, \<open>total_pages\<close>, \<open>used_pages\<close> and \<open>bitmap_size\<close>.\<close>

record pmm =
  bitmap :: "nat \<Rightarrow> u32"
  total_pages :: nat
  used_pages :: u32
  bitmap_size :: nat

definition bitmap_set :: "pmm \<Rightarrow> nat \<Rightarrow> pmm" where
  "bitmap_set p index = p\<lparr>bitmap := (bitmap p)
     (index div 32 := bitmap p (index div 32) OR push_bit (index mod 32) 1)\<rparr>"

definition bitmap_clear :: "pmm \<Rightarrow> nat \<Rightarrow> pmm" where
  "bitmap_clear p index = p\<lparr>bitmap := (bitmap p)
     (index div 32 := bitmap p (index div 32) AND NOT (push_bit (index mod 32) 1))\<rparr>"

definition bitmap_test :: "pmm \<Rightarrow> nat \<Rightarrow> bool" where
  "bitmap_test p index \<longleftrightarrow> drop_bit (index mod 32) (bitmap p (index div 32)) AND 1 \<noteq> 0"

text \<open>The two guarded updates every loop of the file performs.\<close>

definition release_page :: "pmm \<Rightarrow> nat \<Rightarrow> pmm" where
  "release_page p i =
     (if bitmap_test p i
      then (bitmap_clear p i)\<lparr>used_pages := used_pages p - 1\<rparr> else p)"

definition reserve_page :: "pmm \<Rightarrow> nat \<Rightarrow> pmm" where
  "reserve_page p i =
     (if \<not> bitmap_test p i
      then (bitmap_set p i)\<lparr>used_pages := used_pages p + 1\<rparr> else p)"

subsection \<open>Initialisation\<close>

text \<open>
  \<open>info\<close> is the multiboot \<open>mem_upper\<close> field (None for a NULL pointer), \<open>bitmap_addr\<close>,
  \<open>kstart\<close> and \<open>kend\<close> are link-time addresses: of the bitmap array and of the kernel image.
\<close>

definition init_pmm :: "u32 option \<Rightarrow> u32 \<Rightarrow> u32 \<Rightarrow> u32 \<Rightarrow> pmm \<Rightarrow> pmm" where
  "init_pmm info bitmap_addr kstart kend p0 =
     (let max_addr = (case info of None \<Rightarrow> 0xFFFFFFFF
                      | Some mem_upper \<Rightarrow>
                          (let m = mem_upper * 1024 in if m = 0 then 0xFFFFFFFF else m)) :: u32;
          total = min (unat max_addr div PAGE_SIZE) PMM_MAX_PAGES;
          bsize = min ((total + 32 - 1) div 32) (PMM_MAX_PAGES div 32);
          p1 = p0\<lparr>bitmap := (\<lambda>i. if i < bsize then 0xFFFFFFFF else bitmap p0 i),
                  total_pages := total, used_pages := of_nat total, bitmap_size := bsize\<rparr>;
          start_page = 0x100000 div PAGE_SIZE;
          p2 = foldl release_page p1 [start_page ..< total];
          p3 = (bitmap_set p2 0)\<lparr>used_pages := used_pages p2 + 1\<rparr>;
          bitmap_bytes = of_nat (bsize * 4) :: u32;
          bs = unat bitmap_addr div PAGE_SIZE;
          be = unat (bitmap_addr + bitmap_bytes + 4096 - 1) div PAGE_SIZE;
          p4 = foldl reserve_page p3 [bs ..< min be total];
          kend' = (if kend < kstart then kstart else kend);
          ks = unat kstart div PAGE_SIZE;
          ke = unat (kend' + 4096 - 1) div PAGE_SIZE
      in foldl reserve_page p4 [ks ..< min ke total])"

subsection \<open>Allocation and release\<close>

text \<open>
  The inner loop of \<open>pmm_alloc_page\<close> over the bits of word \<open>i\<close>: \<open>None\<close> is the early
  \<open>return NULL\<close>, \<open>Some None\<close> falls through to the next word.
\<close>

fun alloc_scan_bits :: "pmm \<Rightarrow> nat \<Rightarrow> nat list \<Rightarrow> nat option option" where
  "alloc_scan_bits p i [] = Some None"
| "alloc_scan_bits p i (j # js) =
     (let index = i * 32 + j in
      if index \<ge> total_pages p then None
      else if bitmap p i AND push_bit j 1 = 0 then Some (Some index)
      else alloc_scan_bits p i js)"

fun alloc_scan_words :: "pmm \<Rightarrow> nat list \<Rightarrow> nat option" where
  "alloc_scan_words p [] = None"
| "alloc_scan_words p (i # is) =
     (if bitmap p i \<noteq> 0xFFFFFFFF
      then (case alloc_scan_bits p i [0..<32] of
              None \<Rightarrow> None
            | Some (Some index) \<Rightarrow> Some index
            | Some None \<Rightarrow> alloc_scan_words p is)
      else alloc_scan_words p is)"

definition pmm_alloc_page :: "pmm \<Rightarrow> u32 \<times> pmm" where
  "pmm_alloc_page p =
     (case alloc_scan_words p [0..<bitmap_size p] of
        None \<Rightarrow> (0, p)
      | Some index \<Rightarrow>
          (of_nat (index * PAGE_SIZE),
           (bitmap_set p index)\<lparr>used_pages := used_pages p + 1\<rparr>))"

definition pmm_free_page :: "pmm \<Rightarrow> u32 \<Rightarrow> pmm" where
  "pmm_free_page p addr =
     (if unat addr mod PAGE_SIZE \<noteq> 0 then p
      else let index = unat addr div PAGE_SIZE in
           if index \<ge> total_pages p then p else release_page p index)"

text \<open>The scan of \<open>pmm_alloc_pages\<close>: \<open>c\<close> is \<open>consecutive\<close>, \<open>st\<close> is \<open>start_index\<close>.\<close>

fun alloc_scan_run :: "pmm \<Rightarrow> nat \<Rightarrow> nat list \<Rightarrow> nat \<Rightarrow> nat \<Rightarrow> nat option" where
  "alloc_scan_run p count [] c st = None"
| "alloc_scan_run p count (i # is) c st =
     (if \<not> bitmap_test p i
      then (let st' = (if c = 0 then i else st); c' = c + 1 in
            if c' = count then Some st' else alloc_scan_run p count is c' st')
      else alloc_scan_run p count is 0 st)"

definition take_page :: "pmm \<Rightarrow> nat \<Rightarrow> pmm" where
  "take_page p i = (bitmap_set p i)\<lparr>used_pages := used_pages p + 1\<rparr>"

definition pmm_alloc_pages :: "pmm \<Rightarrow> u32 \<Rightarrow> u32 \<times> pmm" where
  "pmm_alloc_pages p count =
     (if count = 0 then (0, p)
      else if count = 1 then pmm_alloc_page p
      else case alloc_scan_run p (unat count) [0..<total_pages p] 0 0 of
             None \<Rightarrow> (0, p)
           | Some start_index \<Rightarrow>
               (of_nat (start_index * PAGE_SIZE),
                foldl take_page p [start_index ..< start_index + unat count]))"

text \<open>The loop of \<open>pmm_free_pages\<close> ends at \<open>count\<close> or at the first index past the bitmap.\<close>

definition pmm_free_pages :: "pmm \<Rightarrow> u32 \<Rightarrow> u32 \<Rightarrow> pmm" where
  "pmm_free_pages p addr count =
     (if unat addr mod PAGE_SIZE \<noteq> 0 then p
      else let index = unat addr div PAGE_SIZE in
           foldl release_page p [index ..< min (index + unat count) (total_pages p)])"

definition pmm_get_total_pages :: "pmm \<Rightarrow> u32" where
  "pmm_get_total_pages p = of_nat (total_pages p)"

definition pmm_get_used_pages :: "pmm \<Rightarrow> u32" where
  "pmm_get_used_pages p = used_pages p"

definition pmm_get_free_pages :: "pmm \<Rightarrow> u32" where
  "pmm_get_free_pages p = of_nat (total_pages p) - used_pages p"

subsection \<open>Invariant\<close>

text \<open>The set of pages whose bit is set, and what every call keeps of the counters.\<close>

definition pmm_used :: "pmm \<Rightarrow> nat set" where
  "pmm_used p = {i. i < total_pages p \<and> bitmap_test p i}"

definition pmm_shape :: "pmm \<Rightarrow> bool" where
  "pmm_shape p \<longleftrightarrow> total_pages p \<le> PMM_MAX_PAGES \<and> bitmap_size p = (total_pages p + 31) div 32"

text \<open>\<open>k\<close> is the difference between the counter \<open>used_pages\<close> and the true number of used pages.\<close>

definition pmm_inv :: "u32 \<Rightarrow> pmm \<Rightarrow> bool" where
  "pmm_inv k p \<longleftrightarrow> pmm_shape p \<and> used_pages p = of_nat (card (pmm_used p)) + k"

subsection \<open>Lemmas on single pages\<close>

lemma bitmap_test_bit: "bitmap_test p i \<longleftrightarrow> bit (bitmap p (i div 32)) (i mod 32)"
  unfolding bitmap_test_def
  by (simp add: and_one_eq mod_2_eq_odd bit_iff_odd_drop_bit)

lemma div_mod_32_eq: "(i::nat) div 32 = j div 32 \<Longrightarrow> i mod 32 = j mod 32 \<Longrightarrow> i = j"
  by (metis div_mult_mod_eq)

lemma bitmap_test_set [simp]: "bitmap_test (bitmap_set p i) j \<longleftrightarrow> j = i \<or> bitmap_test p j"
  by (auto simp: bitmap_test_bit bitmap_set_def bit_rules dest: div_mod_32_eq)

lemma bitmap_test_clear [simp]: "bitmap_test (bitmap_clear p i) j \<longleftrightarrow> j \<noteq> i \<and> bitmap_test p j"
  by (auto simp: bitmap_test_bit bitmap_clear_def bit_rules dest: div_mod_32_eq)

lemma bitmap_test_used [simp]: "bitmap_test (p\<lparr>used_pages := u\<rparr>) = bitmap_test p"
  by (simp add: fun_eq_iff bitmap_test_def)

lemma bitmap_set_fields [simp]:
  "total_pages (bitmap_set p i) = total_pages p"
  "bitmap_size (bitmap_set p i) = bitmap_size p"
  "used_pages (bitmap_set p i) = used_pages p"
  "total_pages (bitmap_clear p i) = total_pages p"
  "bitmap_size (bitmap_clear p i) = bitmap_size p"
  "used_pages (bitmap_clear p i) = used_pages p"
  by (simp_all add: bitmap_set_def bitmap_clear_def)

lemma finite_pmm_used [simp]: "finite (pmm_used p)"
  by (simp add: pmm_used_def)

lemma pmm_used_take [simp]:
  "i < total_pages p \<Longrightarrow> pmm_used (take_page p i) = insert i (pmm_used p)"
  by (auto simp: pmm_used_def take_page_def)

lemma pmm_used_release [simp]: "pmm_used (release_page p i) = pmm_used p - {i}"
  by (auto simp: pmm_used_def release_page_def)

lemma pmm_used_reserve [simp]:
  "i < total_pages p \<Longrightarrow> pmm_used (reserve_page p i) = insert i (pmm_used p)"
  by (auto simp: pmm_used_def reserve_page_def)

lemma page_op_fields [simp]:
  "total_pages (take_page p i) = total_pages p" "bitmap_size (take_page p i) = bitmap_size p"
  "total_pages (release_page p i) = total_pages p" "bitmap_size (release_page p i) = bitmap_size p"
  "total_pages (reserve_page p i) = total_pages p" "bitmap_size (reserve_page p i) = bitmap_size p"
  by (simp_all add: take_page_def release_page_def reserve_page_def)

lemma pmm_shape_page_ops [simp]:
  "pmm_shape (take_page p i) = pmm_shape p"
  "pmm_shape (release_page p i) = pmm_shape p"
  "pmm_shape (reserve_page p i) = pmm_shape p"
  by (simp_all add: pmm_shape_def)

lemma pmm_inv_take [kernel_inv]:
  "pmm_inv k p \<Longrightarrow> i < total_pages p \<Longrightarrow> i \<notin> pmm_used p \<Longrightarrow> pmm_inv k (take_page p i)"
  by (simp add: pmm_inv_def) (simp add: take_page_def)

lemma pmm_inv_release [kernel_inv]:
  assumes "pmm_inv k p" and "i < total_pages p"
  shows "pmm_inv k (release_page p i)"
proof (cases "i \<in> pmm_used p")
  case True
  then have "0 < card (pmm_used p)" by (auto simp: card_gt_0_iff)
  with True assms show ?thesis
    by (auto simp: pmm_inv_def card_Diff_singleton) (simp add: release_page_def pmm_used_def of_nat_diff)
next
  case False
  with assms have "release_page p i = p" by (simp add: release_page_def pmm_used_def)
  with assms show ?thesis by simp
qed

lemma pmm_inv_reserve [kernel_inv]:
  assumes "pmm_inv k p" and "i < total_pages p"
  shows "pmm_inv k (reserve_page p i)"
proof (cases "i \<in> pmm_used p")
  case True
  then have "reserve_page p i = p" by (simp add: reserve_page_def pmm_used_def)
  with assms show ?thesis by simp
next
  case False
  with assms(2) have "reserve_page p i = take_page p i"
    by (simp add: reserve_page_def take_page_def pmm_used_def)
  with assms False show ?thesis by (simp add: pmm_inv_take)
qed

subsection \<open>The scans find the first fit\<close>

abbreviation free_page :: "pmm \<Rightarrow> nat \<Rightarrow> bool" where
  "free_page p i \<equiv> \<not> bitmap_test p i"

lemma find_append_case:
  "find P (xs @ ys) = (case find P xs of None \<Rightarrow> find P ys | Some x \<Rightarrow> Some x)"
  by (induction xs) auto

lemma filter_less_sorted_ge:
  "sorted (x # xs) \<Longrightarrow> n \<le> x \<Longrightarrow> filter (\<lambda>y. y < n) (x # xs) = ([] :: nat list)"
  by (auto simp: filter_empty_conv)

lemma alloc_scan_bits_eq:
  assumes "sorted js" and "set js \<subseteq> {..<32}"
  shows "alloc_scan_bits p i js =
    (case find (free_page p) (filter (\<lambda>x. x < total_pages p) (map (\<lambda>j. i * 32 + j) js)) of
       Some x \<Rightarrow> Some (Some x)
     | None \<Rightarrow> if \<forall>j\<in>set js. i * 32 + j < total_pages p then Some None else None)"
  using assms
proof (induction js)
  case Nil
  then show ?case by simp
next
  case (Cons j js)
  have free: "bitmap p i AND 2 ^ j = 0 \<longleftrightarrow> free_page p (i * 32 + j)"
    using Cons.prems(2) by (simp add: bitmap_test_bit bit_rules)
  show ?case
  proof (cases "i * 32 + j < total_pages p")
    case True
    with Cons show ?thesis by (auto simp: Let_def free split: option.splits)
  next
    case False
    then have "filter (\<lambda>x. x < total_pages p) (map (\<lambda>j. i * 32 + j) (j # js)) = []"
      using Cons.prems(1) by (auto simp: filter_empty_conv)
    with False show ?thesis by (simp add: Let_def)
  qed
qed

lemma full_word_test:
  assumes "bitmap p i = 0xFFFFFFFF" "i * 32 \<le> x" "x < i * 32 + 32"
  shows "bitmap_test p x"
proof -
  have "bitmap p i = - 1" using assms(1) by simp
  moreover have "x div 32 = i" using assms(2,3) by (simp add: div_nat_eqI)
  ultimately show ?thesis by (simp only: bitmap_test_bit bit_minus_1_iff) simp
qed

lemma alloc_scan_words_find:
  "sorted_wrt (<) is \<Longrightarrow> alloc_scan_words p is =
     find (free_page p) (filter (\<lambda>x. x < total_pages p)
       (concat (map (\<lambda>i. map (\<lambda>j. i * 32 + j) [0..<32]) is)))"
proof (induction "is")
  case Nil
  then show ?case by simp
next
  case (Cons i "is")
  let ?b = "\<lambda>i. map (\<lambda>j. i * 32 + j) [0..<32]"
  let ?f = "filter (\<lambda>x. x < total_pages p)"
  have ih: "alloc_scan_words p is = find (free_page p) (?f (concat (map ?b is)))"
    using Cons by simp
  have bits: "alloc_scan_bits p i [0..<32] =
     (case find (free_page p) (?f (?b i)) of Some x \<Rightarrow> Some (Some x)
      | None \<Rightarrow> if \<forall>j\<in>set [0..<32]. i * 32 + j < total_pages p then Some None else None)"
    by (rule alloc_scan_bits_eq) auto
  have past: "?f (concat (map ?b is)) = []" if "j < 32" "\<not> i * 32 + j < total_pages p" for j
  proof -
    have "total_pages p \<le> k * 32" if "k \<in> set is" for k
    proof -
      from that Cons.prems have "Suc i \<le> k" by auto
      then have "Suc i * 32 \<le> k * 32" by (rule mult_le_mono1)
      with \<open>j < 32\<close> \<open>\<not> i * 32 + j < total_pages p\<close> show ?thesis by simp
    qed
    then have "total_pages p \<le> x" if "k \<in> set is" "k * 32 \<le> x" for k x
      using that le_trans by blast
    then show ?thesis by (auto simp: filter_empty_conv not_less)
  qed
  show ?case
  proof (cases "bitmap p i = 0xFFFFFFFF")
    case True
    then have "find (free_page p) (?f (?b i)) = None"
      by (auto simp: find_None_iff full_word_test)
    with True ih show ?thesis by (simp add: find_append_case)
  next
    case False
    show ?thesis
    proof (cases "find (free_page p) (?f (?b i))")
      case (Some x)
      with False bits show ?thesis by (simp add: find_append_case)
    next
      case None
      show ?thesis
      proof (cases "\<forall>j\<in>set [0..<32]. i * 32 + j < total_pages p")
        case True
        with None False bits ih show ?thesis by (simp add: find_append_case)
      next
        case nf: False
        then have "?f (concat (map ?b is)) = []" using past by auto
        with None False bits nf ih show ?thesis by (auto simp: find_append_case)
      qed
    qed
  qed
qed

lemma concat_words_upt: "concat (map (\<lambda>i. map (\<lambda>j. i * b + j) [0..<b]) [0..<n]) = [0..<n * b]"
proof (induction n)
  case 0
  then show ?case by simp
next
  case (Suc n)
  have "map (\<lambda>j. n * b + j) [0..<b] = [n * b..<n * b + b]"
    by (rule nth_equalityI) simp_all
  then have "concat (map (\<lambda>i. map (\<lambda>j. i * b + j) [0..<b]) [0..<Suc n])
      = [0..<n * b] @ [n * b..<n * b + b]"
    by (simp add: Suc.IH)
  also have "\<dots> = [0..<n * b + b]" by (rule upt_add_eq_append [symmetric]) simp
  finally show ?case by (simp add: add.commute)
qed

lemma filter_less_upt: "n \<le> m \<Longrightarrow> filter (\<lambda>x. x < n) [0..<m] = [0..<n]"
proof -
  assume "n \<le> m"
  then have "[0..<m] = [0..<n] @ [n..<m]"
    by (metis le_add_diff_inverse upt_add_eq_append zero_le)
  then show ?thesis by (simp add: filter_empty_conv)
qed

lemma alloc_scan_words_eq:
  assumes "pmm_shape p"
  shows "alloc_scan_words p [0..<bitmap_size p] = find (free_page p) [0..<total_pages p]"
proof -
  have "total_pages p \<le> bitmap_size p * 32" using assms by (simp add: pmm_shape_def)
  moreover have "sorted_wrt (<) [0..<bitmap_size p]" by simp
  ultimately show ?thesis
    by (simp only: alloc_scan_words_find concat_words_upt filter_less_upt)
qed

lemma find_free_Some:
  assumes "find (free_page p) [0..<total_pages p] = Some i"
  shows "i < total_pages p \<and> i \<notin> pmm_used p \<and> (\<forall>j<i. j \<in> pmm_used p)"
proof -
  from assms obtain k where k: "k < total_pages p" "i = [0..<total_pages p] ! k"
    "free_page p i" "\<forall>j<k. \<not> free_page p ([0..<total_pages p] ! j)"
    by (auto simp: find_Some_iff)
  then have "i = k" by simp
  with k show ?thesis by (auto simp: pmm_used_def)
qed

lemma find_free_None:
  "find (free_page p) [0..<total_pages p] = None \<longleftrightarrow> pmm_used p = {..<total_pages p}"
  by (auto simp: find_None_iff pmm_used_def)

definition run_free :: "pmm \<Rightarrow> nat \<Rightarrow> nat \<Rightarrow> bool" where
  "run_free p s count \<longleftrightarrow> (\<forall>k\<in>{s..<s + count}. k \<notin> pmm_used p)"

lemma alloc_scan_run_spec:
  assumes "i \<le> total_pages p" "c < count" "c \<le> i" "\<forall>k\<in>{i - c..<i}. k \<notin> pmm_used p"
    and "0 < c \<longrightarrow> st = i - c" and "c = i \<or> i - c - 1 \<in> pmm_used p"
  shows "case alloc_scan_run p count [i..<total_pages p] c st of
      Some s \<Rightarrow> i - c \<le> s \<and> s + count \<le> total_pages p \<and> run_free p s count
        \<and> (\<forall>s'. i - c \<le> s' \<longrightarrow> s' < s \<longrightarrow> \<not> run_free p s' count)
    | None \<Rightarrow> (\<forall>s'. i - c \<le> s' \<longrightarrow> s' + count \<le> total_pages p \<longrightarrow> \<not> run_free p s' count)"
  using assms
proof (induction "total_pages p - i" arbitrary: i c st)
  case 0
  then show ?case by (auto simp: run_free_def)
next
  case (Suc n)
  then have lt: "i < total_pages p" by simp
  then have upt: "[i..<total_pages p] = i # [Suc i..<total_pages p]" by (simp add: upt_rec)
  show ?case
  proof (cases "bitmap_test p i")
    case True
    then have used: "i \<in> pmm_used p" using lt by (simp add: pmm_used_def)
    have out: "Suc i \<le> s'" if "i - c \<le> s'" "run_free p s' count" for s'
    proof (rule ccontr)
      assume "\<not> Suc i \<le> s'"
      with that(1) Suc.prems(2) have "i \<in> {s'..<s' + count}" by auto
      with that(2) used show False unfolding run_free_def by blast
    qed
    have "case alloc_scan_run p count [Suc i..<total_pages p] 0 st of
      Some s \<Rightarrow> Suc i - 0 \<le> s \<and> s + count \<le> total_pages p \<and> run_free p s count
        \<and> (\<forall>s'. Suc i - 0 \<le> s' \<longrightarrow> s' < s \<longrightarrow> \<not> run_free p s' count)
    | None \<Rightarrow> (\<forall>s'. Suc i - 0 \<le> s' \<longrightarrow> s' + count \<le> total_pages p \<longrightarrow> \<not> run_free p s' count)"
      using Suc lt used by (intro Suc.hyps(1)) auto
    then show ?thesis
      using True out upt by (cases "alloc_scan_run p count [Suc i..<total_pages p] 0 st") auto
  next
    case False
    then have free: "i \<notin> pmm_used p" by (simp add: pmm_used_def)
    let ?st = "if c = 0 then i else st"
    have st: "?st = i - c" using Suc.prems(5) by auto
    show ?thesis
    proof (cases "c + 1 = count")
      case True
      have "run_free p (i - c) count"
        unfolding run_free_def
      proof
        fix k assume "k \<in> {i - c..<i - c + count}"
        with True Suc.prems(3) have "k \<in> {i - c..<i} \<or> k = i" by auto
        with Suc.prems(4) free show "k \<notin> pmm_used p" by blast
      qed
      moreover have "alloc_scan_run p count [i..<total_pages p] c st = Some (i - c)"
        using True False upt st by (simp add: Let_def)
      ultimately show ?thesis using True lt Suc.prems(3) by auto
    next
      case ne: False
      have "case alloc_scan_run p count [Suc i..<total_pages p] (c + 1) ?st of
      Some s \<Rightarrow> Suc i - (c + 1) \<le> s \<and> s + count \<le> total_pages p \<and> run_free p s count
        \<and> (\<forall>s'. Suc i - (c + 1) \<le> s' \<longrightarrow> s' < s \<longrightarrow> \<not> run_free p s' count)
    | None \<Rightarrow> (\<forall>s'. Suc i - (c + 1) \<le> s' \<longrightarrow> s' + count \<le> total_pages p \<longrightarrow> \<not> run_free p s' count)"
      proof (rule Suc.hyps(1))
        show "\<forall>k\<in>{Suc i - (c + 1)..<Suc i}. k \<notin> pmm_used p"
          using Suc.prems(4) free by (auto simp: less_Suc_eq)
      qed (use Suc ne lt st in auto)
      moreover have "alloc_scan_run p count [i..<total_pages p] c st
          = alloc_scan_run p count [Suc i..<total_pages p] (c + 1) ?st"
        using ne False upt by (simp add: Let_def)
      moreover have "Suc i - (c + 1) = i - c" by simp
      ultimately show ?thesis by (simp only:)
    qed
  qed
qed

subsection \<open>What each operation does to the set of used pages\<close>

lemma pmm_alloc_page_take:
  assumes "pmm_shape p"
  shows "pmm_alloc_page p = (case find (free_page p) [0..<total_pages p] of
     None \<Rightarrow> (0, p) | Some i \<Rightarrow> (of_nat (i * PAGE_SIZE), take_page p i))"
  using alloc_scan_words_eq [OF assms] by (simp add: pmm_alloc_page_def take_page_def split: option.splits)

lemma unat_page_addr:
  assumes "i < PMM_MAX_PAGES"
  shows "unat (of_nat (i * PAGE_SIZE) :: u32) = i * PAGE_SIZE"
proof -
  have "i * PAGE_SIZE < 2 ^ 32" using assms by (simp add: PMM_MAX_PAGES_def PAGE_SIZE_def)
  then show ?thesis by (intro unat_of_nat_less) simp
qed

lemma page_lt_max: "pmm_shape p \<Longrightarrow> i < total_pages p \<Longrightarrow> i < PMM_MAX_PAGES"
  by (simp add: pmm_shape_def)

lemma pmm_alloc_page_cases:
  assumes "pmm_shape p" and "pmm_alloc_page p = (a, q)"
  obtains (full) "pmm_used p = {..<total_pages p}" "a = 0" "q = p"
  | (page) i where "i < total_pages p" "i \<notin> pmm_used p" "\<forall>j<i. j \<in> pmm_used p"
      "unat a = i * PAGE_SIZE" "q = take_page p i"
proof (cases "find (free_page p) [0..<total_pages p]")
  case None
  then have "pmm_used p = {..<total_pages p}" by (simp only: find_free_None)
  then show ?thesis using assms None by (intro full) (simp_all add: pmm_alloc_page_take)
next
  case (Some i)
  note i = find_free_Some [OF Some]
  have "a = of_nat (i * PAGE_SIZE)" "q = take_page p i"
    using assms Some by (simp_all add: pmm_alloc_page_take)
  moreover have "unat (of_nat (i * PAGE_SIZE) :: u32) = i * PAGE_SIZE"
    using i by (intro unat_page_addr page_lt_max [OF assms(1)]) simp
  ultimately show ?thesis using i by (intro page [of i]) simp_all
qed

lemma pmm_free_page_eq:
  assumes "pmm_shape p" and "i < total_pages p"
  shows "pmm_free_page p (of_nat (i * PAGE_SIZE)) = release_page p i"
proof -
  have "unat (of_nat (i * PAGE_SIZE) :: u32) = i * PAGE_SIZE"
    by (rule unat_page_addr [OF page_lt_max [OF assms]])
  with assms(2) show ?thesis by (simp add: pmm_free_page_def PAGE_SIZE_def)
qed

lemma foldl_take_pages:
  assumes "pmm_inv k p" and "s + n \<le> total_pages p" and "run_free p s n"
  shows "pmm_inv k (foldl take_page p [s..<s + n])
    \<and> pmm_used (foldl take_page p [s..<s + n]) = pmm_used p \<union> {s..<s + n}
    \<and> total_pages (foldl take_page p [s..<s + n]) = total_pages p"
  using assms
proof (induction n)
  case 0
  then show ?case by simp
next
  case (Suc n)
  have "run_free p s n" and free: "s + n \<notin> pmm_used p"
    using Suc.prems(3) by (auto simp: run_free_def)
  with Suc have ih: "pmm_inv k (foldl take_page p [s..<s + n])"
    "pmm_used (foldl take_page p [s..<s + n]) = pmm_used p \<union> {s..<s + n}"
    "total_pages (foldl take_page p [s..<s + n]) = total_pages p"
    by auto
  have "s + n < total_pages (foldl take_page p [s..<s + n])" using ih(3) Suc.prems(2) by simp
  then show ?case using ih free by (auto simp: pmm_inv_take)
qed

lemma foldl_release_pages:
  "pmm_inv k p \<Longrightarrow> set is \<subseteq> {..<total_pages p} \<Longrightarrow>
    pmm_inv k (foldl release_page p is)
    \<and> pmm_used (foldl release_page p is) = pmm_used p - set is
    \<and> total_pages (foldl release_page p is) = total_pages p"
  by (induction "is" arbitrary: p) (auto simp: pmm_inv_release)

lemma foldl_reserve_pages:
  "pmm_inv k p \<Longrightarrow> set is \<subseteq> {..<total_pages p} \<Longrightarrow>
    pmm_inv k (foldl reserve_page p is)
    \<and> pmm_used (foldl reserve_page p is) = pmm_used p \<union> set is
    \<and> total_pages (foldl reserve_page p is) = total_pages p"
  by (induction "is" arbitrary: p) (auto simp: pmm_inv_reserve)

subsection \<open>The calls keep the counters\<close>

datatype pmm_call = AllocPage | FreePage u32 | AllocPages u32 | FreePages u32 u32

fun pmm_exec :: "pmm \<Rightarrow> pmm_call \<Rightarrow> pmm" where
  "pmm_exec p AllocPage = snd (pmm_alloc_page p)"
| "pmm_exec p (FreePage a) = pmm_free_page p a"
| "pmm_exec p (AllocPages n) = snd (pmm_alloc_pages p n)"
| "pmm_exec p (FreePages a n) = pmm_free_pages p a n"

lemma pmm_inv_shape: "pmm_inv k p \<Longrightarrow> pmm_shape p"
  by (simp add: pmm_inv_def)

lemma pmm_inv_alloc_page [kernel_inv]: "pmm_inv k p \<Longrightarrow> pmm_inv k (snd (pmm_alloc_page p))"
proof -
  assume inv: "pmm_inv k p"
  obtain a q where aq: "pmm_alloc_page p = (a, q)" by fastforce
  show ?thesis
    by (rule pmm_alloc_page_cases [OF pmm_inv_shape [OF inv] aq])
       (use inv aq in \<open>simp_all add: pmm_inv_take\<close>)
qed

lemma pmm_inv_free_page [kernel_inv]: "pmm_inv k p \<Longrightarrow> pmm_inv k (pmm_free_page p a)"
  by (auto simp: pmm_free_page_def Let_def pmm_inv_release)

lemma pmm_inv_free_pages [kernel_inv]: "pmm_inv k p \<Longrightarrow> pmm_inv k (pmm_free_pages p a n)"
  by (auto simp: pmm_free_pages_def Let_def intro!: foldl_release_pages [THEN conjunct1])

lemma scan_run_top:
  assumes "0 < count"
  shows "case alloc_scan_run p count [0..<total_pages p] 0 0 of
      Some s \<Rightarrow> s + count \<le> total_pages p \<and> run_free p s count
        \<and> (\<forall>s'. s' < s \<longrightarrow> \<not> run_free p s' count)
    | None \<Rightarrow> (\<forall>s'. s' + count \<le> total_pages p \<longrightarrow> \<not> run_free p s' count)"
  using alloc_scan_run_spec [of 0 p 0 count 0] assms by (simp split: option.splits)

lemma pmm_inv_alloc_pages [kernel_inv]: "pmm_inv k p \<Longrightarrow> pmm_inv k (snd (pmm_alloc_pages p n))"
proof -
  assume inv: "pmm_inv k p"
  show ?thesis
  proof (cases "n = 0 \<or> n = 1")
    case True
    with inv show ?thesis by (auto simp: pmm_alloc_pages_def pmm_inv_alloc_page)
  next
    case False
    then have "0 < unat n" by (simp add: unat_gt_0)
    with False inv scan_run_top [of "unat n" p] foldl_take_pages [OF inv] show ?thesis
      by (auto simp: pmm_alloc_pages_def split: option.splits)
  qed
qed

interpretation pmm_calls: call_system pmm_exec "\<lambda>_. True" "pmm_inv k" for k
proof unfold_locales
  fix p c
  assume "pmm_inv k p"
  then show "pmm_inv k (pmm_exec p c)" by (cases c) (simp_all add: kernel_inv)
qed

subsection \<open>The page allocator as an allocator of numbered slots\<close>

definition pmm_alloc_index :: "pmm \<Rightarrow> nat option \<times> pmm" where
  "pmm_alloc_index p =
     (let (a, q) = pmm_alloc_page p in (if a = 0 then None else Some (unat a div PAGE_SIZE), q))"

definition pmm_ready :: "pmm \<Rightarrow> bool" where
  "pmm_ready p \<longleftrightarrow> pmm_shape p \<and> (0 < total_pages p \<longrightarrow> 0 \<in> pmm_used p)"

lemma pmm_alloc_index_cases:
  assumes "pmm_ready p" and "pmm_alloc_index p = (r, q)"
  obtains (full) "pmm_used p = {..<total_pages p}" "r = None" "q = p"
  | (page) i where "i < total_pages p" "i \<notin> pmm_used p" "r = Some i" "q = take_page p i"
proof -
  have shape: "pmm_shape p" using assms(1) by (simp add: pmm_ready_def)
  obtain a q' where aq: "pmm_alloc_page p = (a, q')" by fastforce
  then have rq: "r = (if a = 0 then None else Some (unat a div PAGE_SIZE))" "q = q'"
    using assms(2) by (simp_all add: pmm_alloc_index_def)
  show ?thesis
  proof (rule pmm_alloc_page_cases [OF shape aq])
    assume "pmm_used p = {..<total_pages p}" "a = 0" "q' = p"
    with rq full show ?thesis by simp
  next
    fix i assume i: "i < total_pages p" "i \<notin> pmm_used p" "unat a = i * PAGE_SIZE" "q' = take_page p i"
    have "i \<noteq> 0"
    proof
      assume "i = 0"
      with i(1,2) assms(1) show False by (simp add: pmm_ready_def)
    qed
    with i(3) have "a \<noteq> 0" by (auto simp: PAGE_SIZE_def)
    with i rq page [of i] show ?thesis by (simp add: PAGE_SIZE_def)
  qed
qed

interpretation pages: index_allocator pmm_ready pmm_used 1 total_pages pmm_alloc_index
  "\<lambda>p i. pmm_free_page p (of_nat (i * PAGE_SIZE))"
proof unfold_locales
  fix p i t
  assume ready: "pmm_ready p"
  show "pmm_used p \<subseteq> {..<total_pages p}" by (auto simp: pmm_used_def)
  show "{..<min 1 (total_pages p)} \<subseteq> pmm_used p" using ready by (auto simp: pmm_ready_def)
  show "pmm_ready t \<and> i < total_pages p \<and> i \<notin> pmm_used p \<and> pmm_used t = insert i (pmm_used p)
      \<and> total_pages t = total_pages p" if "pmm_alloc_index p = (Some i, t)"
    by (rule pmm_alloc_index_cases [OF ready that]) (use ready in \<open>auto simp: pmm_ready_def\<close>)
  show "t = p \<and> pmm_used p = {..<total_pages p}" if "pmm_alloc_index p = (None, t)"
    by (rule pmm_alloc_index_cases [OF ready that]) auto
  show "pmm_ready (pmm_free_page p (of_nat (i * PAGE_SIZE))) \<and>
      pmm_used (pmm_free_page p (of_nat (i * PAGE_SIZE))) = pmm_used p - {i} \<and>
      total_pages (pmm_free_page p (of_nat (i * PAGE_SIZE))) = total_pages p"
    if "1 \<le> i" "i < total_pages p"
  proof -
    have "pmm_free_page p (of_nat (i * PAGE_SIZE)) = release_page p i"
      using ready that(2) by (intro pmm_free_page_eq) (auto simp: pmm_ready_def)
    with ready that show ?thesis by (simp add: pmm_ready_def)
  qed
qed

subsection \<open>Initialisation\<close>

definition boot_total_pages :: "u32 option \<Rightarrow> nat" where
  "boot_total_pages info =
     min (unat (case info of None \<Rightarrow> 0xFFFFFFFF
                | Some m \<Rightarrow> if m * 1024 = 0 then 0xFFFFFFFF else m * 1024) div PAGE_SIZE)
       PMM_MAX_PAGES"

definition boot_all_used :: "u32 option \<Rightarrow> pmm \<Rightarrow> pmm" where
  "boot_all_used info p0 =
     (let total = boot_total_pages info; bsize = (total + 31) div 32 in
      p0\<lparr>bitmap := (\<lambda>i. if i < bsize then 0xFFFFFFFF else bitmap p0 i),
         total_pages := total, used_pages := of_nat total, bitmap_size := bsize\<rparr>)"

text \<open>The pages of the region \<open>[lo, hi)\<close>, rounded outwards as \<open>init_pmm\<close> does.\<close>

definition region_pages :: "u32 \<Rightarrow> u32 \<Rightarrow> nat \<Rightarrow> nat list" where
  "region_pages lo hi n =
     [unat lo div PAGE_SIZE ..< min (unat (hi + 4096 - 1) div PAGE_SIZE) n]"

lemma init_pmm_steps:
  "init_pmm info ba ks ke p0 =
     (let total = boot_total_pages info;
          p2 = foldl release_page (boot_all_used info p0) [256..<total];
          p3 = take_page p2 0;
          p4 = foldl reserve_page p3
                 (region_pages ba (ba + of_nat ((total + 31) div 32 * 4)) total)
      in foldl reserve_page p4 (region_pages ks (max ks ke) total))"
proof -
  have "boot_total_pages info \<le> PMM_MAX_PAGES" by (simp add: boot_total_pages_def)
  then have bs: "min ((boot_total_pages info + 32 - 1) div 32) (PMM_MAX_PAGES div 32)
      = (boot_total_pages info + 31) div 32"
    by (simp add: PMM_MAX_PAGES_def)
  have start: "0x100000 div PAGE_SIZE = 256" by (simp add: PAGE_SIZE_def)
  have kend: "(if ke < ks then ks else ke) = max ks ke" by (auto simp: max_def)
  show ?thesis
    unfolding init_pmm_def Let_def boot_total_pages_def [symmetric] bs start kend
      boot_all_used_def region_pages_def take_page_def ..
qed

lemma boot_all_used_inv:
  "pmm_inv 0 (boot_all_used info p0)
   \<and> pmm_used (boot_all_used info p0) = {..<boot_total_pages info}
   \<and> total_pages (boot_all_used info p0) = boot_total_pages info"
proof -
  let ?p = "boot_all_used info p0"
  have t: "total_pages ?p = boot_total_pages info" by (simp add: boot_all_used_def Let_def)
  have "bitmap_test ?p i" if "i < boot_total_pages info" for i
  proof -
    have "i div 32 < (boot_total_pages info + 31) div 32" using that by simp
    then have "bitmap ?p (i div 32) = 0xFFFFFFFF" by (simp add: boot_all_used_def Let_def)
    then show ?thesis by (rule full_word_test) simp_all
  qed
  then have "pmm_used ?p = {..<boot_total_pages info}" by (auto simp: pmm_used_def t)
  moreover have "pmm_shape ?p"
    by (simp add: pmm_shape_def boot_all_used_def Let_def boot_total_pages_def)
  moreover have "used_pages ?p = of_nat (boot_total_pages info)"
    by (simp add: boot_all_used_def Let_def)
  ultimately show ?thesis by (simp add: pmm_inv_def t)
qed

lemma take_used_page_inv:
  "pmm_inv k p \<Longrightarrow> 0 \<in> pmm_used p \<or> total_pages p = 0 \<Longrightarrow>
     pmm_inv (k + 1) (take_page p 0) \<and> pmm_used (take_page p 0) = pmm_used p"
proof -
  assume a: "pmm_inv k p" "0 \<in> pmm_used p \<or> total_pages p = 0"
  then have "pmm_used (take_page p 0) = pmm_used p"
    by (auto simp: pmm_used_def take_page_def)
  moreover have "used_pages (take_page p 0) = used_pages p + 1" by (simp add: take_page_def)
  ultimately show ?thesis using a(1) by (simp add: pmm_inv_def)
qed

lemma init_pmm_spec:
  fixes info ba ks ke p0
  defines "q \<equiv> init_pmm info ba ks ke p0" and "n \<equiv> boot_total_pages info"
  shows "pmm_inv 1 q \<and> total_pages q = n
    \<and> pmm_used q = {..<min 256 n} \<union> set (region_pages ba (ba + of_nat ((n + 31) div 32 * 4)) n)
         \<union> set (region_pages ks (max ks ke) n)"
proof -
  define p1 where "p1 = boot_all_used info p0"
  define p2 where "p2 = foldl release_page p1 [256..<n]"
  define p3 where "p3 = take_page p2 0"
  define A where "A = region_pages ba (ba + of_nat ((n + 31) div 32 * 4)) n"
  define B where "B = region_pages ks (max ks ke) n"
  define p4 where "p4 = foldl reserve_page p3 A"
  have regions: "set A \<subseteq> {..<n}" "set B \<subseteq> {..<n}"
    by (auto simp: A_def B_def region_pages_def)
  have q: "q = foldl reserve_page p4 B"
    unfolding q_def init_pmm_steps Let_def p4_def p3_def p2_def p1_def A_def B_def n_def ..
  have p1: "pmm_inv 0 p1" "pmm_used p1 = {..<n}" "total_pages p1 = n"
    using boot_all_used_inv [of info p0] by (simp_all add: p1_def n_def)
  have "set [256..<n] \<subseteq> {..<total_pages p1}" using p1(3) by auto
  from foldl_release_pages [OF p1(1) this]
  have p2: "pmm_inv 0 p2" "pmm_used p2 = {..<n} - {256..<n}" "total_pages p2 = n"
    unfolding p2_def using p1 by (simp_all only: set_upt)
  have u2: "{..<n} - {256..<n} = {..<min 256 n}" by auto
  have "0 \<in> pmm_used p2 \<or> total_pages p2 = 0" unfolding p2 u2 by auto
  with take_used_page_inv [OF p2(1)]
  have p3: "pmm_inv 1 p3" "pmm_used p3 = {..<min 256 n}" "total_pages p3 = n"
    unfolding p3_def by (simp_all add: p2 u2)
  from foldl_reserve_pages [OF p3(1), of A] regions
  have p4: "pmm_inv 1 p4" "pmm_used p4 = {..<min 256 n} \<union> set A" "total_pages p4 = n"
    unfolding p4_def by (simp_all only: p3)
  from foldl_reserve_pages [OF p4(1), of B] regions show ?thesis
    unfolding q A_def [symmetric] B_def [symmetric] by (simp only: p4 simp_thms)
qed

subsection \<open>Properties\<close>

text \<open>C11: \<open>pmm_alloc_page\<close> is a first-fit allocator. When every page is used it returns NULL
  and changes nothing; otherwise it returns the page-aligned address of the lowest free page, marks
  exactly that page used and keeps the bitmap shape and the counter skew.\<close>

theorem pmm_alloc_page_first_fit:
  assumes "pmm_inv k p" and "pmm_alloc_page p = (a, q)"
  shows "if pmm_used p = {..<total_pages p} then a = 0 \<and> q = p
    else \<exists>i < total_pages p. i \<notin> pmm_used p \<and> (\<forall>j<i. j \<in> pmm_used p)
      \<and> unat a = i * PAGE_SIZE \<and> pmm_used q = insert i (pmm_used p) \<and> pmm_inv k q"
  by (rule pmm_alloc_page_cases [OF pmm_inv_shape [OF assms(1)] assms(2)])
     (use assms(1) in \<open>auto simp: pmm_inv_take\<close>)

definition sample_pmm :: pmm where
  "sample_pmm = \<lparr>bitmap = (\<lambda>_. 5), total_pages = 5, used_pages = 2, bitmap_size = 1\<rparr>"

lemma pmm_used_code: "pmm_used p = set (filter (bitmap_test p) [0..<total_pages p])"
  by (auto simp: pmm_used_def)

lemma sample_pmm_used: "pmm_used sample_pmm = {0, 2}"
  unfolding pmm_used_code by code_simp

lemma sample_pmm_inv: "pmm_inv 0 sample_pmm"
  by (simp add: pmm_inv_def sample_pmm_used) (simp add: sample_pmm_def pmm_shape_def PMM_MAX_PAGES_def)

lemma sample_pmm_total: "total_pages sample_pmm = 5"
  by (simp add: sample_pmm_def)

theorem pmm_alloc_page_first_fit_witness:
  "pmm_inv 0 sample_pmm \<and> (\<exists>a q. pmm_alloc_page sample_pmm = (a, q) \<and> unat a = 4096 \<and> pmm_used q = {0, 1, 2})"
proof -
  obtain a q where aq: "pmm_alloc_page sample_pmm = (a, q)" by fastforce
  have "(1::nat) \<in> {..<5} - {0, 2}" by simp
  then have "pmm_used sample_pmm \<noteq> {..<total_pages sample_pmm}"
    unfolding sample_pmm_used sample_pmm_total by blast
  with pmm_alloc_page_first_fit [OF sample_pmm_inv aq] obtain i
    where i: "i \<notin> pmm_used sample_pmm" "\<forall>j<i. j \<in> pmm_used sample_pmm"
      "unat a = i * PAGE_SIZE" "pmm_used q = insert i (pmm_used sample_pmm)"
    by auto
  have "i = 1"
  proof (rule ccontr)
    assume "i \<noteq> 1"
    with i(1) have "1 < i" by (cases i) (auto simp: sample_pmm_used)
    with i(2) have "1 \<in> pmm_used sample_pmm" by blast
    then show False by (simp add: sample_pmm_used)
  qed
  with i aq sample_pmm_inv show ?thesis by (auto simp: sample_pmm_used PAGE_SIZE_def)
qed

text \<open>\<open>pmm_alloc_pages\<close> finds the first run of \<open>count\<close> free pages if there is one, marks
  exactly that run used and returns its address; if there is none it returns NULL and changes
  nothing.\<close>

theorem pmm_alloc_pages_first_fit:
  assumes "pmm_inv k p" and "1 < count" and "pmm_alloc_pages p count = (a, q)"
  shows "if \<exists>s. s + unat count \<le> total_pages p \<and> run_free p s (unat count)
    then \<exists>s. s + unat count \<le> total_pages p \<and> run_free p s (unat count)
           \<and> (\<forall>s'. s' < s \<longrightarrow> \<not> run_free p s' (unat count))
           \<and> unat a = s * PAGE_SIZE \<and> pmm_used q = pmm_used p \<union> {s..<s + unat count} \<and> pmm_inv k q
    else a = 0 \<and> q = p"
proof -
  have n: "0 < unat count" "count \<noteq> 0" "count \<noteq> 1" using assms(2) by (auto simp: unat_gt_0)
  note scan = scan_run_top [OF n(1), of p]
  show ?thesis
  proof (cases "alloc_scan_run p (unat count) [0..<total_pages p] 0 0")
    case None
    with scan n assms(3) show ?thesis by (auto simp: pmm_alloc_pages_def)
  next
    case (Some s)
    with scan have s: "s + unat count \<le> total_pages p" "run_free p s (unat count)"
      "\<forall>s'. s' < s \<longrightarrow> \<not> run_free p s' (unat count)" by auto
    have aq: "a = of_nat (s * PAGE_SIZE)" "q = foldl take_page p [s..<s + unat count]"
      using Some n assms(3) by (auto simp: pmm_alloc_pages_def)
    have "unat a = s * PAGE_SIZE"
      unfolding aq using s(1) n(1)
      by (intro unat_page_addr page_lt_max [OF pmm_inv_shape [OF assms(1)]]) simp
    with s aq foldl_take_pages [OF assms(1) s(1,2)] show ?thesis by auto
  qed
qed

theorem pmm_alloc_pages_first_fit_witness:
  "pmm_inv 0 sample_pmm \<and> (1 :: u32) < 2
   \<and> (\<exists>a q s. pmm_alloc_pages sample_pmm 2 = (a, q) \<and> s + 2 \<le> 5 \<and> unat a = s * PAGE_SIZE
        \<and> pmm_used q = {0, 2} \<union> {s..<s + 2})"
proof -
  obtain a q where aq: "pmm_alloc_pages sample_pmm 2 = (a, q)" by fastforce
  have lt: "(1 :: u32) < 2" by simp
  have "3 + unat (2 :: u32) \<le> total_pages sample_pmm \<and> run_free sample_pmm 3 (unat (2 :: u32))"
    by (simp add: run_free_def sample_pmm_used sample_pmm_total)
  with pmm_alloc_pages_first_fit [OF sample_pmm_inv lt aq] obtain s
    where "s + unat (2 :: u32) \<le> total_pages sample_pmm" "unat a = s * PAGE_SIZE"
      "pmm_used q = pmm_used sample_pmm \<union> {s..<s + unat (2 :: u32)}"
    by meson
  then show ?thesis using sample_pmm_inv aq
    by (auto simp: sample_pmm_used sample_pmm_total intro!: exI [of _ s])
qed

text \<open>from boot on, whatever sequence of allocation and release calls follows, the counter
  \<open>used_pages\<close> is exactly one more than the number of pages marked used: \<open>init_pmm\<close> counts page 0
  a second time, and every later call keeps the difference.\<close>

theorem pmm_used_counter_skew:
  "pmm_get_used_pages (run_calls pmm_exec (init_pmm info ba ks ke p0) cs)
   = of_nat (card (pmm_used (run_calls pmm_exec (init_pmm info ba ks ke p0) cs))) + 1"
proof -
  have "pmm_inv 1 (init_pmm info ba ks ke p0)" using init_pmm_spec by blast
  then have "pmm_inv 1 (run_calls pmm_exec (init_pmm info ba ks ke p0) cs)"
    by (rule pmm_calls.run_keeps) (simp add: list_all_iff)
  then show ?thesis by (simp add: pmm_inv_def pmm_get_used_pages_def)
qed

text \<open>after \<open>init_pmm\<close> the used pages are exactly the first megabyte, the pages that hold the
  bitmap and the pages of the kernel image (clipped to the installed memory); every other page is
  free.\<close>

theorem init_pmm_reserves:
  "pmm_used (init_pmm info ba ks ke p0) =
     {i. i < boot_total_pages info \<and>
        (i < 256
         \<or> unat ba div PAGE_SIZE \<le> i
             \<and> i < unat (ba + of_nat ((boot_total_pages info + 31) div 32 * 4) + 4096 - 1) div PAGE_SIZE
         \<or> unat ks div PAGE_SIZE \<le> i \<and> i < unat (max ks ke + 4096 - 1) div PAGE_SIZE)}"
proof -
  have regions: "{..<min 256 n} \<union> {a..<min b n} \<union> {c..<min d n}
      = {i. i < n \<and> (i < 256 \<or> a \<le> i \<and> i < b \<or> c \<le> i \<and> i < d)}" for a b c d n :: nat
    by auto
  show ?thesis
    using init_pmm_spec [of info ba ks ke p0] unfolding region_pages_def set_upt regions by blast
qed

text \<open>\<open>n\<close> allocations in a row, from any state in which page 0 is reserved, return pairwise
  distinct pages that were all free before, and they fail only when no page is left.\<close>

theorem pmm_alloc_distinct:
  assumes "pmm_ready p" and "alloc_many pmm_alloc_index n p = (is, q)"
  shows "distinct is \<and> set is \<inter> pmm_used p = {} \<and> pmm_used q = pmm_used p \<union> set is
    \<and> length is = min n (total_pages p - card (pmm_used p))"
  using pages.alloc_many_spec [OF assms] by simp

theorem pmm_alloc_distinct_witness:
  "pmm_ready sample_pmm \<and> (\<exists>is q. alloc_many pmm_alloc_index 7 sample_pmm = (is, q) \<and> length is = 3)"
proof -
  have ready: "pmm_ready sample_pmm"
    using sample_pmm_inv by (simp add: pmm_ready_def pmm_inv_def sample_pmm_used)
  obtain "is" q where q: "alloc_many pmm_alloc_index 7 sample_pmm = (is, q)" by fastforce
  show ?thesis
    using ready q pmm_alloc_distinct [OF ready q] by (auto simp: sample_pmm_used sample_pmm_total)
qed

text \<open>releasing the page that was just allocated restores the set of used pages.\<close>

theorem pmm_alloc_free_roundtrip:
  assumes "pmm_ready p" and "pmm_alloc_page p = (a, q)" and "a \<noteq> 0"
  shows "pmm_used (pmm_free_page q a) = pmm_used p"
proof -
  have shape: "pmm_shape p" using assms(1) by (simp add: pmm_ready_def)
  show ?thesis
  proof (rule pmm_alloc_page_cases [OF shape assms(2)])
    assume "a = 0"
    with assms(3) show ?thesis by simp
  next
    fix i assume i: "i < total_pages p" "i \<notin> pmm_used p" "unat a = i * PAGE_SIZE" "q = take_page p i"
    then have a: "a = of_nat (i * PAGE_SIZE)" by (metis of_nat_unat ucast_id)
    have "pmm_alloc_index p = (Some i, q)"
      using assms i by (simp add: pmm_alloc_index_def PAGE_SIZE_def)
    from pages.alloc_free_restores [OF assms(1) this] show ?thesis by (simp only: a)
  qed
qed

theorem pmm_alloc_free_roundtrip_witness:
  "\<exists>a q. pmm_ready sample_pmm \<and> pmm_alloc_page sample_pmm = (a, q) \<and> a \<noteq> 0
     \<and> pmm_used (pmm_free_page q a) = {0, 2}"
proof -
  have ready: "pmm_ready sample_pmm"
    using sample_pmm_inv by (simp add: pmm_ready_def pmm_inv_def sample_pmm_used)
  obtain a q where aq: "pmm_alloc_page sample_pmm = (a, q)" by fastforce
  have "fst (pmm_alloc_page sample_pmm) \<noteq> 0" by code_simp
  with aq have "a \<noteq> 0" by simp
  with pmm_alloc_free_roundtrip [OF ready aq] ready aq show ?thesis by (auto simp: sample_pmm_used)
qed

end
