(* ===== verification/Vmm.thy ===== *)
theory Vmm
  imports Pmm
begin

text \<open>
  The virtual memory manager, \<open>kernel/vmm.c\<close>: two-level page tables, address spaces, copy on
  write and the page fault handler. Physical memory is seen page-wise, as a map from the address of
  a frame to its 1024 words; every directory and table pointer of the code is page aligned. The
  kernel reaches a frame through its physical address or through the alias at
  \<open>KERNEL_BASE\<close>; \<open>kphys\<close> undoes the alias. \<open>None\<close> is \<open>KERNEL_PANIC\<close>.
\<close>

subsection \<open>State\<close>

abbreviation "PTE_PRESENT \<equiv> 0x001 :: u32"
abbreviation "PTE_WRITABLE \<equiv> 0x002 :: u32"
abbreviation "PTE_USER \<equiv> 0x004 :: u32"
abbreviation "PTE_COW \<equiv> 0x200 :: u32"
abbreviation "KERNEL_BASE \<equiv> 0xC0000000 :: u32"
abbreviation "PAGE_MASK \<equiv> 0xFFFFF000 :: u32"

record vmm =
  frames :: "u32 \<Rightarrow> nat \<Rightarrow> u32"
  kernel_page_directory :: u32
  current_page_directory :: u32
  vpmm :: pmm
  next_virt :: u32
  heap_virt :: u32
  tick_count :: u64
  cr3 :: u32
  paging :: bool

definition kphys :: "u32 \<Rightarrow> u32" where
  "kphys a = (if a \<ge> KERNEL_BASE then a - KERNEL_BASE else a)"

definition entry :: "vmm \<Rightarrow> u32 \<Rightarrow> nat \<Rightarrow> u32" where
  "entry s t i = frames s (kphys t) i"

definition set_entry :: "vmm \<Rightarrow> u32 \<Rightarrow> nat \<Rightarrow> u32 \<Rightarrow> vmm" where
  "set_entry s t i v = s\<lparr>frames := (frames s)(kphys t := (frames s (kphys t))(i := v))\<rparr>"

definition zero_page :: "vmm \<Rightarrow> u32 \<Rightarrow> vmm" where
  "zero_page s t =
     s\<lparr>frames := (frames s)(kphys t := (\<lambda>i. if i < 1024 then 0 else frames s (kphys t) i))\<rparr>"

definition pde_index :: "u32 \<Rightarrow> nat" where
  "pde_index virt = unat (drop_bit 22 virt)"

definition pte_index :: "u32 \<Rightarrow> nat" where
  "pte_index virt = unat (drop_bit 12 virt AND 0x3FF)"

subsection \<open>Page tables\<close>

definition get_page_table :: "vmm \<Rightarrow> u32 \<Rightarrow> u32 \<Rightarrow> u32" where
  "get_page_table s dir virt =
     (let pde = entry s dir (pde_index virt) in
      if pde AND PTE_PRESENT = 0 then 0 else pde AND PAGE_MASK)"

definition create_page_table :: "vmm \<Rightarrow> u32 \<Rightarrow> u32 \<Rightarrow> u32 \<Rightarrow> u32 \<times> vmm" where
  "create_page_table s dir virt flags =
     (let i = pde_index virt in
      if entry s dir i AND PTE_PRESENT \<noteq> 0 then (entry s dir i AND PAGE_MASK, s)
      else let (phys, q) = pmm_alloc_page (vpmm s); s1 = s\<lparr>vpmm := q\<rparr> in
           if phys = 0 then (0, s1)
           else (phys, set_entry (zero_page s1 phys) dir i
                         (phys OR (flags AND 0xFFF) OR PTE_PRESENT OR PTE_WRITABLE)))"

definition vmm_map_page :: "vmm \<Rightarrow> u32 \<Rightarrow> u32 \<Rightarrow> u32 \<Rightarrow> u32 \<Rightarrow> vmm option" where
  "vmm_map_page s dir virt phys flags =
     (let t0 = get_page_table s dir virt;
          (table, s1) = (if t0 = 0 then create_page_table s dir virt flags else (t0, s))
      in if table = 0 then None
         else Some (set_entry s1 table (pte_index virt)
                      ((phys AND PAGE_MASK) OR (flags AND 0xFFF) OR PTE_PRESENT)))"

definition vmm_unmap_page :: "vmm \<Rightarrow> u32 \<Rightarrow> u32 \<Rightarrow> vmm" where
  "vmm_unmap_page s dir virt =
     (let table = get_page_table s dir virt in
      if table = 0 then s
      else let pte = entry s table (pte_index virt) in
           if pte AND PTE_PRESENT \<noteq> 0
           then let s1 = set_entry s table (pte_index virt) 0 in
                if pte AND PTE_COW = 0
                then s1\<lparr>vpmm := pmm_free_page (vpmm s1) (pte AND PAGE_MASK)\<rparr> else s1
           else s)"

definition vmm_get_physical :: "vmm \<Rightarrow> u32 \<Rightarrow> u32 \<Rightarrow> u32" where
  "vmm_get_physical s dir virt =
     (let table = get_page_table s dir virt in
      if table = 0 then 0
      else let pte = entry s table (pte_index virt) in
           if pte AND PTE_PRESENT = 0 then 0
           else (pte AND PAGE_MASK) OR (virt AND 0xFFF))"

subsection \<open>Address spaces\<close>

definition vmm_create_address_space :: "vmm \<Rightarrow> u32 \<times> vmm" where
  "vmm_create_address_space s =
     (let (dir_phys, q) = pmm_alloc_page (vpmm s); s1 = s\<lparr>vpmm := q\<rparr> in
      if dir_phys = 0 then (0, s1)
      else (dir_phys,
            foldl (\<lambda>t i. set_entry t dir_phys i
                     (if entry t (kernel_page_directory t) i AND PTE_PRESENT \<noteq> 0
                      then if i \<ge> pde_index KERNEL_BASE then entry t (kernel_page_directory t) i else 0
                      else 0))
              s1 [0..<1024]))"

text \<open>Freeing one page table of a dying address space, then the whole user half.\<close>

definition destroy_entry :: "u32 \<Rightarrow> vmm \<Rightarrow> nat \<Rightarrow> vmm" where
  "destroy_entry table t j =
     (if entry t table j AND PTE_PRESENT \<noteq> 0
      then t\<lparr>vpmm := pmm_free_page (vpmm t) (entry t table j AND PAGE_MASK)\<rparr> else t)"

definition destroy_table :: "vmm \<Rightarrow> u32 \<Rightarrow> vmm" where
  "destroy_table s table = foldl (destroy_entry table) s [0..<1024]"

definition vmm_destroy_address_space :: "vmm \<Rightarrow> u32 \<Rightarrow> vmm" where
  "vmm_destroy_address_space s dir =
     (let s1 = foldl (\<lambda>t i.
                 if entry t dir i AND PTE_PRESENT \<noteq> 0
                 then let table = entry t dir i AND PAGE_MASK;
                          t1 = destroy_table t table;
                          t2 = t1\<lparr>vpmm := pmm_free_page (vpmm t1) table\<rparr>
                      in set_entry t2 dir i 0
                 else t) s [0..<pde_index KERNEL_BASE]
      in s1\<lparr>vpmm := pmm_free_page (vpmm s1) dir\<rparr>)"

text \<open>
  Cloning one page table: every present page becomes read-only and copy-on-write in both address
  spaces.
\<close>

definition cow_entry :: "u32 \<Rightarrow> u32" where
  "cow_entry e = (e AND PAGE_MASK) OR ((e AND 0xFFF) AND NOT PTE_WRITABLE OR PTE_COW)"

definition clone_entry :: "u32 \<Rightarrow> u32 \<Rightarrow> vmm \<Rightarrow> nat \<Rightarrow> vmm" where
  "clone_entry src_table dst_table t j =
     (if entry t src_table j AND PTE_PRESENT \<noteq> 0
      then let e = cow_entry (entry t src_table j)
           in set_entry (set_entry t dst_table j e) src_table j e
      else set_entry t dst_table j 0)"

definition clone_table :: "vmm \<Rightarrow> u32 \<Rightarrow> u32 \<Rightarrow> vmm" where
  "clone_table s src_table dst_table = foldl (clone_entry src_table dst_table) s [0..<1024]"

definition clone_slot :: "u32 \<Rightarrow> u32 \<Rightarrow> vmm \<Rightarrow> nat \<Rightarrow> vmm option" where
  "clone_slot dst src s i =
     (if i \<ge> pde_index KERNEL_BASE then Some (set_entry s dst i (entry s src i))
      else if entry s src i AND PTE_PRESENT \<noteq> 0
      then let (dst_table, q) = pmm_alloc_page (vpmm s); s1 = s\<lparr>vpmm := q\<rparr> in
           if dst_table = 0 then None
           else let s2 = clone_table s1 (entry s src i AND PAGE_MASK) dst_table
                in Some (set_entry s2 dst i (dst_table OR (entry s2 src i AND 0xFFF)))
      else Some s)"

text \<open>\<open>None\<close> is the error return -1 of \<open>vmm_clone_address_space\<close>.\<close>

definition vmm_clone_address_space :: "vmm \<Rightarrow> u32 \<Rightarrow> u32 \<Rightarrow> vmm option" where
  "vmm_clone_address_space s dst src = fold_opt (clone_slot dst src) s [0..<1024]"

subsection \<open>Mappings of physical ranges and page allocation\<close>

definition page_count :: "u32 \<Rightarrow> nat" where
  "page_count sz = (unat sz + 4095) div 4096"

text \<open>
  The loops \<open>for (offset = 0; offset < size; offset += PAGE_SIZE)\<close>. Above \<open>0xFFFFF000\<close> the 32-bit
  offset wraps before it reaches \<open>size\<close> and the loop does not end; \<open>None\<close> covers that case too.
\<close>

definition vmm_map_physical :: "vmm \<Rightarrow> u32 \<Rightarrow> u32 \<Rightarrow> (u32 \<times> vmm) option" where
  "vmm_map_physical s phys sz =
     (let start = next_virt s in
      if sz > 0xFFFFF000 then None
      else map_option (Pair start)
             (fold_opt (\<lambda>t k. map_option (\<lambda>u. u\<lparr>next_virt := next_virt t + 4096\<rparr>)
                (vmm_map_page t (kernel_page_directory t) (next_virt t) (phys + of_nat (k * 4096))
                   (PTE_PRESENT OR PTE_WRITABLE)))
              s [0..<page_count sz]))"

definition vmm_unmap_physical :: "vmm \<Rightarrow> u32 \<Rightarrow> u32 \<Rightarrow> vmm option" where
  "vmm_unmap_physical s virt sz =
     (if sz > 0xFFFFF000 then None
      else Some (foldl (\<lambda>t k. vmm_unmap_page t (kernel_page_directory t) (virt + of_nat (k * 4096)))
                   s [0..<page_count sz]))"

definition vmm_free_pages :: "vmm \<Rightarrow> u32 \<Rightarrow> u32 \<Rightarrow> vmm" where
  "vmm_free_pages s addr count =
     foldl (\<lambda>t k. vmm_unmap_page t (kernel_page_directory t) (addr + of_nat k * 4096)) s [0..<unat count]"

text \<open>
  \<open>evict\<close> is \<open>page_replace_evict\<close> of the page replacement component: its return value and the
  state it leaves. The second component of an allocation attempt is the frame, 0 when there is none.
\<close>

type_synonym evictor = "vmm \<Rightarrow> int \<times> vmm"

definition alloc_or_evict :: "evictor \<Rightarrow> vmm \<Rightarrow> u32 \<times> vmm" where
  "alloc_or_evict evict s =
     (let (phys, q) = pmm_alloc_page (vpmm s); s1 = s\<lparr>vpmm := q\<rparr> in
      if phys \<noteq> 0 then (phys, s1)
      else let (r, s2) = evict s1 in
           if r = 0 then let (phys', q') = pmm_alloc_page (vpmm s2) in (phys', s2\<lparr>vpmm := q'\<rparr>)
           else (0, s2))"

fun alloc_pages_loop :: "evictor \<Rightarrow> u32 \<Rightarrow> u32 \<Rightarrow> vmm \<Rightarrow> nat list \<Rightarrow> (u32 \<times> vmm) option" where
  "alloc_pages_loop evict flags start s [] = Some (start, s)"
| "alloc_pages_loop evict flags start s (i # is) =
     (let (phys, s1) = alloc_or_evict evict s in
      if phys = 0
      then Some (0, foldl (\<lambda>t j. vmm_unmap_page t (kernel_page_directory t) (start + of_nat j * 4096))
                      s1 [0..<i])
      else case vmm_map_page s1 (kernel_page_directory s1) (heap_virt s1) phys
                  (flags OR PTE_PRESENT OR PTE_WRITABLE) of
             None \<Rightarrow> None
           | Some s2 \<Rightarrow>
               alloc_pages_loop evict flags start (s2\<lparr>heap_virt := heap_virt s2 + 4096\<rparr>) is)"

definition vmm_alloc_pages :: "evictor \<Rightarrow> vmm \<Rightarrow> u32 \<Rightarrow> u32 \<Rightarrow> (u32 \<times> vmm) option" where
  "vmm_alloc_pages evict s count flags =
     alloc_pages_loop evict flags (heap_virt s) s [0..<unat count]"

subsection \<open>Page faults\<close>

definition fault_flags :: "u32 \<Rightarrow> u32" where
  "fault_flags addr = PTE_PRESENT OR PTE_WRITABLE OR (if addr < KERNEL_BASE then PTE_USER else 0)"

text \<open>The copy of a copy-on-write page; the result is the return value and the new state.\<close>

definition vmm_copy_page_fault_cow :: "vmm \<Rightarrow> u32 \<Rightarrow> u32 \<Rightarrow> (int \<times> vmm) option" where
  "vmm_copy_page_fault_cow s dir addr =
     (let a = addr AND NOT 0xFFF;
          phys_old = vmm_get_physical s dir a AND PAGE_MASK;
          (phys_new, q) = pmm_alloc_page (vpmm s); s1 = s\<lparr>vpmm := q\<rparr>
      in if phys_new = 0 then Some (-1, s1)
         else let s2 = s1\<lparr>frames := (frames s1)
                              (kphys (phys_new + KERNEL_BASE) := frames s1 (kphys (phys_old + KERNEL_BASE)))\<rparr>;
                  s3 = vmm_unmap_page s2 dir a
              in map_option (Pair 0) (vmm_map_page s3 dir a phys_new (fault_flags a)))"

text \<open>
  The page fault handler. \<open>pid\<close> is the current process, if any; \<open>mmap_fault\<close> and \<open>access\<close> are
  \<open>mmap_handle_page_fault\<close> and \<open>page_replace_access\<close>.
\<close>

type_synonym fault_hook = "vmm \<Rightarrow> u32 \<Rightarrow> u32 \<Rightarrow> vmm"

definition vmm_handle_page_fault ::
    "fault_hook \<Rightarrow> fault_hook \<Rightarrow> evictor \<Rightarrow> vmm \<Rightarrow> u32 option \<Rightarrow> u32 \<Rightarrow> u32 \<Rightarrow> (int \<times> vmm) option" where
  "vmm_handle_page_fault mmap_fault access evict s pid error_code fault_addr =
     (let not_present = error_code AND 1 = 0;
          s1 = (case pid of Some p \<Rightarrow> if not_present then mmap_fault s fault_addr p else s | None \<Rightarrow> s)
      in if not_present \<and> pid \<noteq> None
            \<and> vmm_get_physical s1 (current_page_directory s1) fault_addr \<noteq> 0
         then Some (0, s1)
         else if \<not> not_present
         then (if error_code AND 2 \<noteq> 0
                  \<and> vmm_get_physical s1 (current_page_directory s1) fault_addr AND PTE_COW \<noteq> 0
               then vmm_copy_page_fault_cow s1 (current_page_directory s1) fault_addr
               else Some (-1, s1))
         else
           (let s2 = (case pid of Some p \<Rightarrow> access s1 (fault_addr AND NOT 0xFFF) p | None \<Rightarrow> s1)
            in if pid \<noteq> None \<and> vmm_get_physical s2 (current_page_directory s2) fault_addr \<noteq> 0
               then Some (0, s2)
               else let (phys, s3) = alloc_or_evict evict s2 in
                    if phys = 0 then Some (-1, s3)
                    else map_option (Pair 0)
                           (vmm_map_page s3 (current_page_directory s3) fault_addr phys
                              (fault_flags fault_addr))))"

subsection \<open>Initialisation and the rest\<close>

definition vmm_set_current_dir :: "vmm \<Rightarrow> u32 \<Rightarrow> vmm" where
  "vmm_set_current_dir s dir = s\<lparr>current_page_directory := dir, cr3 := dir\<rparr>"

definition vmm_get_current_dir :: "vmm \<Rightarrow> u32" where
  "vmm_get_current_dir s = current_page_directory s"

definition vmm_swap_out :: "vmm \<Rightarrow> vmm" where
  "vmm_swap_out s = s\<lparr>tick_count := tick_count s + 1\<rparr>"

definition init_map_both :: "vmm \<Rightarrow> nat \<Rightarrow> vmm option" where
  "init_map_both s k =
     (let phys = of_nat (k * 4096) in
      case vmm_map_page s (kernel_page_directory s) phys phys (PTE_PRESENT OR PTE_WRITABLE) of
        None \<Rightarrow> None
      | Some t \<Rightarrow> vmm_map_page t (kernel_page_directory t) (KERNEL_BASE + phys) phys
                    (PTE_PRESENT OR PTE_WRITABLE))"

text \<open>128 MB are mapped twice, at their physical address and at the alias.\<close>

definition init_vmm :: "vmm \<Rightarrow> vmm option" where
  "init_vmm s =
     (let (dir_phys, q) = pmm_alloc_page (vpmm s) in
      if dir_phys = 0 then None
      else let s1 = zero_page (s\<lparr>vpmm := q, kernel_page_directory := dir_phys,
                                current_page_directory := dir_phys\<rparr>) dir_phys
           in map_option (\<lambda>t. t\<lparr>cr3 := kernel_page_directory t, paging := True,
                               kernel_page_directory := kernel_page_directory t + KERNEL_BASE,
                               current_page_directory := kernel_page_directory t + KERNEL_BASE\<rparr>)
                (fold_opt init_map_both s1 [0..<32768]))"

text \<open>
  The counters of a page frame descriptor. \<open>vmm_alloc_frame\<close> never returns a descriptor, and releasing one
  does nothing.
\<close>

record page_frame =
  phys_addr :: u32
  frame_refs :: u32
  frame_flags :: u32
  last_access :: u64

definition vmm_alloc_frame :: "vmm \<Rightarrow> page_frame option" where
  "vmm_alloc_frame s = None"

definition vmm_free_frame :: "page_frame option \<Rightarrow> page_frame option" where
  "vmm_free_frame f = f"

definition vmm_page_ref_inc :: "page_frame option \<Rightarrow> page_frame option" where
  "vmm_page_ref_inc = map_option (\<lambda>f. f\<lparr>frame_refs := frame_refs f + 1\<rparr>)"

definition vmm_page_ref_dec :: "page_frame option \<Rightarrow> page_frame option" where
  "vmm_page_ref_dec f =
     (case f of
        None \<Rightarrow> None
      | Some g \<Rightarrow> if frame_refs g > 0
                  then (let g' = g\<lparr>frame_refs := frame_refs g - 1\<rparr> in
                        if frame_refs g' = 0 then vmm_free_frame (Some g') else Some g')
                  else f)"

subsection \<open>Bits of page table entries\<close>

lemma page_mask_eq: "PAGE_MASK = NOT (mask 12)"
  by (simp add: mask_eq_exp_minus_1)

lemma low_mask_eq: "(0xFFF :: u32) = mask 12"
  by (simp add: mask_eq_exp_minus_1)

lemma bit_page_mask [bit_rules]: "bit PAGE_MASK n \<longleftrightarrow> 12 \<le> n \<and> n < 32"
  unfolding page_mask_eq by (auto simp: bit_simps)

lemma bit_low_mask [bit_rules]: "bit (0xFFF :: u32) n \<longleftrightarrow> n < 12"
  unfolding low_mask_eq by (auto simp: bit_simps)

lemma present_bit: "(e :: u32) AND PTE_PRESENT = 0 \<longleftrightarrow> \<not> bit e 0"
  using test_bit_mask [of 0 e] by simp

lemma entry_present: "(x OR PTE_PRESENT) AND PTE_PRESENT \<noteq> 0"
  by (simp add: present_bit bit_simps)

lemma bit_flag_masks [bit_rules]:
  "bit (1 :: u32) n \<longleftrightarrow> n = 0" "bit (2 :: u32) n \<longleftrightarrow> n = 1" "bit (4 :: u32) n \<longleftrightarrow> n = 2"
  "bit (0x200 :: u32) n \<longleftrightarrow> n = 9"
  using bit_exp_iff [where ?'a = "32 word", of 1 n] bit_exp_iff [where ?'a = "32 word", of 2 n]
    bit_exp_iff [where ?'a = "32 word", of 9 n]
  by (auto simp: bit_1_iff possible_bit_def)

lemmas pte_bits = bit_and_iff bit_or_iff bit_page_mask bit_low_mask bit_flag_masks

lemma entry_frame: "((p AND PAGE_MASK) OR (f AND 0xFFF) OR PTE_PRESENT) AND PAGE_MASK = p AND PAGE_MASK"
  by (intro bit_word_eqI) (simp only: pte_bits, auto)

lemma pde_frame:
  assumes "p AND PAGE_MASK = p"
  shows "(p OR (f AND 0xFFF) OR PTE_PRESENT OR PTE_WRITABLE) AND PAGE_MASK = p"
proof (intro bit_word_eqI)
  fix n assume n: "n < LENGTH(32)"
  have "bit p n \<longleftrightarrow> bit (p AND PAGE_MASK) n" using assms by simp
  also have "\<dots> \<longleftrightarrow> bit p n \<and> 12 \<le> n \<and> n < 32" by (simp only: pte_bits)
  finally show "bit ((p OR (f AND 0xFFF) OR PTE_PRESENT OR PTE_WRITABLE) AND PAGE_MASK) n = bit p n"
    by (simp only: pte_bits) auto
qed

lemma pde_present: "(p OR f OR PTE_PRESENT OR PTE_WRITABLE) AND PTE_PRESENT \<noteq> 0"
  by (simp add: present_bit bit_simps)

lemma low_index_take_bit: "x AND 0x3FF = take_bit 10 (x :: u32)"
proof -
  have "(0x3FF :: u32) = mask 10" by (simp add: mask_eq_exp_minus_1)
  then show ?thesis by (simp only: take_bit_eq_mask)
qed

lemma same_page_iff:
  "pde_index a = pde_index b \<and> pte_index a = pte_index b \<longleftrightarrow> drop_bit 12 a = drop_bit 12 b"
proof -
  have hi: "drop_bit 22 x = drop_bit 10 (drop_bit 12 x)" for x :: u32 by simp
  have split: "x = y" if "drop_bit 10 x = drop_bit 10 y" "take_bit 10 x = take_bit 10 y" for x y :: u32
    using that by (metis bits_ident)
  have u: "unat x = unat y \<longleftrightarrow> x = y" for x y :: u32 by (simp add: word_unat_eq_iff)
  show ?thesis
    unfolding pde_index_def pte_index_def low_index_take_bit hi u using split by metis
qed

lemma pde_index_less: "pde_index a < 1024"
proof -
  have "pde_index a = drop_bit 22 (unat a)"
    by (simp only: pde_index_def unat_drop_bit_eq)
  then show ?thesis using unat_u32_less [of a] by (simp add: drop_bit_eq_div)
qed

lemma pte_index_less: "pte_index a < 1024"
proof -
  have "pte_index a = take_bit 10 (unat (drop_bit 12 a))"
    unfolding pte_index_def low_index_take_bit by (rule unsigned_take_bit_eq)
  then show ?thesis by (simp add: take_bit_eq_mod)
qed

lemma page_aligned:
  assumes "unat (a :: u32) = i * PAGE_SIZE"
  shows "a AND PAGE_MASK = a"
proof -
  have "a = of_nat (i * PAGE_SIZE)" using assms by (metis of_nat_unat ucast_id)
  then have "a = push_bit 12 (of_nat i)" by (simp add: PAGE_SIZE_def push_bit_eq_mult)
  then have "bit a n \<longrightarrow> 12 \<le> n" for n by (simp add: bit_simps)
  then show ?thesis by (intro bit_word_eqI) (simp only: pte_bits, auto)
qed

subsection \<open>Well-formed address spaces\<close>

text \<open>
  A frame the page tables may live in: aligned, below the kernel alias, not frame 0, and marked used
  in the physical allocator.
\<close>

definition owned :: "pmm \<Rightarrow> u32 \<Rightarrow> bool" where
  "owned p a \<longleftrightarrow> a AND PAGE_MASK = a \<and> a < KERNEL_BASE \<and> a \<noteq> 0 \<and> unat a div PAGE_SIZE \<in> pmm_used p"

definition present :: "vmm \<Rightarrow> u32 \<Rightarrow> nat \<Rightarrow> bool" where
  "present s dir i \<longleftrightarrow> entry s dir i AND PTE_PRESENT \<noteq> 0"

definition table_of :: "vmm \<Rightarrow> u32 \<Rightarrow> nat \<Rightarrow> u32" where
  "table_of s dir i = entry s dir i AND PAGE_MASK"

definition mem_ok :: "pmm \<Rightarrow> bool" where
  "mem_ok p \<longleftrightarrow> pmm_ready p \<and> 0 < total_pages p \<and> total_pages p * PAGE_SIZE \<le> unat KERNEL_BASE"

definition dir_wf :: "vmm \<Rightarrow> u32 \<Rightarrow> bool" where
  "dir_wf s dir \<longleftrightarrow> mem_ok (vpmm s) \<and> owned (vpmm s) (kphys dir)
     \<and> (\<forall>i < 1024. present s dir i \<longrightarrow> owned (vpmm s) (table_of s dir i) \<and> table_of s dir i \<noteq> kphys dir)
     \<and> inj_on (table_of s dir) {i. i < 1024 \<and> present s dir i}"

lemma owned_kphys [simp]: "owned p a \<Longrightarrow> kphys a = a"
  by (simp add: owned_def kphys_def not_le)

lemma alloc_frame:
  assumes p: "mem_ok p" and al: "pmm_alloc_page p = (a, q)" and a: "a \<noteq> 0"
  shows "owned q a" "\<not> owned p a" "mem_ok q" "pmm_used q = insert (unat a div PAGE_SIZE) (pmm_used p)"
proof -
  have sh: "pmm_shape p" and z: "0 \<in> pmm_used p"
    using p by (auto simp: mem_ok_def pmm_ready_def)
  obtain i where i: "i < total_pages p" "i \<notin> pmm_used p" "unat a = i * PAGE_SIZE" "q = take_page p i"
    using pmm_alloc_page_cases [OF sh al] a by metis
  have d: "unat a div PAGE_SIZE = i" using i(3) by (simp add: PAGE_SIZE_def)
  have "unat a < total_pages p * PAGE_SIZE" using i by (simp add: PAGE_SIZE_def)
  then have "a < KERNEL_BASE" using p unfolding mem_ok_def word_less_nat_alt by linarith
  with a i d page_aligned [OF i(3)] show "owned q a" "\<not> owned p a"
      "pmm_used q = insert (unat a div PAGE_SIZE) (pmm_used p)"
    by (auto simp: owned_def)
  show "mem_ok q" using p i by (auto simp: mem_ok_def pmm_ready_def)
qed

lemma owned_mono: "owned p a \<Longrightarrow> pmm_used p \<subseteq> pmm_used q \<Longrightarrow> owned q a"
  by (auto simp: owned_def)

lemma entry_set_entry [kernel_simps]:
  "entry (set_entry s a i v) b j = (if kphys b = kphys a \<and> j = i then v else entry s b j)"
  by (auto simp: entry_def set_entry_def)

lemma entry_zero_page [kernel_simps]:
  "entry (zero_page s a) b j = (if kphys b = kphys a \<and> j < 1024 then 0 else entry s b j)"
  by (auto simp: entry_def zero_page_def)

lemma vmm_other_fields [simp]:
  "vpmm (set_entry s a i v) = vpmm s" "vpmm (zero_page s a) = vpmm s"
  "entry (s\<lparr>vpmm := q\<rparr>) = entry s" "kernel_page_directory (set_entry s a i v) = kernel_page_directory s"
  "next_virt (set_entry s a i v) = next_virt s" "current_page_directory (set_entry s a i v) = current_page_directory s"
  by (simp_all add: set_entry_def zero_page_def entry_def fun_eq_iff)

lemma get_page_table_eq:
  "get_page_table s dir va = (if present s dir (pde_index va) then table_of s dir (pde_index va) else 0)"
  by (simp add: get_page_table_def present_def table_of_def Let_def)

lemma vmm_get_physical_eq:
  assumes "dir_wf s dir"
  shows "vmm_get_physical s dir va =
     (let e = entry s (table_of s dir (pde_index va)) (pte_index va) in
      if present s dir (pde_index va) \<and> e AND PTE_PRESENT \<noteq> 0
      then (e AND PAGE_MASK) OR (va AND 0xFFF) else 0)"
proof -
  have "present s dir (pde_index va) \<Longrightarrow> table_of s dir (pde_index va) \<noteq> 0"
    using assms pde_index_less [of va] by (auto simp: dir_wf_def owned_def)
  then show ?thesis by (auto simp: vmm_get_physical_def get_page_table_eq Let_def)
qed

text \<open>The page table entry of an address, 0 where there is no table.\<close>

definition pte_of :: "vmm \<Rightarrow> u32 \<Rightarrow> u32 \<Rightarrow> u32" where
  "pte_of s dir va =
     (if present s dir (pde_index va) then entry s (table_of s dir (pde_index va)) (pte_index va) else 0)"

lemma get_physical_pte:
  "dir_wf s dir \<Longrightarrow> vmm_get_physical s dir va =
     (if pte_of s dir va AND PTE_PRESENT \<noteq> 0 then (pte_of s dir va AND PAGE_MASK) OR (va AND 0xFFF) else 0)"
  by (simp add: vmm_get_physical_eq pte_of_def Let_def)

lemma dir_wf_cong:
  assumes "dir_wf s dir" and "\<And>i. i < 1024 \<Longrightarrow> entry t dir i = entry s dir i" and "mem_ok (vpmm t)"
    and "pmm_used (vpmm s) \<subseteq> pmm_used (vpmm t)"
  shows "dir_wf t dir"
proof -
  have eq: "present t dir i = present s dir i" "table_of t dir i = table_of s dir i" if "i < 1024" for i
    using assms(2) that by (auto simp: present_def table_of_def)
  then have "{i. i < 1024 \<and> present t dir i} = {i. i < 1024 \<and> present s dir i}" by auto
  moreover have "inj_on (table_of t dir) {i. i < 1024 \<and> present s dir i}"
    using assms(1) eq(2) by (auto simp: dir_wf_def inj_on_def)
  ultimately show ?thesis
    using assms(1, 3, 4) eq by (auto simp: dir_wf_def intro: owned_mono)
qed

text \<open>Writing one entry of an existing page table.\<close>

lemma set_pte:
  fixes s :: vmm and dir va va' v :: u32
  assumes wf: "dir_wf s dir" and pr: "present s dir (pde_index va)"
  defines "t \<equiv> set_entry s (table_of s dir (pde_index va)) (pte_index va) v"
  shows "dir_wf t dir"
    and "vmm_get_physical t dir va' =
       (if drop_bit 12 va' = drop_bit 12 va
        then if v AND PTE_PRESENT \<noteq> 0 then (v AND PAGE_MASK) OR (va' AND 0xFFF) else 0
        else vmm_get_physical s dir va')"
    and "pte_of t dir va' = (if drop_bit 12 va' = drop_bit 12 va then v else pte_of s dir va')"
proof -
  let ?T = "table_of s dir"
  have own: "owned (vpmm s) (?T i)" "?T i \<noteq> kphys dir" if "i < 1024" "present s dir i" for i
    using wf that by (auto simp: dir_wf_def)
  have T: "kphys (?T (pde_index va)) = ?T (pde_index va)" "?T (pde_index va) \<noteq> kphys dir"
    using own [OF pde_index_less pr] by auto
  have dir: "entry t dir i = entry s dir i" for i
    using T by (simp add: t_def entry_set_entry)
  then have eq: "present t dir = present s dir" "table_of t dir = ?T"
    by (auto simp: present_def table_of_def fun_eq_iff)
  show wt: "dir_wf t dir"
    using wf by (rule dir_wf_cong) (use dir wf in \<open>auto simp: t_def dir_wf_def\<close>)
  have inj: "?T (pde_index va') = ?T (pde_index va) \<longleftrightarrow> pde_index va' = pde_index va"
    if "present s dir (pde_index va')"
    using wf that pr pde_index_less by (auto simp: dir_wf_def inj_on_def)
  have "entry t (?T (pde_index va')) (pte_index va') =
      (if drop_bit 12 va' = drop_bit 12 va then v else entry s (?T (pde_index va')) (pte_index va'))"
    if "present s dir (pde_index va')"
    using that own [OF pde_index_less that] T inj same_page_iff [of va' va]
    by (auto simp: t_def entry_set_entry)
  moreover have "drop_bit 12 va' = drop_bit 12 va \<Longrightarrow> present s dir (pde_index va')"
    using pr same_page_iff [of va' va] by metis
  ultimately show p: "pte_of t dir va' = (if drop_bit 12 va' = drop_bit 12 va then v else pte_of s dir va')"
    unfolding pte_of_def eq by auto
  show "vmm_get_physical t dir va' =
       (if drop_bit 12 va' = drop_bit 12 va
        then if v AND PTE_PRESENT \<noteq> 0 then (v AND PAGE_MASK) OR (va' AND 0xFFF) else 0
        else vmm_get_physical s dir va')"
    unfolding get_physical_pte [OF wt] get_physical_pte [OF wf] p by simp
qed

text \<open>Installing a fresh, empty page table changes no translation.\<close>

lemma fresh_table:
  assumes wf: "dir_wf s dir" and pr: "\<not> present s dir (pde_index va)"
    and cr: "create_page_table s dir va fl = (T, t)" and T: "T \<noteq> 0"
  shows "dir_wf t dir" "present t dir (pde_index va)" "table_of t dir (pde_index va) = T"
    "pte_of t dir va' = pte_of s dir va'"
proof -
  let ?i = "pde_index va" and ?p = "vpmm s"
  obtain q where al: "pmm_alloc_page ?p = (T, q)"
    and t: "t = set_entry (zero_page (s\<lparr>vpmm := q\<rparr>) T) dir ?i
               (T OR (fl AND 0xFFF) OR PTE_PRESENT OR PTE_WRITABLE)"
    using cr T pr by (auto simp: create_page_table_def present_def Let_def split: prod.splits if_splits)
  have mem: "mem_ok ?p" and ownd: "owned ?p (kphys dir)" using wf by (auto simp: dir_wf_def)
  note fr = alloc_frame [OF mem al T]
  have "kphys dir \<noteq> T" "kphys (kphys dir) = kphys dir" using fr(2) ownd by auto
  have kT: "kphys T = T" using fr(1) by simp
  have q: "vpmm t = q" "mem_ok q" "pmm_used ?p \<subseteq> pmm_used q" using fr by (auto simp: t)
  have dir: "entry t dir i = (if i = ?i then T OR (fl AND 0xFFF) OR PTE_PRESENT OR PTE_WRITABLE
      else entry s dir i)" for i
    using kT \<open>kphys dir \<noteq> T\<close> by (auto simp: t entry_set_entry entry_zero_page)
  have Tal: "T AND PAGE_MASK = T" using fr(1) by (simp add: owned_def)
  show pT: "present t dir ?i" and tT: "table_of t dir ?i = T"
    using pde_frame [OF Tal] pde_present by (simp_all add: present_def table_of_def dir)
  have old: "present t dir i = present s dir i" "table_of t dir i = table_of s dir i" if "i \<noteq> ?i" for i
    using that by (simp_all add: present_def table_of_def dir)
  have tabs: "owned ?p (table_of s dir i)" "table_of s dir i \<noteq> kphys dir" "table_of s dir i \<noteq> T"
    if "i < 1024" "present s dir i" for i
    using wf fr(2) that by (auto simp: dir_wf_def)
  have inj: "inj_on (table_of s dir) {i. i < 1024 \<and> present s dir i}"
    using wf by (simp add: dir_wf_def)
  show wt: "dir_wf t dir"
    unfolding dir_wf_def q(1)
  proof (intro conjI allI impI)
    fix i assume i: "i < 1024" "present t dir i"
    show "owned q (table_of t dir i)" "table_of t dir i \<noteq> kphys dir"
      using i tabs [of i] old [of i] fr(1) tT \<open>kphys dir \<noteq> T\<close> owned_mono [OF _ q(3)]
      by (cases "i = ?i"; auto)+
  next
    show "inj_on (table_of t dir) {i. i < 1024 \<and> present t dir i}"
    proof (rule inj_onI)
      fix i j assume h: "i \<in> {i. i < 1024 \<and> present t dir i}" "j \<in> {i. i < 1024 \<and> present t dir i}"
        "table_of t dir i = table_of t dir j"
      then show "i = j"
        using tabs(3) [of i] tabs(3) [of j] old [of i] old [of j] tT inj
        by (cases "i = ?i"; cases "j = ?i") (auto simp: inj_on_def)
    qed
  qed (use q ownd owned_mono [OF ownd q(3)] in auto)
  have tab: "entry t a j = entry s a j" if "owned ?p a" "a \<noteq> kphys dir" "a \<noteq> T" for a j
    using that kT by (auto simp: t entry_set_entry entry_zero_page)
  have "entry t T j = 0" if "j < 1024" for j
    using that kT \<open>kphys dir \<noteq> T\<close> by (auto simp: t entry_set_entry entry_zero_page)
  then have "pde_index va' = ?i \<Longrightarrow> pte_of t dir va' = pte_of s dir va'"
    using pr pT tT pte_index_less by (simp add: pte_of_def)
  moreover have "pde_index va' \<noteq> ?i \<Longrightarrow> pte_of t dir va' = pte_of s dir va'"
    using old [of "pde_index va'"] tab tabs [OF pde_index_less, of va'] by (auto simp: pte_of_def)
  ultimately show "pte_of t dir va' = pte_of s dir va'" by blast
qed

lemma vmm_map_page_spec:
  assumes wf: "dir_wf s dir" and map: "vmm_map_page s dir va pa fl = Some t"
  shows "dir_wf t dir"
    and "vmm_get_physical t dir va' =
       (if drop_bit 12 va' = drop_bit 12 va then (pa AND PAGE_MASK) OR (va' AND 0xFFF)
        else vmm_get_physical s dir va')"
    and "pte_of t dir va' =
       (if drop_bit 12 va' = drop_bit 12 va then (pa AND PAGE_MASK) OR (fl AND 0xFFF) OR PTE_PRESENT
        else pte_of s dir va')"
proof -
  define v where "v = (pa AND PAGE_MASK) OR (fl AND 0xFFF) OR PTE_PRESENT"
  have v: "v AND PTE_PRESENT \<noteq> 0" "v AND PAGE_MASK = pa AND PAGE_MASK"
    using entry_frame entry_present by (simp_all add: v_def or.assoc [symmetric])
  obtain u where u: "dir_wf u dir" "present u dir (pde_index va)"
      "t = set_entry u (table_of u dir (pde_index va)) (pte_index va) v"
      "\<And>va'. pte_of u dir va' = pte_of s dir va'"
  proof (cases "present s dir (pde_index va)")
    case True
    then have "table_of s dir (pde_index va) \<noteq> 0"
      using wf pde_index_less [of va] by (auto simp: dir_wf_def owned_def)
    with map True wf that [of s] show ?thesis
      by (auto simp: vmm_map_page_def get_page_table_eq v_def Let_def split: if_splits)
  next
    case False
    obtain T u where c: "create_page_table s dir va fl = (T, u)" by fastforce
    with map False have "T \<noteq> 0" "t = set_entry u T (pte_index va) v"
      by (auto simp: vmm_map_page_def get_page_table_eq v_def Let_def split: if_splits)
    with fresh_table [OF wf False c] that [of u] show ?thesis by auto
  qed
  show wt: "dir_wf t dir" using set_pte(1) [OF u(1, 2)] u(3) by simp
  have p: "pte_of t dir va' = (if drop_bit 12 va' = drop_bit 12 va then v else pte_of s dir va')"
    using set_pte(3) [OF u(1, 2), of v va'] u(3, 4) by simp
  then show "pte_of t dir va' =
       (if drop_bit 12 va' = drop_bit 12 va then (pa AND PAGE_MASK) OR (fl AND 0xFFF) OR PTE_PRESENT
        else pte_of s dir va')" by (simp only: v_def)
  show "vmm_get_physical t dir va' =
       (if drop_bit 12 va' = drop_bit 12 va then (pa AND PAGE_MASK) OR (va' AND 0xFFF)
        else vmm_get_physical s dir va')"
    unfolding get_physical_pte [OF wt] get_physical_pte [OF wf] p using v by simp
qed

subsection \<open>Unmapping, cloning and destroying\<close>

lemma get_physical_vpmm [simp]: "vmm_get_physical (s\<lparr>vpmm := q\<rparr>) = vmm_get_physical s"
  by (simp add: fun_eq_iff vmm_get_physical_def get_page_table_def Let_def)

lemma vmm_unmap_page_spec:
  assumes wf: "dir_wf s dir"
  shows "vmm_get_physical (vmm_unmap_page s dir va) dir va' =
       (if drop_bit 12 va' = drop_bit 12 va then 0 else vmm_get_physical s dir va')"
proof -
  let ?e = "entry s (table_of s dir (pde_index va)) (pte_index va)"
  have T: "present s dir (pde_index va) \<Longrightarrow> table_of s dir (pde_index va) \<noteq> 0"
    using wf pde_index_less [of va] by (auto simp: dir_wf_def owned_def)
  show ?thesis
  proof (cases "present s dir (pde_index va) \<and> ?e AND PTE_PRESENT \<noteq> 0")
    case True
    define u where "u = set_entry s (table_of s dir (pde_index va)) (pte_index va) 0"
    have "vmm_get_physical (vmm_unmap_page s dir va) dir va' = vmm_get_physical u dir va'"
      using T True by (auto simp: vmm_unmap_page_def get_page_table_eq Let_def simp flip: u_def)
    then show ?thesis
      using set_pte(2) [OF wf, of va 0 va'] True by (simp add: u_def)
  next
    case False
    then have id: "vmm_unmap_page s dir va = s"
      by (auto simp: vmm_unmap_page_def get_page_table_eq Let_def)
    have "vmm_get_physical s dir va' = 0" if "drop_bit 12 va' = drop_bit 12 va"
    proof -
      have "pde_index va' = pde_index va" "pte_index va' = pte_index va"
        using that same_page_iff [of va' va] by auto
      with False show ?thesis by (auto simp: vmm_get_physical_eq [OF wf] Let_def)
    qed
    with id show ?thesis by simp
  qed
qed

text \<open>The physical allocator after an unmap: a frame goes back unless its entry is copy-on-write.\<close>

lemma vmm_unmap_page_frame:
  assumes wf: "dir_wf s dir"
  shows "vpmm (vmm_unmap_page s dir va) =
     (let e = entry s (table_of s dir (pde_index va)) (pte_index va) in
      if present s dir (pde_index va) \<and> e AND PTE_PRESENT \<noteq> 0 \<and> e AND PTE_COW = 0
      then pmm_free_page (vpmm s) (e AND PAGE_MASK) else vpmm s)"
proof -
  have "present s dir (pde_index va) \<Longrightarrow> table_of s dir (pde_index va) \<noteq> 0"
    using wf pde_index_less [of va] by (auto simp: dir_wf_def owned_def)
  then show ?thesis by (auto simp: vmm_unmap_page_def get_page_table_eq Let_def)
qed

lemma entry_clone_entry:
  assumes ne: "kphys src \<noteq> kphys dst"
  shows "entry (clone_entry src dst t n) a j =
       (if j = n \<and> kphys a \<in> {kphys src, kphys dst}
        then if entry t src j AND PTE_PRESENT \<noteq> 0 then cow_entry (entry t src j)
             else if kphys a = kphys src then entry t src j else 0
        else entry t a j)"
proof -
  have "entry u a j = entry u src j" if "kphys a = kphys src" for u
    using that by (simp add: entry_def)
  with ne show ?thesis by (auto simp: clone_entry_def Let_def entry_set_entry)
qed

lemma clone_entries:
  assumes ne: "kphys src \<noteq> kphys dst"
  shows "entry (foldl (clone_entry src dst) s [0..<n]) a j =
       (if j < n \<and> kphys a \<in> {kphys src, kphys dst}
        then if entry s src j AND PTE_PRESENT \<noteq> 0 then cow_entry (entry s src j)
             else if kphys a = kphys src then entry s src j else 0
        else entry s a j)"
proof (induction n arbitrary: a j)
  case (Suc n)
  have src: "entry u a j = entry u src j" if "kphys a = kphys src" for u a j
    using that by (simp add: entry_def)
  have "entry (foldl (clone_entry src dst) s [0..<Suc n]) a j =
      entry (clone_entry src dst (foldl (clone_entry src dst) s [0..<n]) n) a j" by simp
  then show ?case using ne src [of a s j]
    by (auto simp: Suc.IH entry_clone_entry [OF ne] less_Suc_eq)
qed simp

lemma cow_entry_bits:
  "cow_entry e AND PAGE_MASK = e AND PAGE_MASK" "\<not> bit (cow_entry e) 1" "bit (cow_entry e) 9"
  "bit (cow_entry e) 0 = bit e 0"
proof -
  have b: "bit (cow_entry e) n \<longleftrightarrow> (bit e n \<and> 12 \<le> n \<and> n < 32 \<or> bit e n \<and> n < 12 \<and> n \<noteq> 1 \<or> n = 9)" for n
    unfolding cow_entry_def
    by (simp only: pte_bits bit_not_iff) (auto simp: possible_bit_def dest: bit_imp_le_length)
  show "cow_entry e AND PAGE_MASK = e AND PAGE_MASK"
    by (intro bit_word_eqI) (simp only: pte_bits b, auto)
  show "\<not> bit (cow_entry e) 1" "bit (cow_entry e) 9" "bit (cow_entry e) 0 = bit e 0"
    by (simp_all only: b) auto
qed

lemma destroy_entries:
  assumes "pmm_shape (vpmm s)"
  shows "entry (foldl (destroy_entry T) s js) = entry s"
    and "pmm_used (vpmm (foldl (destroy_entry T) s js)) =
      pmm_used (vpmm s) - {unat (entry s T j AND PAGE_MASK) div PAGE_SIZE |j.
         j \<in> set js \<and> entry s T j AND PTE_PRESENT \<noteq> 0}"
    and "pmm_shape (vpmm (foldl (destroy_entry T) s js))"
  using assms
proof (induction js arbitrary: s)
  case Nil
  { case 1 show ?case by simp }
  { case 2 show ?case by simp }
  { case 3 then show ?case by simp }
next
  case (Cons j js)
  have al: "unat (a AND PAGE_MASK) mod PAGE_SIZE = 0" for a :: u32
  proof -
    have "unat (a AND PAGE_MASK) mod 2 ^ 12 = unat (take_bit 12 (a AND PAGE_MASK))"
      unfolding unsigned_take_bit_eq by (simp only: take_bit_eq_mod)
    also have "take_bit 12 (a AND PAGE_MASK) = 0"
      by (intro bit_word_eqI) (simp only: bit_take_bit_iff pte_bits, auto)
    finally show ?thesis by (simp add: PAGE_SIZE_def)
  qed
  have step: "entry (destroy_entry T s j) = entry s" "pmm_shape (vpmm (destroy_entry T s j))"
      "pmm_used (vpmm (destroy_entry T s j)) = pmm_used (vpmm s) -
         (if entry s T j AND PTE_PRESENT \<noteq> 0 then {unat (entry s T j AND PAGE_MASK) div PAGE_SIZE} else {})"
    if "pmm_shape (vpmm s)" for s
    using that by (auto simp: destroy_entry_def pmm_free_page_def al Let_def) (auto simp: pmm_used_def)
  { case 1 show ?case using Cons.IH(1) [OF step(2) [OF 1]] step(1) [OF 1] by simp }
  { case 2 show ?case using Cons.IH(2) [OF step(2) [OF 2]] step [OF 2] by (auto split: if_splits) }
  { case 3 show ?case using Cons.IH(3) [OF step(2) [OF 3]] by simp }
qed

subsection \<open>Properties\<close>

text \<open>
  C3: \<open>vmm_map_page\<close> installs exactly one translation. In a well-formed address space it keeps the
  address space well formed, afterwards every address of the page translates into the given frame,
  and every other address translates as before, also when a new page table had to be allocated.
\<close>

theorem vmm_map_page_translates:
  assumes "dir_wf s dir" and "vmm_map_page s dir va pa fl = Some t"
  shows "dir_wf t dir \<and>
     vmm_get_physical t dir va' =
       (if drop_bit 12 va' = drop_bit 12 va then (pa AND PAGE_MASK) OR (va' AND 0xFFF)
        else vmm_get_physical s dir va')"
  using vmm_map_page_spec [OF assms] by blast

definition demo_vmm :: vmm where
  "demo_vmm = \<lparr>frames = (\<lambda>_ _. 0)(0x1000 := (\<lambda>_. 0)(0 := 0x2003), 0x2000 := (\<lambda>_. 0)(3 := 0x4205)),
     kernel_page_directory = 0x1000, current_page_directory = 0x1000,
     vpmm = \<lparr>bitmap = (\<lambda>_. 0x1F), total_pages = 8, used_pages = 5, bitmap_size = 1\<rparr>,
     next_virt = 0xFD000000, heap_virt = 0xE0000000, tick_count = 0, cr3 = 0x1000, paging = True\<rparr>"

lemma demo_vmm_used: "pmm_used (vpmm demo_vmm) = {0, 1, 2, 3, 4}"
  unfolding pmm_used_code by code_simp

lemma demo_vmm_wf: "dir_wf demo_vmm 0x1000"
proof -
  have k: "kphys 0x1000 = 0x1000" by (simp add: kphys_def)
  have e: "entry demo_vmm 0x1000 i = (if i = 0 then 0x2003 else 0)" for i
    by (simp add: entry_def k demo_vmm_def)
  have m: "(0x2003 :: u32) AND PAGE_MASK = 0x2000" "(0x1000 :: u32) AND PAGE_MASK = 0x1000"
    "(0x2000 :: u32) AND PAGE_MASK = 0x2000" "(0x2003 :: u32) AND PTE_PRESENT = 1" by simp_all
  have "mem_ok (vpmm demo_vmm)"
    unfolding mem_ok_def pmm_ready_def demo_vmm_used
    by (simp add: demo_vmm_def pmm_shape_def PMM_MAX_PAGES_def PAGE_SIZE_def)
  then show ?thesis
    unfolding dir_wf_def present_def table_of_def owned_def demo_vmm_used e k
    by (auto simp: m PAGE_SIZE_def inj_on_def)
qed

theorem vmm_map_page_translates_witness:
  "dir_wf demo_vmm 0x1000 \<and> (\<exists>t. vmm_map_page demo_vmm 0x1000 0x5000 0x6000 3 = Some t
     \<and> vmm_get_physical t 0x1000 0x5123 = 0x6123)"
proof -
  have "vmm_map_page demo_vmm 0x1000 0x5000 0x6000 3 \<noteq> None" by code_simp
  then obtain t where t: "vmm_map_page demo_vmm 0x1000 0x5000 0x6000 3 = Some t" by blast
  have "drop_bit 12 (0x5123 :: u32) = drop_bit 12 0x5000" by code_simp
  with vmm_map_page_translates [OF demo_vmm_wf t, of "0x5123"] t demo_vmm_wf show ?thesis by simp
qed

text \<open>
  C24: \<open>vmm_unmap_page\<close> removes exactly one translation, and gives the frame the entry named back to
  the physical allocator unless the entry is marked copy-on-write. The frame is released whether or
  not the allocator ever handed it out.
\<close>

theorem vmm_unmap_page_translates:
  assumes "dir_wf s dir"
  shows "vmm_get_physical (vmm_unmap_page s dir va) dir va' =
       (if drop_bit 12 va' = drop_bit 12 va then 0 else vmm_get_physical s dir va')
     \<and> vpmm (vmm_unmap_page s dir va) =
       (let e = entry s (table_of s dir (pde_index va)) (pte_index va) in
        if present s dir (pde_index va) \<and> e AND PTE_PRESENT \<noteq> 0 \<and> e AND PTE_COW = 0
        then pmm_free_page (vpmm s) (e AND PAGE_MASK) else vpmm s)"
  using vmm_unmap_page_spec [OF assms] vmm_unmap_page_frame [OF assms] by blast

theorem vmm_unmap_page_translates_witness:
  "dir_wf demo_vmm 0x1000 \<and> vmm_get_physical demo_vmm 0x1000 0x3123 = 0x4123
   \<and> vmm_get_physical (vmm_unmap_page demo_vmm 0x1000 0x3000) 0x1000 0x3123 = 0"
proof -
  have "drop_bit 12 (0x3123 :: u32) = drop_bit 12 0x3000"
    "vmm_get_physical demo_vmm 0x1000 0x3123 = 0x4123" by code_simp+
  with vmm_unmap_page_translates [OF demo_vmm_wf, of "0x3000" "0x3123"] demo_vmm_wf show ?thesis by simp
qed

text \<open>
  Copy on write is decided by the faulting address. For a write fault on a present page the
  handler copies the page exactly when bit 9 of the faulting address is set and the address is
  mapped; the copy-on-write flag of the page table entry plays no part, because
  \<open>vmm_get_physical\<close> has already masked the flags away. Otherwise the fault is reported as fatal.
\<close>

theorem cow_fault_ignores_flag:
  assumes "code AND 1 \<noteq> 0" and "code AND 2 \<noteq> 0"
  shows "vmm_handle_page_fault mmap_fault access evict s pid code va =
     (if vmm_get_physical s (current_page_directory s) va \<noteq> 0 \<and> bit va 9
      then vmm_copy_page_fault_cow s (current_page_directory s) va
      else Some (-1, s))"
proof -
  have flag: "((e AND PAGE_MASK) OR (va AND 0xFFF)) AND PTE_COW = va AND PTE_COW" for e :: u32
    by (intro bit_word_eqI) (simp only: pte_bits, auto)
  have "vmm_get_physical s d va AND PTE_COW = (if vmm_get_physical s d va = 0 then 0 else va AND PTE_COW)" for d
    unfolding vmm_get_physical_def by (auto simp: Let_def flag)
  moreover have "va AND PTE_COW = 0 \<longleftrightarrow> \<not> bit va 9"
    using test_bit_mask [of 9 va] by simp
  ultimately show ?thesis
    using assms by (auto simp: vmm_handle_page_fault_def Let_def split: option.splits)
qed

theorem cow_fault_ignores_flag_witness:
  "entry demo_vmm 0x2000 3 AND PTE_COW \<noteq> 0
   \<and> vmm_handle_page_fault (\<lambda>s _ _. s) (\<lambda>s _ _. s) (\<lambda>s. (-1, s)) demo_vmm None 3 0x3000 = Some (-1, demo_vmm)"
proof -
  have "\<not> bit (0x3000 :: u32) 9" "entry demo_vmm 0x2000 3 AND PTE_COW \<noteq> 0" by code_simp+
  with cow_fault_ignores_flag [of 3 _ _ _ demo_vmm None "0x3000"] show ?thesis by simp
qed

text \<open>
  cloning a page table makes every present page shared, read-only and copy-on-write on both
  sides, keeps its frame and its present bit, and leaves the other entries of the copy empty.
\<close>

theorem clone_table_shares:
  assumes "kphys src \<noteq> kphys dst" and "j < 1024"
  shows "if entry s src j AND PTE_PRESENT \<noteq> 0
     then entry (clone_table s src dst) dst j = entry (clone_table s src dst) src j
        \<and> entry (clone_table s src dst) dst j AND PAGE_MASK = entry s src j AND PAGE_MASK
        \<and> entry (clone_table s src dst) dst j AND PTE_PRESENT \<noteq> 0
        \<and> entry (clone_table s src dst) dst j AND PTE_WRITABLE = 0
        \<and> entry (clone_table s src dst) dst j AND PTE_COW \<noteq> 0
     else entry (clone_table s src dst) dst j = 0 \<and> entry (clone_table s src dst) src j = entry s src j"
proof -
  have bits: "cow_entry e AND PTE_WRITABLE = 0" "cow_entry e AND PTE_COW \<noteq> 0" for e
    using cow_entry_bits [of e] test_bit_mask [of 1 "cow_entry e"] test_bit_mask [of 9 "cow_entry e"]
    by simp_all
  show ?thesis
    using assms unfolding clone_table_def clone_entries [OF assms(1)]
    by (auto simp: bits cow_entry_bits present_bit)
qed

theorem clone_table_shares_witness:
  "entry (clone_table demo_vmm 0x2000 0x5000) 0x5000 3 = 0x4205"
proof -
  have "kphys 0x2000 \<noteq> kphys 0x5000" "(3::nat) < 1024" by (simp_all add: kphys_def)
  from clone_table_shares [OF this, of demo_vmm] clone_entries [OF this(1), of demo_vmm 1024 "0x5000" 3]
  show ?thesis
    by (simp add: clone_table_def kphys_def demo_vmm_def entry_def cow_entry_def)
qed

text \<open>
  destroying a page table of an address space releases every frame with a present entry,
  copy-on-write frames that other address spaces still map included.
\<close>

theorem destroy_table_frees_shared:
  assumes "pmm_shape (vpmm s)" and "j < 1024" and "entry s T j AND PTE_PRESENT \<noteq> 0"
  shows "unat (entry s T j AND PAGE_MASK) div PAGE_SIZE \<notin> pmm_used (vpmm (destroy_table s T))"
  using assms destroy_entries(2) [OF assms(1), of T "[0..<1024]"] by (auto simp: destroy_table_def)

theorem destroy_table_frees_shared_witness:
  "entry demo_vmm 0x2000 3 AND PTE_COW \<noteq> 0 \<and> 4 \<in> pmm_used (vpmm demo_vmm)
   \<and> 4 \<notin> pmm_used (vpmm (destroy_table demo_vmm 0x2000))"
proof -
  have e: "entry demo_vmm 0x2000 3 = 0x4205" by code_simp
  have "pmm_shape (vpmm demo_vmm)" using demo_vmm_wf by (simp add: dir_wf_def mem_ok_def pmm_ready_def)
  from destroy_table_frees_shared [OF this, of 3 "0x2000"] show ?thesis
    by (simp add: e demo_vmm_used PAGE_SIZE_def)
qed

end
