(* ===== verification/VmmCow.thy ===== *)
theory VmmCow
  imports Vmm
begin

text \<open>
  The reference-counted copy-on-write layer, \<open>kernel/vmm_cow.c\<close>, on top of the page tables of
  \<open>kernel/vmm.c\<close>. The counter array is NULL until \<open>vmm_cow_init\<close>; the counts are a map from page
  numbers, \<open>ref_total\<close> is \<open>ref_count_total_entries\<close>.
\<close>

record cow =
  cvmm :: vmm
  page_ref_counts :: "nat \<Rightarrow> u32"
  ref_total :: nat

text \<open>\<open>kcalloc\<close> gives a zeroed array.\<close>

definition vmm_cow_init :: "cow \<Rightarrow> cow" where
  "vmm_cow_init c = c\<lparr>ref_total := total_pages (vpmm (cvmm c)), page_ref_counts := (\<lambda>_. 0)\<rparr>"

definition cow_ref_inc :: "cow \<Rightarrow> u32 \<Rightarrow> cow" where
  "cow_ref_inc c phys =
     (let idx = unat phys div PAGE_SIZE in
      if idx < ref_total c
      then c\<lparr>page_ref_counts := (page_ref_counts c)(idx := page_ref_counts c idx + 1)\<rparr> else c)"



text \<open>One page of the fork: write-protect the parent, map the child, count the reference.\<close>

definition cow_fork_page :: "u32 \<Rightarrow> u32 \<Rightarrow> nat \<Rightarrow> cow \<Rightarrow> nat \<Rightarrow> cow option" where
  "cow_fork_page parent_pt child_dir pd_idx c pt_idx =
     (let pte = entry (cvmm c) parent_pt pt_idx in
      if pte AND PTE_PRESENT = 0 then Some c
      else
        (let virt_addr = push_bit 22 (of_nat pd_idx) OR push_bit 12 (of_nat pt_idx);
             phys = pte AND PAGE_MASK;
             s1 = set_entry (cvmm c) parent_pt pt_idx (pte AND NOT PTE_WRITABLE);
             child_flags = PTE_PRESENT OR PTE_USER
         in case vmm_map_page s1 child_dir virt_addr phys child_flags of
              None \<Rightarrow> None
            | Some s2 \<Rightarrow> Some (cow_ref_inc (c\<lparr>cvmm := s2\<rparr>) phys)))"

definition cow_fork_table :: "u32 \<Rightarrow> u32 \<Rightarrow> cow \<Rightarrow> nat \<Rightarrow> cow option" where
  "cow_fork_table parent_dir child_dir c pd_idx =
     (let pde = entry (cvmm c) parent_dir pd_idx in
      if pde AND PTE_PRESENT = 0 then Some c
      else fold_opt (cow_fork_page (pde AND PAGE_MASK) child_dir pd_idx) c [0..<1024])"

definition vmm_cow_fork :: "cow \<Rightarrow> u32 \<Rightarrow> u32 \<Rightarrow> cow option" where
  "vmm_cow_fork c parent_dir child_dir = fold_opt (cow_fork_table parent_dir child_dir) c [0..<1024]"





subsection \<open>Properties\<close>











end
