(* ===== verification/ShmIpc.thy ===== *)
theory ShmIpc
  imports Vmm
begin

text \<open>
  Shared memory regions, \<open>kernel/ipc_shm.c\<close>, on top of the page allocator and the page tables. Every
  function runs under \<open>shm_lock\<close> and is one step. The two requests to \<open>kmalloc\<close> in \<open>shm_create\<close> succeed
  or fail as \<open>ok1\<close> and \<open>ok2\<close> say; \<open>None\<close> is \<open>KERNEL_PANIC\<close>.
\<close>

subsection \<open>State and operations\<close>

record shm_region =
  shm_key :: u32
  shm_size :: u32
  phys_pages :: "u32 list"
  shm_refs :: u32
  shm_flags :: u32
  shm_owner :: u32

record shm =
  shm_regions :: "shm_region option list"
  shm_key_counter :: u32
  shm_vm :: vmm

abbreviation "SHM_MAX_REGIONS \<equiv> 256 :: nat"
abbreviation "PMM_PAGE_SIZE \<equiv> 0x1000 :: u32"
abbreviation "SHM_RDONLY \<equiv> 0x01 :: u32"

definition shm_init :: "shm \<Rightarrow> shm" where
  "shm_init s = s\<lparr>shm_regions := replicate SHM_MAX_REGIONS None, shm_key_counter := 1\<rparr>"

definition shm_slot :: "shm \<Rightarrow> u32 \<Rightarrow> nat option" where
  "shm_slot s key = find_index (\<lambda>r. case r of None \<Rightarrow> False | Some x \<Rightarrow> shm_key x = key) (shm_regions s)"

definition shm_get :: "shm \<Rightarrow> u32 \<Rightarrow> shm_region option" where
  "shm_get s key = (case shm_slot s key of None \<Rightarrow> None | Some i \<Rightarrow> shm_regions s ! i)"

definition free_frames :: "pmm \<Rightarrow> u32 list \<Rightarrow> pmm" where
  "free_frames q ps = foldl pmm_free_page q ps"



text \<open>The address of page \<open>p\<close> of a range; all arithmetic wraps.\<close>

definition page_at :: "u32 \<Rightarrow> nat \<Rightarrow> u32" where
  "page_at virt p = virt + of_nat p * PMM_PAGE_SIZE"

text \<open>The first of 256 ranges, 16 MB apart, none of whose pages is mapped. When there is none, the address
  stays at its initial value.\<close>

definition choose_vaddr :: "vmm \<Rightarrow> u32 \<Rightarrow> nat \<Rightarrow> u32" where
  "choose_vaddr v dir count =
     (case find (\<lambda>virt. \<forall>p\<in>set [0..<count]. vmm_get_physical v dir (page_at virt p) = 0)
             (map (\<lambda>attempt. 0x40000000 + of_nat attempt * 0x1000000) [0..<256]) of
        None \<Rightarrow> 0x40000000
      | Some virt \<Rightarrow> virt)"

definition attach_flags :: "shm_region \<Rightarrow> u32" where
  "attach_flags r =
     (if shm_flags r AND SHM_RDONLY = 0 then PTE_PRESENT OR PTE_USER OR PTE_WRITABLE
      else PTE_PRESENT OR PTE_USER)"

definition attach_page :: "shm_region \<Rightarrow> u32 \<Rightarrow> u32 \<Rightarrow> vmm \<Rightarrow> nat \<Rightarrow> vmm option" where
  "attach_page r dir vaddr v i =
     vmm_map_page v dir (page_at vaddr i) (phys_pages r ! i) (attach_flags r)"

definition shm_attach :: "shm \<Rightarrow> u32 \<Rightarrow> u32 \<Rightarrow> (u32 \<times> shm) option" where
  "shm_attach s key dir =
     (case shm_slot s key of
        None \<Rightarrow> Some (0, s)
      | Some slot \<Rightarrow>
          (let r = the (shm_regions s ! slot);
               vaddr = choose_vaddr (shm_vm s) dir (length (phys_pages r)) in
           case fold_opt (attach_page r dir vaddr) (shm_vm s) [0..<length (phys_pages r)] of
             None \<Rightarrow> None
           | Some v \<Rightarrow> Some (vaddr, s\<lparr>shm_vm := v,
               shm_regions := (shm_regions s)[slot := Some (r\<lparr>shm_refs := shm_refs r + 1\<rparr>)]\<rparr>)))"

definition detach_page :: "u32 \<Rightarrow> u32 \<Rightarrow> vmm \<Rightarrow> nat \<Rightarrow> vmm" where
  "detach_page dir vaddr v i = vmm_unmap_page v dir (page_at vaddr i)"

definition shm_detach :: "shm \<Rightarrow> u32 \<Rightarrow> u32 \<Rightarrow> u32 \<Rightarrow> shm" where
  "shm_detach s key vaddr dir =
     (case shm_slot s key of
        None \<Rightarrow> s
      | Some slot \<Rightarrow>
          (let r = the (shm_regions s ! slot);
               v = foldl (detach_page dir vaddr) (shm_vm s) [0..<length (phys_pages r)];
               r' = r\<lparr>shm_refs := shm_refs r - 1\<rparr> in
           if sint (shm_refs r') \<le> 0
           then s\<lparr>shm_regions := (shm_regions s)[slot := None],
                  shm_vm := v\<lparr>vpmm := free_frames (vpmm v) (phys_pages r)\<rparr>\<rparr>
           else s\<lparr>shm_regions := (shm_regions s)[slot := Some r'], shm_vm := v\<rparr>))"

subsection \<open>Address spaces whose frames are being freed\<close>

text \<open>An unmap keeps the page tables apart and in place whatever it does to the allocator; \<open>q\<close> is any
  allocator state in which the tables are owned.\<close>

lemma pte_of_vpmm [simp]: "pte_of (s\<lparr>vpmm := q\<rparr>) = pte_of s"
  by (simp add: fun_eq_iff pte_of_def present_def table_of_def)

lemma unmap_cases:
  assumes "dir_wf (s\<lparr>vpmm := q\<rparr>) dir"
  obtains (gone) "pte_of s dir va AND PTE_PRESENT = 0" "vmm_unmap_page s dir va = s"
  | (mapped) "pte_of s dir va AND PTE_PRESENT \<noteq> 0" "present s dir (pde_index va)"
      "vmm_unmap_page s dir va =
         (let e = pte_of s dir va; s1 = set_entry s (table_of s dir (pde_index va)) (pte_index va) 0 in
          if e AND PTE_COW = 0 then s1\<lparr>vpmm := pmm_free_page (vpmm s1) (e AND PAGE_MASK)\<rparr> else s1)"
proof -
  have "present s dir (pde_index va) \<Longrightarrow> table_of s dir (pde_index va) \<noteq> 0"
    using assms pde_index_less [of va] by (auto simp: dir_wf_def owned_def present_def table_of_def)
  then show ?thesis
    using that by (cases "present s dir (pde_index va)") (auto simp: vmm_unmap_page_def get_page_table_eq pte_of_def Let_def)
qed

lemma unmap_pte:
  assumes wf: "dir_wf (s\<lparr>vpmm := q\<rparr>) dir"
  shows "dir_wf ((vmm_unmap_page s dir va)\<lparr>vpmm := q\<rparr>) dir"
    and "drop_bit 12 va' \<noteq> drop_bit 12 va \<Longrightarrow> pte_of (vmm_unmap_page s dir va) dir va' = pte_of s dir va'"
    and "vpmm (vmm_unmap_page s dir va) =
      (if pte_of s dir va AND PTE_PRESENT \<noteq> 0 \<and> pte_of s dir va AND PTE_COW = 0
       then pmm_free_page (vpmm s) (pte_of s dir va AND PAGE_MASK) else vpmm s)"
proof -
  define u where "u = set_entry (s\<lparr>vpmm := q\<rparr>) (table_of s dir (pde_index va)) (pte_index va) 0"
  have u: "dir_wf u dir" "drop_bit 12 va' \<noteq> drop_bit 12 va \<Longrightarrow> pte_of u dir va' = pte_of s dir va'"
    if "present s dir (pde_index va)"
    using set_pte(1) [OF wf, of va 0] set_pte(3) [OF wf, of va 0 va'] that by (simp_all add: u_def present_def table_of_def)
  have e: "(set_entry s a i v)\<lparr>vpmm := q\<rparr> = set_entry (s\<lparr>vpmm := q\<rparr>) a i v" for a i v by (simp add: set_entry_def)
  have p: "pte_of (set_entry s a i v) = pte_of (set_entry (s\<lparr>vpmm := q\<rparr>) a i v)" for a i v
    using pte_of_vpmm [of q "set_entry s a i v"] unfolding e by (rule sym)
  show "dir_wf ((vmm_unmap_page s dir va)\<lparr>vpmm := q\<rparr>) dir"
    by (cases rule: unmap_cases [OF wf, where va = va]) (use wf u(1) in \<open>auto simp: Let_def u_def e\<close>)
  show "pte_of (vmm_unmap_page s dir va) dir va' = pte_of s dir va'" if "drop_bit 12 va' \<noteq> drop_bit 12 va"
    by (cases rule: unmap_cases [OF wf, where va = va]) (use that u(2) in \<open>auto simp: Let_def u_def p\<close>)
  show "vpmm (vmm_unmap_page s dir va) =
      (if pte_of s dir va AND PTE_PRESENT \<noteq> 0 \<and> pte_of s dir va AND PTE_COW = 0
       then pmm_free_page (vpmm s) (pte_of s dir va AND PAGE_MASK) else vpmm s)"
    by (cases rule: unmap_cases [OF wf, where va = va]) (auto simp: Let_def)
qed

subsection \<open>The pages of a range\<close>

lemma page_at_eq: "page_at va i = va + push_bit 12 (of_nat i)"
  by (simp add: page_at_def PAGE_SIZE_def push_bit_eq_mult)

lemma page_at_offset:
  assumes "va AND 0xFFF = 0"
  shows "page_at va i AND 0xFFF = 0" "drop_bit 12 (page_at va i) = drop_bit 12 (page_at va j) \<longleftrightarrow> page_at va i = page_at va j"
proof -
  have m: "(0xFFF :: u32) = Bit_Operations.mask 12" by (simp add: mask_eq_exp_minus_1)
  have t: "take_bit 12 w = 0 \<longleftrightarrow> unat w mod 4096 = 0" for w :: u32
  proof -
    have "unat (take_bit 12 w) = unat w mod 2 ^ 12" unfolding unsigned_take_bit_eq by (simp only: take_bit_eq_mod)
    then show ?thesis by (simp add: word_unat_eq_iff)
  qed
  have va: "unat va mod 4096 = 0" using assms unfolding m take_bit_eq_mask [symmetric] t .
  have al: "take_bit 12 (page_at va i) = 0" for i
  proof -
    have "page_at va i = of_nat (unat va + i * 4096)" by (simp add: page_at_def PAGE_SIZE_def)
    then have "unat (page_at va i) = (unat va + i * 4096) mod 2 ^ 32"
      by (simp only: unsigned_of_nat take_bit_eq_mod) simp
    then have "unat (page_at va i) mod 4096 = (unat va + i * 4096) mod 4096"
      using mod_mod_cancel [of 4096 "2 ^ 32" "unat va + i * 4096"] by simp
    then show ?thesis using va unfolding t by simp
  qed
  show "page_at va i AND 0xFFF = 0" using al [of i] unfolding m take_bit_eq_mask [symmetric] .
  have id: "push_bit 12 (drop_bit 12 (page_at va i)) = page_at va i" for i
    using bits_ident [of 12 "page_at va i"] by (simp only: al add_0_right)
  show "drop_bit 12 (page_at va i) = drop_bit 12 (page_at va j) \<longleftrightarrow> page_at va i = page_at va j"
    by (metis id)
qed

lemma page_at_inj:
  assumes "i < 2 ^ 20" "j < 2 ^ 20"
  shows "page_at va i = page_at va j \<longleftrightarrow> i = j"
proof
  assume "page_at va i = page_at va j"
  then have "of_nat (i * 4096) = (of_nat (j * 4096) :: u32)" by (simp add: page_at_def PAGE_SIZE_def)
  then have "i * 4096 mod 2 ^ 32 = j * 4096 mod 2 ^ 32"
    unfolding word_of_nat_eq_iff take_bit_eq_mod by simp
  moreover have "i * 4096 < 2 ^ 32" "j * 4096 < 2 ^ 32" using assms by simp_all
  ultimately have "i * 4096 = j * 4096" by (simp only: mod_less)
  then show "i = j" by simp
qed simp

lemma pte_of_page: "drop_bit 12 a = drop_bit 12 b \<Longrightarrow> pte_of s dir a = pte_of s dir b"
  using same_page_iff [of a b] by (simp add: pte_of_def)

lemma page_apart:
  "va AND 0xFFF = 0 \<Longrightarrow> i < 2 ^ 20 \<Longrightarrow> j < 2 ^ 20 \<Longrightarrow> i \<noteq> j \<Longrightarrow>
     drop_bit 12 (page_at va i) \<noteq> drop_bit 12 (page_at va j)"
  using page_at_offset(2) page_at_inj by blast

lemma choose_vaddr_aligned: "choose_vaddr v dir n AND 0xFFF = 0"
proof -
  have "(0x40000000 + of_nat k * 0x1000000 :: u32) AND 0xFFF = 0" for k
  proof -
    have "0x40000000 + of_nat k * 0x1000000 = page_at 0x40000000 (k * 4096)"
      by (simp add: page_at_def PAGE_SIZE_def)
    moreover have "(0x40000000 :: u32) AND 0xFFF = 0" by simp
    ultimately show ?thesis using page_at_offset(1) by simp
  qed
  then show ?thesis
    by (auto simp: choose_vaddr_def find_Some_iff split: option.split)
qed

abbreviation "page_index a \<equiv> unat a div PAGE_SIZE"

lemma free_frames_used:
  assumes "pmm_shape p" and "\<forall>a\<in>set ps. unat a mod PAGE_SIZE = 0"
  shows "pmm_shape (free_frames p ps)" "pmm_used (free_frames p ps) = pmm_used p - (\<lambda>a. page_index a) ` set ps"
  using assms
proof (induction ps arbitrary: p)
  case Nil
  { case 1 then show ?case by (simp add: free_frames_def) }
  { case 2 then show ?case by (simp add: free_frames_def) }
next
  case (Cons a ps)
  have f: "free_frames p (a # ps) = free_frames (pmm_free_page p a) ps" for p by (simp add: free_frames_def)
  have step: "pmm_shape (pmm_free_page p a)" "pmm_used (pmm_free_page p a) = pmm_used p - {page_index a}"
    if "pmm_shape p" "unat a mod PAGE_SIZE = 0" for p
    using that by (auto simp: pmm_free_page_def Let_def) (auto simp: pmm_used_def)
  { case 1 then show ?case using Cons.IH(1) step(1) unfolding f by simp }
  { case 2 then show ?case using Cons.IH(2) step unfolding f by auto }
qed

lemma aligned_mod: "a AND PAGE_MASK = a \<Longrightarrow> unat a mod PAGE_SIZE = 0" for a :: u32
proof -
  assume a: "a AND PAGE_MASK = a"
  have "take_bit 12 (a AND PAGE_MASK) = 0"
    by (intro bit_word_eqI) (simp only: bit_take_bit_iff pte_bits, auto)
  then have "unat (take_bit 12 a) = 0" using a by simp
  then show ?thesis unfolding unsigned_take_bit_eq by (simp add: take_bit_eq_mod PAGE_SIZE_def)
qed

subsection \<open>The loops\<close>

definition shared_entry :: "shm_region \<Rightarrow> nat \<Rightarrow> u32" where
  "shared_entry r i = (phys_pages r ! i AND PAGE_MASK) OR (attach_flags r AND 0xFFF) OR PTE_PRESENT"

lemma shared_entry_bits:
  "shared_entry r i AND PAGE_MASK = phys_pages r ! i AND PAGE_MASK"
  "shared_entry r i AND PTE_PRESENT \<noteq> 0" "shared_entry r i AND PTE_COW = 0"
proof -
  have "shared_entry r i = (phys_pages r ! i AND PAGE_MASK) OR 7 \<or> shared_entry r i = (phys_pages r ! i AND PAGE_MASK) OR 5"
    by (simp add: shared_entry_def attach_flags_def or.assoc)
  moreover have "(x AND PAGE_MASK OR k) AND PAGE_MASK = x AND PAGE_MASK" "(x AND PAGE_MASK OR k) AND PTE_PRESENT \<noteq> 0"
      "(x AND PAGE_MASK OR k) AND PTE_COW = 0" if "k = 7 \<or> k = 5" for x k :: u32
  proof -
    have k: "k AND PAGE_MASK = 0" "k AND PTE_PRESENT = 1" "k AND PTE_COW = 0" using that by auto
    have m: "(x AND PAGE_MASK) AND PAGE_MASK = x AND PAGE_MASK" "(x AND PAGE_MASK) AND PTE_PRESENT = 0"
      "(x AND PAGE_MASK) AND PTE_COW = 0" by (simp_all add: and.assoc)
    show "(x AND PAGE_MASK OR k) AND PAGE_MASK = x AND PAGE_MASK" "(x AND PAGE_MASK OR k) AND PTE_PRESENT \<noteq> 0"
      "(x AND PAGE_MASK OR k) AND PTE_COW = 0"
      unfolding bit.conj_disj_distrib2 k m by simp_all
  qed
  ultimately show "shared_entry r i AND PAGE_MASK = phys_pages r ! i AND PAGE_MASK"
    "shared_entry r i AND PTE_PRESENT \<noteq> 0" "shared_entry r i AND PTE_COW = 0" by metis+
qed

lemma attach_pages:
  assumes wf: "dir_wf v dir" and va: "va AND 0xFFF = 0" and n: "n \<le> 2 ^ 20"
    and f: "fold_opt (attach_page r dir va) v [0..<n] = Some w"
  shows "dir_wf w dir" "\<forall>i<n. pte_of w dir (page_at va i) = shared_entry r i"
    "\<forall>a. (\<forall>i<n. drop_bit 12 a \<noteq> drop_bit 12 (page_at va i)) \<longrightarrow> pte_of w dir a = pte_of v dir a"
proof -
  have "dir_wf w dir \<and> (\<forall>i<n. pte_of w dir (page_at va i) = shared_entry r i) \<and>
    (\<forall>a. (\<forall>i<n. drop_bit 12 a \<noteq> drop_bit 12 (page_at va i)) \<longrightarrow> pte_of w dir a = pte_of v dir a)"
    using n f
  proof (induction n arbitrary: w)
    case (Suc n)
    then obtain u where u: "fold_opt (attach_page r dir va) v [0..<n] = Some u" "attach_page r dir va u n = Some w"
      by (auto simp: fold_opt_append split: option.splits)
    have IH: "dir_wf u dir" "\<forall>i<n. pte_of u dir (page_at va i) = shared_entry r i"
      "\<forall>a. (\<forall>i<n. drop_bit 12 a \<noteq> drop_bit 12 (page_at va i)) \<longrightarrow> pte_of u dir a = pte_of v dir a"
      using Suc.IH [OF _ u(1)] Suc.prems(1) by simp_all
    note mp = vmm_map_page_spec [OF IH(1) u(2) [unfolded attach_page_def]]
    have "drop_bit 12 (page_at va i) \<noteq> drop_bit 12 (page_at va n)" if "i < n" for i
      using page_apart [OF va] that Suc.prems(1) by simp
    then show ?case using IH mp(1) mp(3) by (auto simp: less_Suc_eq shared_entry_def)
  qed (use wf in simp)
  then show "dir_wf w dir" "\<forall>i<n. pte_of w dir (page_at va i) = shared_entry r i"
    "\<forall>a. (\<forall>i<n. drop_bit 12 a \<noteq> drop_bit 12 (page_at va i)) \<longrightarrow> pte_of w dir a = pte_of v dir a" by blast+
qed

lemma detach_pages:
  assumes wf: "dir_wf (v\<lparr>vpmm := q\<rparr>) dir" and va: "va AND 0xFFF = 0"
    and e: "\<forall>i<m. pte_of v dir (page_at va i) = shared_entry r i" and n: "n \<le> m" "m \<le> 2 ^ 20"
  defines "w \<equiv> \<lambda>n. foldl (detach_page dir va) v [0..<n]"
  shows "dir_wf ((w n)\<lparr>vpmm := q\<rparr>) dir \<and> (\<forall>i. n \<le> i \<and> i < m \<longrightarrow> pte_of (w n) dir (page_at va i) = shared_entry r i)
    \<and> vpmm (w n) = free_frames (vpmm v) (map (\<lambda>i. phys_pages r ! i AND PAGE_MASK) [0..<n])"
  using n(1)
proof (induction n)
  case (Suc n)
  note IH = Suc.IH [OF Suc_leD [OF Suc.prems]]
  have w: "w (Suc n) = vmm_unmap_page (w n) dir (page_at va n)" by (simp add: w_def detach_page_def)
  from IH have old: "pte_of (w n) dir (page_at va i) = shared_entry r i" if "n \<le> i" "i < m" for i using that by blast
  note un = unmap_pte [OF IH [THEN conjunct1], where va = "page_at va n"]
  have en: "pte_of (w n) dir (page_at va n) = shared_entry r n" using old Suc.prems by simp
  have "pte_of (w (Suc n)) dir (page_at va i) = shared_entry r i" if "Suc n \<le> i" "i < m" for i
    using un(2) [of "page_at va i"] page_apart [OF va, of i n] old [of i] that n(2) by (simp add: w)
  moreover have "vpmm (w (Suc n)) = pmm_free_page (vpmm (w n)) (phys_pages r ! n AND PAGE_MASK)"
    using un(3) shared_entry_bits [of r n] by (simp add: w en)
  ultimately show ?case using un(1) IH by (simp add: w free_frames_def)
qed (use wf e in \<open>simp add: w_def free_frames_def\<close>)


lemma shm_slotD:
  "shm_get s key = Some r \<Longrightarrow> \<exists>i. shm_slot s key = Some i \<and> i < length (shm_regions s) \<and> shm_regions s ! i = Some r \<and> shm_key r = key"
  by (auto simp: shm_get_def shm_slot_def dest!: find_index_SomeD split: option.splits)

text \<open>Replacing a region by one with the same key leaves it where it is found.\<close>

lemma shm_slot_update:
  assumes "shm_slot s key = Some i" and "shm_key r = key" and "shm_regions t = (shm_regions s)[i := Some r]"
  shows "shm_slot t key = Some i" "shm_get t key = Some r"
proof -
  note i = find_index_SomeD [OF assms(1) [unfolded shm_slot_def]]
  show *: "shm_slot t key = Some i"
    unfolding shm_slot_def assms(3) using i assms(2) by (intro find_index_SomeI) auto
  then show "shm_get t key = Some r" using i assms(3) by (simp add: shm_get_def)
qed

subsection \<open>Properties\<close>


definition demo_shm :: shm where
  "demo_shm = \<lparr>shm_regions = [Some \<lparr>shm_key = 7, shm_size = 0x1800, phys_pages = [0x3000, 0x4000], shm_refs = 1,
       shm_flags = 0, shm_owner = 0\<rparr>, None], shm_key_counter = 8, shm_vm = demo_vmm\<rparr>"

lemma demo_shm_alloc: "pmm_alloc_page (vpmm demo_vmm) = (0x5000, take_page (vpmm demo_vmm) 5)"
proof -
  have "pmm_shape (vpmm demo_vmm)" using demo_vmm_wf by (simp add: dir_wf_def mem_ok_def pmm_ready_def)
  moreover have "find (free_page (vpmm demo_vmm)) [0..<total_pages (vpmm demo_vmm)] = Some 5" by code_simp
  ultimately show ?thesis by (simp add: pmm_alloc_page_take PAGE_SIZE_def)
qed



text \<open>C12: a process that attaches a region sees its frames. In a well-formed address space the attached range
  translates, page by page, to the frames of the region, every address outside the range translates as before,
  the address space stays well formed, and the region has one more reference.\<close>
theorem shm_attach_maps:
  assumes "dir_wf (shm_vm s) dir" and "shm_get s key = Some r" and "length (phys_pages r) \<le> 2 ^ 20"
    and "shm_attach s key dir = Some (va, t)"
  shows "dir_wf (shm_vm t) dir \<and> shm_get t key = Some (r\<lparr>shm_refs := shm_refs r + 1\<rparr>) \<and>
    (\<forall>i<length (phys_pages r). \<forall>a. drop_bit 12 a = drop_bit 12 (page_at va i) \<longrightarrow>
       vmm_get_physical (shm_vm t) dir a = (phys_pages r ! i AND PAGE_MASK) OR (a AND 0xFFF)) \<and>
    (\<forall>a. (\<forall>i<length (phys_pages r). drop_bit 12 a \<noteq> drop_bit 12 (page_at va i)) \<longrightarrow>
       vmm_get_physical (shm_vm t) dir a = vmm_get_physical (shm_vm s) dir a)"
proof -
  obtain i where i: "shm_slot s key = Some i" "shm_regions s ! i = Some r" "shm_key r = key"
    using shm_slotD [OF assms(2)] by blast
  from assms(4) i have va: "va AND 0xFFF = 0"
    and f: "fold_opt (attach_page r dir va) (shm_vm s) [0..<length (phys_pages r)] = Some (shm_vm t)"
    and t: "shm_regions t = (shm_regions s)[i := Some (r\<lparr>shm_refs := shm_refs r + 1\<rparr>)]"
    by (auto simp: shm_attach_def Let_def choose_vaddr_aligned split: option.splits)
  note ap = attach_pages [OF assms(1) va assms(3) f]
  have "pte_of (shm_vm t) dir a = shared_entry r j"
    if "j < length (phys_pages r)" "drop_bit 12 a = drop_bit 12 (page_at va j)" for j a
    using ap(2) that pte_of_page [OF that(2)] by simp
  with ap(3) shm_slot_update(2) [OF i(1) _ t] i(3) show ?thesis
    unfolding get_physical_pte [OF ap(1)] get_physical_pte [OF assms(1)]
    using ap(1) shared_entry_bits by auto
qed

lemma demo_shm_get:
  "shm_get demo_shm 7 = Some \<lparr>shm_key = 7, shm_size = 0x1800, phys_pages = [0x3000, 0x4000], shm_refs = 1,
     shm_flags = 0, shm_owner = 0\<rparr>"
  by (simp add: shm_get_def shm_slot_def demo_shm_def)

lemma demo_shm_wf: "dir_wf (shm_vm demo_shm) 0x1000"
  using demo_vmm_wf by (simp add: demo_shm_def)

lemma demo_attach: "\<exists>t. shm_attach demo_shm 7 0x1000 = Some (0x40000000, t)"
proof -
  let ?r = "the (shm_regions demo_shm ! 0)"
  have len: "shm_slot demo_shm 7 = Some 0" "length (phys_pages ?r) = 2" "shm_vm demo_shm = demo_vmm"
    by (simp_all add: shm_slot_def demo_shm_def)
  have va: "choose_vaddr demo_vmm 0x1000 2 = 0x40000000" by code_simp
  have "get_page_table demo_vmm 0x1000 (page_at 0x40000000 0) = 0"
    "entry demo_vmm 0x1000 (pde_index (page_at 0x40000000 0)) AND PTE_PRESENT = 0" by code_simp+
  then obtain u where u: "attach_page ?r 0x1000 0x40000000 demo_vmm 0 = Some u"
    by (simp add: attach_page_def vmm_map_page_def create_page_table_def demo_shm_alloc Let_def)
  note mp = vmm_map_page_spec [OF demo_vmm_wf u [unfolded attach_page_def]]
  have "pte_of u 0x1000 (page_at 0x40000000 0) = shared_entry ?r 0" using mp(3) by (simp add: shared_entry_def)
  then have "pte_of u 0x1000 (page_at 0x40000000 0) \<noteq> 0" using shared_entry_bits(2) [of ?r 0] by auto
  moreover have "pde_index (page_at 0x40000000 0) = pde_index (page_at 0x40000000 1)" by code_simp
  ultimately have "present u 0x1000 (pde_index (page_at 0x40000000 1))" by (auto simp: pte_of_def split: if_splits)
  then have "get_page_table u 0x1000 (page_at 0x40000000 1) \<noteq> 0"
    using mp(1) pde_index_less by (auto simp: dir_wf_def owned_def get_page_table_eq)
  then obtain w where "attach_page ?r 0x1000 0x40000000 u 1 = Some w"
    by (simp add: attach_page_def vmm_map_page_def Let_def)
  moreover have "[0..<2] = [0, 1 :: nat]" by (simp add: upt_rec)
  ultimately show ?thesis using u va by (simp add: shm_attach_def len Let_def)
qed

theorem shm_attach_maps_witness:
  "\<exists>t. shm_attach demo_shm 7 0x1000 = Some (0x40000000, t) \<and> vmm_get_physical (shm_vm t) 0x1000 0x40001123 = 0x4123"
proof -
  obtain t where t: "shm_attach demo_shm 7 0x1000 = Some (0x40000000, t)" using demo_attach by blast
  have "drop_bit 12 (0x40001123 :: u32) = drop_bit 12 (page_at 0x40000000 1)" by code_simp
  moreover have "(1 :: nat) < 2" "(0x4000 AND PAGE_MASK) OR (0x40001123 AND 0xFFF) = (0x4123 :: u32)" by simp_all
  ultimately show ?thesis using shm_attach_maps [OF demo_shm_wf demo_shm_get _ t] t by fastforce
qed

text \<open>C37: attaching a region and detaching it again gives its frames to the page allocator while the region
  still exists. Whoever holds the other references keeps the same frames mapped, the region is found under its
  key with the same frames and the same reference count, and every one of these frames can be allocated again.\<close>
theorem shm_detach_frees_shared:
  assumes "dir_wf (shm_vm s) dir" and "shm_get s key = Some r" and "length (phys_pages r) \<le> 2 ^ 20"
    and "sint (shm_refs r) > 0" and "\<forall>a\<in>set (phys_pages r). a AND PAGE_MASK = a"
    and "shm_attach s key dir = Some (va, t)"
  shows "shm_get (shm_detach t key va dir) key = Some r \<and>
    (\<forall>a\<in>set (phys_pages r). page_index a \<notin> pmm_used (vpmm (shm_vm (shm_detach t key va dir))))"
proof -
  let ?n = "length (phys_pages r)" and ?r = "r\<lparr>shm_refs := shm_refs r + 1\<rparr>"
  obtain i where i: "shm_slot s key = Some i" "shm_regions s ! i = Some r" "shm_key r = key" "i < length (shm_regions s)"
    using shm_slotD [OF assms(2)] by blast
  from assms(6) i have va: "va AND 0xFFF = 0"
    and f: "fold_opt (attach_page r dir va) (shm_vm s) [0..<?n] = Some (shm_vm t)"
    and t: "shm_regions t = (shm_regions s)[i := Some ?r]"
    by (auto simp: shm_attach_def Let_def choose_vaddr_aligned split: option.splits)
  note ap = attach_pages [OF assms(1) va assms(3) f]
  have slot: "shm_slot t key = Some i" using shm_slot_update(1) [OF i(1) _ t] i(3) by simp
  define w where "w = foldl (detach_page dir va) (shm_vm t) [0..<?n]"
  have d: "shm_detach t key va dir = t\<lparr>shm_regions := (shm_regions t)[i := Some r], shm_vm := w\<rparr>"
    using slot t i(4) assms(4) by (simp add: shm_detach_def w_def)
  have "map (\<lambda>i. phys_pages r ! i AND PAGE_MASK) [0..<?n] = phys_pages r"
    using assms(5) by (intro nth_equalityI) auto
  then have "vpmm w = free_frames (vpmm (shm_vm t)) (phys_pages r)"
    using detach_pages [where v = "shm_vm t" and q = "vpmm (shm_vm t)" and dir = dir and va = va and m = ?n and r = r and n = ?n] ap(1, 2) va assms(3) by (simp add: w_def)
  moreover have "pmm_shape (vpmm (shm_vm t))" using ap(1) by (simp add: dir_wf_def mem_ok_def pmm_ready_def)
  ultimately have "\<forall>a\<in>set (phys_pages r). page_index a \<notin> pmm_used (vpmm w)"
    using free_frames_used(2) assms(5) aligned_mod by simp
  moreover have "shm_get (shm_detach t key va dir) key = Some r"
    using shm_slot_update(2) [OF slot i(3), of "shm_detach t key va dir"] by (simp add: d)
  ultimately show ?thesis by (simp add: d)
qed

theorem shm_detach_frees_shared_witness:
  "{3, 4} \<subseteq> pmm_used (vpmm (shm_vm demo_shm)) \<and>
   (\<exists>t. shm_attach demo_shm 7 0x1000 = Some (0x40000000, t) \<and> shm_get (shm_detach t 7 0x40000000 0x1000) 7 = shm_get demo_shm 7
      \<and> {3, 4} \<inter> pmm_used (vpmm (shm_vm (shm_detach t 7 0x40000000 0x1000))) = {})"
proof -
  obtain t where t: "shm_attach demo_shm 7 0x1000 = Some (0x40000000, t)" using demo_attach by blast
  have "{3, 4} \<subseteq> pmm_used (vpmm (shm_vm demo_shm))" using demo_vmm_used by (simp add: demo_shm_def)
  with shm_detach_frees_shared [OF demo_shm_wf demo_shm_get _ _ _ t] t show ?thesis
    by (simp add: PAGE_SIZE_def demo_shm_get)
qed

end
