(* ===== verification/Kheap.thy ===== *)
theory Kheap
  imports Vmm
begin

text \<open>
  The kernel heap, \<open>kernel/kheap.c\<close>: a list of blocks linked through headers in memory, first-fit
  allocation with splitting, release with coalescing, expansion through the physical and the virtual
  memory manager. The headers are an explicit store from addresses to header records, the payload
  bytes a second store; the layout invariant shows that the two never meet. A header takes 16 bytes.
  \<open>None\<close> is a walk that does not end, a NULL dereference, or a kernel panic.
\<close>

subsection \<open>State\<close>

abbreviation "HEAP_BLOCK_MAGIC \<equiv> 0xCAFE :: u16"

record heap_header =
  magic :: u16
  hsize :: u32
  is_free :: bool
  hnext :: u32

record kheap =
  heap_start :: u32
  heap_end :: u32
  heap_current :: u32
  heap_first :: u32
  hdr :: "u32 \<Rightarrow> heap_header"
  bytes :: "u32 \<Rightarrow> u8"
  hv :: vmm

definition align_up :: "u32 \<Rightarrow> u32 \<Rightarrow> u32" where
  "align_up v align = (v + align - 1) AND NOT (align - 1)"

subsection \<open>Growing the heap\<close>

text \<open>Zeroing a fresh page clears the payload bytes and any header in it.\<close>

definition clear_page :: "kheap \<Rightarrow> u32 \<Rightarrow> kheap" where
  "clear_page h a =
     h\<lparr>bytes := (\<lambda>b. if b - a < 4096 then 0 else bytes h b),
       hdr := (\<lambda>b. if b - a < 4096 then \<lparr>magic = 0, hsize = 0, is_free = False, hnext = 0\<rparr> else hdr h b)\<rparr>"

text \<open>
  One page: \<open>None\<close> panics in \<open>vmm_map_page\<close>, \<open>Some (False, _)\<close> ran out of frames.
\<close>

definition heap_map_page :: "kheap \<Rightarrow> (bool \<times> kheap) option" where
  "heap_map_page h =
     (let (phys, q) = pmm_alloc_page (vpmm (hv h)); h1 = h\<lparr>hv := (hv h)\<lparr>vpmm := q\<rparr>\<rparr> in
      if phys = 0 then Some (False, h1)
      else case vmm_map_page (hv h1) (vmm_get_current_dir (hv h1)) (heap_current h1) phys 3 of
             None \<Rightarrow> None
           | Some v \<Rightarrow> Some (True, h1\<lparr>hv := v\<rparr>))"

fun expand_pages :: "kheap \<Rightarrow> nat \<Rightarrow> kheap option" where
  "expand_pages h 0 = Some (h\<lparr>heap_end := heap_current h\<rparr>)"
| "expand_pages h (Suc n) =
     (case heap_map_page h of
        None \<Rightarrow> None
      | Some (False, h1) \<Rightarrow> Some h1
      | Some (True, h1) \<Rightarrow>
          (let h2 = clear_page h1 (heap_current h1)
           in expand_pages (h2\<lparr>heap_current := heap_current h2 + 4096\<rparr>) n))"

definition expand_heap :: "kheap \<Rightarrow> u32 \<Rightarrow> kheap option" where
  "expand_heap h sz = expand_pages h (unat (align_up (sz + 16) 4096 div 4096))"

fun init_pages :: "kheap \<Rightarrow> nat \<Rightarrow> (bool \<times> kheap) option" where
  "init_pages h 0 = Some (True, h)"
| "init_pages h (Suc n) =
     (case heap_map_page h of
        None \<Rightarrow> None
      | Some (False, h1) \<Rightarrow> Some (False, h1)
      | Some (True, h1) \<Rightarrow> init_pages (h1\<lparr>heap_current := heap_current h1 + 4096\<rparr>) n)"

definition kheap_init :: "kheap \<Rightarrow> u32 \<Rightarrow> u32 \<Rightarrow> kheap option" where
  "kheap_init h start sz =
     (case init_pages (h\<lparr>heap_start := start, heap_current := start, heap_end := start + sz\<rparr>)
             (unat ((sz + 4096 - 1) div 4096)) of
        None \<Rightarrow> None
      | Some (False, h1) \<Rightarrow> Some h1
      | Some (True, h1) \<Rightarrow>
          Some (h1\<lparr>heap_first := start,
                   hdr := (hdr h1)(start := (hdr h1 start)\<lparr>magic := HEAP_BLOCK_MAGIC, hsize := sz - 16,
                                                is_free := True, hnext := 0\<rparr>)\<rparr>))"

subsection \<open>Allocation\<close>

datatype search = Corrupt | Found u32 | Exhausted

partial_function (option) heap_search :: "(u32 \<Rightarrow> heap_header) \<Rightarrow> u32 \<Rightarrow> u32 \<Rightarrow> search option" where
  "heap_search st sz cur =
     (if cur = 0 then Some Exhausted
      else if magic (st cur) \<noteq> HEAP_BLOCK_MAGIC then Some Corrupt
      else if is_free (st cur) \<and> hsize (st cur) \<ge> sz then Some (Found cur)
      else heap_search st sz (hnext (st cur)))"

partial_function (option) heap_tail :: "(u32 \<Rightarrow> heap_header) \<Rightarrow> u32 \<Rightarrow> u32 option" where
  "heap_tail st cur = (if hnext (st cur) = 0 then Some cur else heap_tail st (hnext (st cur)))"

text \<open>Taking a free block: split it when the rest can hold a header and eight bytes.\<close>

definition take_block :: "kheap \<Rightarrow> u32 \<Rightarrow> u32 \<Rightarrow> kheap" where
  "take_block h cur sz =
     (let c = hdr h cur in
      if hsize c > sz + 16 + 8
      then let nb = cur + 16 + sz;
               new = (hdr h nb)\<lparr>magic := HEAP_BLOCK_MAGIC, hsize := hsize c - sz - 16, is_free := True,
                        hnext := hnext c\<rparr>;
               h1 = (hdr h)(nb := new)
           in h\<lparr>hdr := h1(cur := (h1 cur)\<lparr>hsize := sz, hnext := nb, is_free := False\<rparr>)\<rparr>
      else h\<lparr>hdr := (hdr h)(cur := c\<lparr>is_free := False\<rparr>)\<rparr>)"

text \<open>The new block after \<open>expand_heap\<close>, linked behind the last one.\<close>

definition append_block :: "kheap \<Rightarrow> u32 \<Rightarrow> (u32 \<times> kheap) option" where
  "append_block h sz =
     (let nb = heap_current h - align_up (sz + 16) 4096;
          h1 = (hdr h)(nb := (hdr h nb)\<lparr>magic := HEAP_BLOCK_MAGIC, hsize := sz, is_free := False, hnext := 0\<rparr>)
      in if heap_first h = 0 then None
         else case heap_tail h1 (heap_first h) of
                None \<Rightarrow> None
              | Some t \<Rightarrow> Some (nb + 16, h\<lparr>hdr := h1(t := (h1 t)\<lparr>hnext := nb\<rparr>)\<rparr>))"

definition kmalloc :: "kheap \<Rightarrow> u32 \<Rightarrow> (u32 \<times> kheap) option" where
  "kmalloc h n =
     (if n = 0 then Some (0, h)
      else let sz = align_up n 8 in
           case heap_search (hdr h) sz (heap_first h) of
             None \<Rightarrow> None
           | Some Corrupt \<Rightarrow> Some (0, h)
           | Some (Found cur) \<Rightarrow> Some (cur + 16, take_block h cur sz)
           | Some Exhausted \<Rightarrow>
               (case expand_heap h sz of None \<Rightarrow> None | Some h1 \<Rightarrow> append_block h1 sz))"

subsection \<open>Release\<close>

text \<open>The last node before \<open>target\<close> on the walk from \<open>cur\<close> (0 when there is none).\<close>

partial_function (option) heap_prev :: "(u32 \<Rightarrow> heap_header) \<Rightarrow> u32 \<Rightarrow> u32 \<Rightarrow> u32 \<Rightarrow> u32 option" where
  "heap_prev st target prev cur =
     (if cur \<noteq> 0 \<and> cur \<noteq> target then heap_prev st target cur (hnext (st cur)) else Some prev)"

definition merge_next :: "(u32 \<Rightarrow> heap_header) \<Rightarrow> u32 \<Rightarrow> (u32 \<Rightarrow> heap_header)" where
  "merge_next st x =
     (let nx = hnext (st x) in
      if nx \<noteq> 0 \<and> magic (st nx) = HEAP_BLOCK_MAGIC \<and> is_free (st nx)
      then st(x := (st x)\<lparr>hsize := hsize (st x) + (16 + hsize (st nx)), hnext := hnext (st nx)\<rparr>)
      else st)"

definition kfree :: "kheap \<Rightarrow> u32 \<Rightarrow> kheap option" where
  "kfree h ptr =
     (if ptr = 0 then Some h
      else let x = ptr - 16 in
           if magic (hdr h x) \<noteq> HEAP_BLOCK_MAGIC then Some h
           else let h1 = merge_next ((hdr h)(x := (hdr h x)\<lparr>is_free := True\<rparr>)) x in
                case heap_prev h1 x 0 (heap_first h) of
                  None \<Rightarrow> None
                | Some prev \<Rightarrow>
                    Some (h\<lparr>hdr :=
                      (if prev \<noteq> 0 \<and> magic (h1 prev) = HEAP_BLOCK_MAGIC \<and> is_free (h1 prev)
                       then h1(prev := (h1 prev)\<lparr>hsize := hsize (h1 prev) + (16 + hsize (h1 x)),
                                                hnext := hnext (h1 x)\<rparr>)
                       else h1)\<rparr>))"

subsection \<open>Derived allocation functions and statistics\<close>

definition kcalloc :: "kheap \<Rightarrow> u32 \<Rightarrow> u32 \<Rightarrow> (u32 \<times> kheap) option" where
  "kcalloc h num sz =
     (if num \<noteq> 0 \<and> sz \<noteq> 0 \<and> num > (- 1) div sz then Some (0, h)
      else let tot = num * sz in
           case kmalloc h tot of
             None \<Rightarrow> None
           | Some (p, h1) \<Rightarrow>
               if p = 0 then Some (0, h1)
               else Some (p, h1\<lparr>bytes := (\<lambda>b. if b - p < tot then 0 else bytes h1 b)\<rparr>))"


definition kheap_get_start :: "kheap \<Rightarrow> u32" where
  "kheap_get_start h = heap_start h"

definition kheap_get_current :: "kheap \<Rightarrow> u32" where
  "kheap_get_current h = heap_current h"

partial_function (option) heap_used_from :: "(u32 \<Rightarrow> heap_header) \<Rightarrow> u32 \<Rightarrow> u32 \<Rightarrow> u32 option" where
  "heap_used_from st used cur =
     (if cur = 0 then Some used
      else heap_used_from st
             (if magic (st cur) = HEAP_BLOCK_MAGIC \<and> \<not> is_free (st cur) then used + hsize (st cur) else used)
             (hnext (st cur)))"

definition kheap_get_used :: "kheap \<Rightarrow> u32 option" where
  "kheap_get_used h = heap_used_from (hdr h) 0 (heap_first h)"

subsection \<open>Block lists\<close>

text \<open>
  \<open>path st xs b\<close>: following \<open>next\<close> through the blocks \<open>xs\<close> ends at \<open>b\<close>. \<open>layout st xs lim\<close>:
  the blocks lie one behind the other, each with its header and payload, below \<open>lim\<close>.
\<close>

fun path :: "(u32 \<Rightarrow> heap_header) \<Rightarrow> u32 list \<Rightarrow> u32 \<Rightarrow> bool" where
  "path st [] b \<longleftrightarrow> True"
| "path st (x # xs) b \<longleftrightarrow> hnext (st x) = hd (xs @ [b]) \<and> path st xs b"

fun layout :: "(u32 \<Rightarrow> heap_header) \<Rightarrow> u32 list \<Rightarrow> nat \<Rightarrow> bool" where
  "layout st [] lim \<longleftrightarrow> True"
| "layout st (x # xs) lim \<longleftrightarrow>
     unat x + 16 + unat (hsize (st x)) \<le> hd (map unat xs @ [lim]) \<and> layout st xs lim"

definition heap_ok :: "kheap \<Rightarrow> u32 list \<Rightarrow> bool" where
  "heap_ok h xs \<longleftrightarrow> xs \<noteq> [] \<and> (\<forall>x \<in> set xs. 8 \<le> unat x) \<and> heap_first h = hd xs \<and> path (hdr h) xs 0
     \<and> layout (hdr h) xs (unat (heap_current h)) \<and> (\<forall>x \<in> set xs. magic (hdr h x) = HEAP_BLOCK_MAGIC)"

lemma path_append: "path st (us @ vs) b \<longleftrightarrow> path st us (hd (vs @ [b])) \<and> path st vs b"
  by (induction us) (auto simp: hd_append)

lemma layout_append:
  "layout st (us @ vs) lim \<longleftrightarrow> layout st us (hd (map unat vs @ [lim])) \<and> layout st vs lim"
  by (induction us) (auto simp: hd_append hd_map)

lemma path_cong: "(\<And>x. x \<in> set xs \<Longrightarrow> hnext (st' x) = hnext (st x)) \<Longrightarrow> path st' xs b = path st xs b"
  by (induction xs) auto

lemma layout_cong: "(\<And>x. x \<in> set xs \<Longrightarrow> hsize (st' x) = hsize (st x)) \<Longrightarrow> layout st' xs l = layout st xs l"
  by (induction xs) auto

lemma layout_hd_lim: "layout st xs lim \<Longrightarrow> hd (map unat xs @ [lim]) \<le> lim"
proof (induction xs)
  case (Cons x xs)
  then have "hd (map unat xs @ [lim]) \<le> lim" "unat x + 16 + unat (hsize (st x)) \<le> hd (map unat xs @ [lim])"
    by simp_all
  then show ?case by simp
qed simp

lemma layout_hd_le:
  "layout st xs lim \<Longrightarrow> x \<in> set xs \<Longrightarrow> hd (map unat xs @ [lim]) \<le> unat x \<and> unat x + 16 + unat (hsize (st x)) \<le> lim"
proof (induction xs)
  case (Cons y ys)
  have y: "unat y + 16 + unat (hsize (st y)) \<le> hd (map unat ys @ [lim])" "layout st ys lim"
    using Cons.prems by simp_all
  then have "unat y + 16 + unat (hsize (st y)) \<le> lim" using layout_hd_lim [OF y(2)] by simp
  with y Cons show ?case by (cases "x = y") auto
qed simp

lemma layout_before:
  assumes "layout st (us @ x # vs) lim" and "y \<in> set vs"
  shows "unat x + 16 + unat (hsize (st x)) \<le> unat y"
proof -
  have l: "layout st (x # vs) lim" using assms(1) by (simp add: layout_append)
  then have "unat x + 16 + unat (hsize (st x)) \<le> hd (map unat vs @ [lim])" "layout st vs lim" by auto
  with layout_hd_le [of st vs lim y] assms(2) show ?thesis by simp
qed

lemma layout_after:
  assumes "layout st (us @ x # vs) lim" and "y \<in> set us"
  shows "unat y + 16 + unat (hsize (st y)) \<le> unat x"
  using layout_hd_le [of st us "hd (map unat (x # vs) @ [lim])" y] assms by (simp add: layout_append)

text \<open>The blocks of a laid-out list do not overlap; in particular the list has no duplicates.\<close>

lemma layout_disjoint:
  assumes "layout st xs lim" and "x \<in> set xs" and "y \<in> set xs" and "x \<noteq> y"
  shows "unat x + 16 + unat (hsize (st x)) \<le> unat y \<or> unat y + 16 + unat (hsize (st y)) \<le> unat x"
proof -
  obtain us vs where s: "xs = us @ x # vs" using assms(2) split_list by fast
  with assms consider "y \<in> set us" | "y \<in> set vs" by auto
  then show ?thesis
    using layout_before [of st us x vs lim y] layout_after [of st us x vs lim y] assms(1) s by cases auto
qed

lemma layout_distinct: "layout st xs lim \<Longrightarrow> distinct xs"
proof (induction xs)
  case (Cons x xs)
  have "x \<notin> set xs"
    using layout_before [of st "[]" x xs lim x] Cons.prems by auto
  with Cons show ?case by simp
qed simp

lemma heap_ok_distinct: "heap_ok h xs \<Longrightarrow> distinct xs"
  by (auto simp: heap_ok_def intro: layout_distinct)

subsection \<open>The walks end\<close>

definition fits :: "(u32 \<Rightarrow> heap_header) \<Rightarrow> u32 \<Rightarrow> u32 \<Rightarrow> bool" where
  "fits st sz x \<longleftrightarrow> is_free (st x) \<and> hsize (st x) \<ge> sz"

lemma heap_search_walk:
  "path st xs 0 \<Longrightarrow> 0 \<notin> set xs \<Longrightarrow> \<forall>x \<in> set xs. magic (st x) = HEAP_BLOCK_MAGIC \<Longrightarrow>
     heap_search st sz (hd (xs @ [0])) =
       Some (case find (fits st sz) xs of None \<Rightarrow> Exhausted | Some x \<Rightarrow> Found x)"
proof (induction xs)
  case Nil
  show ?case by (subst heap_search.simps) simp
next
  case (Cons x xs)
  then have "heap_search st sz (hd (xs @ [0])) =
      Some (case find (fits st sz) xs of None \<Rightarrow> Exhausted | Some x \<Rightarrow> Found x)" by simp
  with Cons.prems show ?case by (subst heap_search.simps) (simp add: fits_def [of st sz x])
qed

lemma heap_tail_walk:
  "path st xs 0 \<Longrightarrow> 0 \<notin> set xs \<Longrightarrow> xs \<noteq> [] \<Longrightarrow> heap_tail st (hd xs) = Some (last xs)"
proof (induction xs)
  case (Cons x xs)
  show ?case
  proof (cases "xs = []")
    case True
    with Cons.prems show ?thesis by (subst heap_tail.simps) simp
  next
    case False
    have "hnext (st x) = hd xs" using Cons.prems False by (simp add: hd_append)
    moreover have "hd xs \<noteq> 0" using Cons.prems(2) hd_in_set [OF False] by (metis list.set_intros(2))
    moreover note False
    ultimately show ?thesis using Cons by (subst heap_tail.simps) simp
  qed
qed simp

lemma heap_prev_walk:
  "path st (us @ x # vs) 0 \<Longrightarrow> 0 \<notin> set (us @ x # vs) \<Longrightarrow> x \<notin> set us \<Longrightarrow>
     heap_prev st x p (hd (us @ [x])) = Some (last (p # us))"
proof (induction us arbitrary: p)
  case Nil
  show ?case by (subst heap_prev.simps) simp
next
  case (Cons u us)
  have "heap_prev st x u (hd (us @ [x])) = Some (last (u # us))" using Cons by auto
  moreover have "hnext (st u) = hd (us @ [x])" using Cons.prems(1) by (cases us) auto
  ultimately show ?case using Cons.prems by (subst heap_prev.simps) auto
qed

lemma heap_ok_nonzero: "heap_ok h xs \<Longrightarrow> 0 \<notin> set xs"
  by (auto simp: heap_ok_def)

lemma heap_first_walk: "heap_ok h xs \<Longrightarrow> heap_first h = hd (xs @ [0])"
  by (auto simp: heap_ok_def hd_append)

lemma heap_search_ok:
  "heap_ok h xs \<Longrightarrow> heap_search (hdr h) sz (heap_first h) =
     Some (case find (fits (hdr h) sz) xs of None \<Rightarrow> Exhausted | Some x \<Rightarrow> Found x)"
  unfolding heap_first_walk
  by (rule heap_search_walk) (auto simp: heap_ok_def heap_ok_nonzero)

subsection \<open>Taking a block\<close>

definition live :: "kheap \<Rightarrow> u32 list \<Rightarrow> u32 set" where
  "live h xs = {x \<in> set xs. \<not> is_free (hdr h x)}"

text \<open>What an allocation of block \<open>x\<close> promises to the owners of the other blocks.\<close>

definition allocates :: "kheap \<Rightarrow> u32 list \<Rightarrow> u32 \<Rightarrow> u32 \<Rightarrow> kheap \<Rightarrow> u32 list \<Rightarrow> bool" where
  "allocates h xs x sz h' ys \<longleftrightarrow> heap_ok h' ys \<and> x \<notin> live h xs \<and> live h' ys = insert x (live h xs)
     \<and> (\<forall>y \<in> live h xs. hsize (hdr h' y) = hsize (hdr h y)) \<and> sz \<le> hsize (hdr h' x)"

lemma split_sizes:
  assumes "unat x + 16 + unat s \<le> unat (lim :: u32)" and "8 \<le> unat x" and "sz \<le> s" and "s > sz + 16 + 8"
  shows "unat (x + 16 + sz :: u32) = unat x + 16 + unat sz" "unat (s - sz - 16) = unat s - unat sz - 16"
    "unat sz + 24 < unat s"
proof -
  have b: "unat lim < 4294967296" by (rule unat_u32_less)
  have le: "unat sz \<le> unat s" using assms(3) by (simp add: word_le_nat_alt)
  have k: "unat (16 :: u32) = 16" "unat (8 :: u32) = 8" by simp_all
  have "unat (sz + 16 + 8) = unat sz + 24"
    using assms(1, 2) b le by (simp add: unat_word_ariths k)
  with assms(4) show lt: "unat sz + 24 < unat s" by (simp add: word_less_nat_alt)
  show "unat (x + 16 + sz :: u32) = unat x + 16 + unat sz"
    using assms(1, 2) b le lt by (simp add: unat_word_ariths k)
  have "16 \<le> s - sz" using lt le by (simp add: word_le_nat_alt unat_sub assms(3))
  then show "unat (s - sz - 16) = unat s - unat sz - 16"
    using assms(3) by (simp add: unat_sub)
qed

lemma take_block_ok:
  assumes ok: "heap_ok h (us @ x # vs)" and fit: "fits (hdr h) sz x"
  shows "\<exists>ys. allocates h (us @ x # vs) x sz (take_block h x sz) ys"
proof (cases "hsize (hdr h x) > sz + 16 + 8")
  case False
  define h' where "h' = take_block h x sz"
  have h': "hdr h' = (hdr h)(x := (hdr h x)\<lparr>is_free := False\<rparr>)" "heap_first h' = heap_first h"
      "heap_current h' = heap_current h"
    using False by (auto simp: h'_def take_block_def Let_def)
  have "path (hdr h') zs b = path (hdr h) zs b" "layout (hdr h') zs l = layout (hdr h) zs l" for zs b l
    by (auto intro!: path_cong layout_cong simp: h')
  then have "heap_ok h' (us @ x # vs)" using ok by (auto simp: heap_ok_def h')
  then have "allocates h (us @ x # vs) x sz h' (us @ x # vs)"
    using fit by (auto simp: allocates_def live_def h' fits_def)
  then show ?thesis by (auto simp: h'_def)
next
  case True
  define h' and nb and c where "h' = take_block h x sz" and "nb = x + 16 + sz" and "c = hdr h x"
  have lay: "layout (hdr h) (us @ x # vs) (unat (heap_current h))" and p: "path (hdr h) (us @ x # vs) 0"
    and lo: "\<forall>z \<in> set (us @ x # vs). 8 \<le> unat z" and m: "\<forall>z \<in> set (us @ x # vs). magic (hdr h z) = HEAP_BLOCK_MAGIC"
    using ok by (auto simp: heap_ok_def)
  have xle: "unat x + 16 + unat (hsize c) \<le> unat (heap_current h)"
    using layout_hd_le [OF lay, of x] by (simp add: c_def)
  have sizes: "unat nb = unat x + 16 + unat sz" "unat (hsize c - sz - 16) = unat (hsize c) - unat sz - 16"
      "unat sz + 24 < unat (hsize c)"
    using split_sizes [OF xle, of sz] lo fit True by (auto simp: nb_def c_def fits_def)
  have nb: "nb \<notin> set (us @ x # vs)" "nb \<noteq> x"
    using layout_before [OF lay, of nb] layout_after [OF lay, of nb] sizes c_def by auto
  have h': "hdr h' = (hdr h)(nb := (hdr h nb)\<lparr>magic := HEAP_BLOCK_MAGIC, hsize := hsize c - sz - 16,
        is_free := True, hnext := hnext c\<rparr>, x := c\<lparr>hsize := sz, hnext := nb, is_free := False\<rparr>)"
      "heap_first h' = heap_first h" "heap_current h' = heap_current h"
    using True nb(2) by (auto simp: h'_def take_block_def Let_def nb_def c_def)
  have dist: "x \<notin> set us" "x \<notin> set vs" using layout_distinct [OF lay] by auto
  have same: "path (hdr h') zs b = path (hdr h) zs b" "layout (hdr h') zs l = layout (hdr h) zs l"
    if "x \<notin> set zs" "nb \<notin> set zs" for zs b l
    using that by (auto intro!: path_cong layout_cong simp: h')
  have "path (hdr h') (us @ x # nb # vs) 0"
    using p dist nb same by (auto simp: path_append h' c_def)
  moreover have "layout (hdr h') (us @ x # nb # vs) (unat (heap_current h))"
    using lay dist nb same sizes by (auto simp: layout_append h' c_def)
  ultimately have "heap_ok h' (us @ x # nb # vs)"
    using ok lo m sizes nb by (auto simp: heap_ok_def h' c_def hd_append)
  then have "allocates h (us @ x # vs) x sz h' (us @ x # nb # vs)"
    using fit nb by (auto simp: allocates_def live_def h' fits_def)
  then show ?thesis by (auto simp: h'_def)
qed

subsection \<open>Growing\<close>

lemma heap_map_page_fields:
  "heap_map_page h = Some (r, h') \<Longrightarrow> hdr h' = hdr h \<and> heap_first h' = heap_first h \<and> heap_current h' = heap_current h"
  by (auto simp: heap_map_page_def Let_def split: prod.splits if_splits option.splits)

lemma clear_page_below:
  assumes "unat b < unat a" and "unat a + 4096 \<le> 4294967296"
  shows "hdr (clear_page h a) b = hdr h b"
proof -
  have "unat (b - a) = 4294967296 - (unat a - unat b)"
    using assms(1) by (simp add: unat_sub_if' unat_word_ariths)
  then have "\<not> b - a < 4096" using assms by (simp add: word_less_nat_alt)
  then show ?thesis by (simp add: clear_page_def)
qed

lemma expand_pages_below:
  "expand_pages h n = Some h' \<Longrightarrow> unat (heap_current h) + n * 4096 < 4294967296 \<Longrightarrow>
     heap_first h' = heap_first h \<and> (\<forall>b. unat b < unat (heap_current h) \<longrightarrow> hdr h' b = hdr h b)"
proof (induction n arbitrary: h)
  case 0
  then show ?case by auto
next
  case (Suc n)
  obtain r g where g: "heap_map_page h = Some (r, g)"
    using Suc.prems(1) by (auto split: option.splits)
  note f = heap_map_page_fields [OF g]
  show ?case
  proof (cases r)
    case False
    with g f Suc.prems show ?thesis by auto
  next
    case True
    define k where "k = (clear_page g (heap_current g))\<lparr>heap_current := heap_current g + 4096\<rparr>"
    have rec: "expand_pages k n = Some h'"
      using Suc.prems(1) g True by (simp add: k_def clear_page_def Let_def)
    have cur: "unat (heap_current k) = unat (heap_current h) + 4096"
      using f Suc.prems(2) by (simp add: k_def unat_word_ariths)
    have "hdr k b = hdr h b" if "unat b < unat (heap_current h)" for b
      using clear_page_below [of b "heap_current h" g] that f Suc.prems(2) by (simp add: k_def)
    moreover have "heap_first k = heap_first h" using f by (simp add: k_def clear_page_def)
    moreover have "unat (heap_current k) + n * 4096 < 4294967296" using cur Suc.prems(2) by simp
    ultimately show ?thesis using Suc.IH [OF rec] cur by auto
  qed
qed

lemma expand_heap_below:
  assumes "expand_heap h sz = Some h'" and "unat (heap_current h) + unat (align_up (sz + 16) 4096) < 4294967296"
  shows "heap_first h' = heap_first h" "unat b < unat (heap_current h) \<Longrightarrow> hdr h' b = hdr h b"
proof -
  have "unat (align_up (sz + 16) 4096 div 4096) * 4096 \<le> unat (align_up (sz + 16) 4096)"
    by (simp add: unat_div_distrib)
  with expand_pages_below [OF assms(1) [unfolded expand_heap_def]] assms(2)
  show "heap_first h' = heap_first h" "unat b < unat (heap_current h) \<Longrightarrow> hdr h' b = hdr h b"
    by auto
qed

text \<open>Linking a block behind the last one.\<close>

lemma append_block_ok:
  assumes ok: "heap_ok h xs" and first: "heap_first g = heap_first h"
    and below: "\<And>b. unat b < unat (heap_current h) \<Longrightarrow> hdr g b = hdr h b"
    and cur: "heap_current g = heap_current h + align_up (sz + 16) 4096"
    and room: "unat (heap_current h) + 16 + unat sz \<le> unat (heap_current g)"
  shows "\<exists>h'. append_block g sz = Some (heap_current h + 16, h')
     \<and> allocates h xs (heap_current h) sz h' (xs @ [heap_current h])"
proof -
  let ?nb = "heap_current h"
  have lay: "layout (hdr h) xs (unat ?nb)" and p: "path (hdr h) xs 0" and ne: "xs \<noteq> []"
    and lo: "\<forall>x \<in> set xs. 8 \<le> unat x" and m: "\<forall>x \<in> set xs. magic (hdr h x) = HEAP_BLOCK_MAGIC"
    and f: "heap_first h = hd xs"
    using ok by (auto simp: heap_ok_def)
  have in_below: "unat x < unat ?nb" if "x \<in> set xs" for x
    using layout_hd_le [OF lay that] by simp
  then have nb: "?nb \<notin> set xs" by auto
  define st where "st = (hdr g)(?nb := (hdr g ?nb)\<lparr>magic := HEAP_BLOCK_MAGIC, hsize := sz, is_free := False, hnext := 0\<rparr>)"
  have st: "st x = hdr h x" if "x \<in> set xs" for x
    using below [OF in_below [OF that]] nb that by (auto simp: st_def)
  have "path st xs 0" using p st by (subst path_cong [of _ _ "hdr h"]) auto
  then have tail: "heap_tail st (heap_first g) = Some (last xs)"
    using heap_tail_walk [of st xs] ne heap_ok_nonzero [OF ok] by (simp add: first f)
  define st' where "st' = st(last xs := (st (last xs))\<lparr>hnext := ?nb\<rparr>)"
  define h' where "h' = g\<lparr>hdr := st'\<rparr>"
  have "heap_first g \<noteq> 0" using heap_ok_nonzero [OF ok] hd_in_set [OF ne] first f by metis
  then have res: "append_block g sz = Some (?nb + 16, h')"
    using tail by (simp add: append_block_def cur Let_def h'_def st'_def flip: st_def)
  obtain us t where us: "xs = us @ [t]" using ne by (cases xs rule: rev_cases) auto
  have t: "t \<notin> set us" "t \<noteq> ?nb" using layout_distinct [OF lay] nb by (auto simp: us)
  have "path st' us t" using p t st by (subst path_cong [of _ _ "hdr h"]) (auto simp: st'_def us path_append)
  then have path': "path st' (xs @ [?nb]) 0"
    using t by (simp add: us path_append) (simp add: st'_def us st_def)
  have "layout st' xs (unat ?nb)"
    using lay st by (subst layout_cong [of _ _ "hdr h"]) (auto simp: st'_def)
  then have lay': "layout st' (xs @ [?nb]) (unat (heap_current g))"
    using room t by (simp add: layout_append) (simp add: st'_def us st_def)
  have mag: "magic (st' x) = HEAP_BLOCK_MAGIC" "hsize (st' x) = hsize (hdr h x)" "is_free (st' x) = is_free (hdr h x)"
    if "x \<in> set xs" for x
    using m st [OF that] that st [of t] by (auto simp: st'_def us)
  have new: "st' ?nb = (hdr g ?nb)\<lparr>magic := HEAP_BLOCK_MAGIC, hsize := sz, is_free := False, hnext := 0\<rparr>"
    using t by (simp add: st'_def us st_def)
  have "8 \<le> unat ?nb" using lo in_below hd_in_set [OF ne] by fastforce
  then have "heap_ok h' (xs @ [?nb])"
    using path' lay' lo mag ne by (auto simp: heap_ok_def h'_def first f new)
  moreover have "live h' (xs @ [?nb]) = insert ?nb (live h xs)"
    using mag by (auto simp: live_def h'_def new)
  ultimately have "allocates h xs ?nb sz h' (xs @ [?nb])"
    using nb mag by (auto simp: allocates_def h'_def new live_def)
  with res show ?thesis by blast
qed

subsection \<open>Coalescing\<close>

definition absorb :: "(u32 \<Rightarrow> heap_header) \<Rightarrow> u32 \<Rightarrow> u32 \<Rightarrow> (u32 \<Rightarrow> heap_header)" where
  "absorb st p x = st(p := (st p)\<lparr>hsize := hsize (st p) + (16 + hsize (st x)), hnext := hnext (st x)\<rparr>)"

lemma absorb_ok:
  assumes p: "path st (us @ y # x # vs) 0" and lay: "layout st (us @ y # x # vs) (unat (lim :: u32))"
  shows "path (absorb st y x) (us @ y # vs) 0" "layout (absorb st y x) (us @ y # vs) (unat lim)"
proof -
  have d: "y \<notin> set us" "y \<notin> set vs" "y \<noteq> x" using layout_distinct [OF lay] by auto
  have same: "path (absorb st y x) zs b = path st zs b" "layout (absorb st y x) zs l = layout st zs l"
    if "y \<notin> set zs" for zs b l
    using that by (auto intro!: path_cong layout_cong simp: absorb_def)
  show "path (absorb st y x) (us @ y # vs) 0"
    using p d by (auto simp: path_append same) (auto simp: absorb_def)
  let ?b = "hd (map unat vs @ [unat lim])"
  have le: "unat y + 16 + unat (hsize (st y)) \<le> unat x" "unat x + 16 + unat (hsize (st x)) \<le> ?b"
    "layout st vs (unat lim)" "layout st us (unat y)"
    using lay by (auto simp: layout_append)
  have "?b < 4294967296"
    using layout_hd_lim [OF le(3)] unat_u32_less [of lim] by simp
  then have "unat (hsize (st y) + (16 + hsize (st x))) = unat (hsize (st y)) + 16 + unat (hsize (st x))"
    using le by (simp add: unat_word_ariths)
  then show "layout (absorb st y x) (us @ y # vs) (unat lim)"
    using le d by (auto simp: layout_append same) (auto simp: absorb_def)
qed

text \<open>
  A block list in which the free blocks may have been merged away: \<open>shrinks st xs st' ys\<close> says that
  \<open>ys\<close> keeps every block in use, with its size.
\<close>

definition blocks_ok :: "(u32 \<Rightarrow> heap_header) \<Rightarrow> u32 list \<Rightarrow> u32 \<Rightarrow> bool" where
  "blocks_ok st xs lim \<longleftrightarrow> path st xs 0 \<and> layout st xs (unat lim) \<and> (\<forall>x \<in> set xs. 8 \<le> unat x)
     \<and> (\<forall>x \<in> set xs. magic (st x) = HEAP_BLOCK_MAGIC)"

definition shrinks :: "(u32 \<Rightarrow> heap_header) \<Rightarrow> u32 list \<Rightarrow> (u32 \<Rightarrow> heap_header) \<Rightarrow> u32 list \<Rightarrow> bool" where
  "shrinks st xs st' ys \<longleftrightarrow> set ys \<subseteq> set xs \<and> (\<forall>z \<in> set xs - set ys. is_free (st z))
     \<and> (\<forall>z. is_free (st' z) = is_free (st z)) \<and> (\<forall>z. \<not> is_free (st z) \<longrightarrow> hsize (st' z) = hsize (st z))"

lemma shrinks_refl: "shrinks st xs st xs"
  by (simp add: shrinks_def)

lemma shrinks_trans: "shrinks st xs st' ys \<Longrightarrow> shrinks st' ys st'' zs \<Longrightarrow> shrinks st xs st'' zs"
  by (auto simp: shrinks_def)

lemma absorb_blocks:
  assumes "blocks_ok st (us @ y # x # vs) lim" and "is_free (st y)" and "is_free (st x)"
  shows "blocks_ok (absorb st y x) (us @ y # vs) lim"
    and "shrinks st (us @ y # x # vs) (absorb st y x) (us @ y # vs)"
proof -
  have "path st (us @ y # x # vs) 0" "layout st (us @ y # x # vs) (unat lim)"
    using assms(1) by (auto simp: blocks_ok_def)
  from absorb_ok [OF this] assms(1) show "blocks_ok (absorb st y x) (us @ y # vs) lim"
    by (auto simp: blocks_ok_def) (auto simp: absorb_def)
  show "shrinks st (us @ y # x # vs) (absorb st y x) (us @ y # vs)"
    using assms(2, 3) by (auto simp: shrinks_def absorb_def)
qed

lemma merge_next_ok:
  assumes ok: "blocks_ok st (us @ x # vs) lim" and "is_free (st x)"
  shows "\<exists>vs'. blocks_ok (merge_next st x) (us @ x # vs') lim
     \<and> shrinks st (us @ x # vs) (merge_next st x) (us @ x # vs')"
proof (cases "\<exists>y ws. vs = y # ws \<and> is_free (st y)")
  case True
  then obtain y ws where y: "vs = y # ws" "is_free (st y)" by blast
  have "hnext (st x) = y" "y \<noteq> 0" "magic (st y) = HEAP_BLOCK_MAGIC"
    using ok by (auto simp: blocks_ok_def path_append y)
  then have "merge_next st x = absorb st x y"
    using y by (simp add: merge_next_def absorb_def Let_def)
  with absorb_blocks [of st us x y ws lim] ok assms(2) y show ?thesis by auto
next
  case False
  have "merge_next st x = st"
  proof (cases vs)
    case Nil
    with ok show ?thesis by (auto simp: blocks_ok_def path_append merge_next_def)
  next
    case (Cons y ws)
    with False ok show ?thesis by (auto simp: blocks_ok_def path_append merge_next_def)
  qed
  with ok show ?thesis using shrinks_refl by metis
qed

lemma blocks_ok_nonzero: "blocks_ok st xs lim \<Longrightarrow> 0 \<notin> set xs"
  by (auto simp: blocks_ok_def)

lemma merge_prev_ok:
  assumes ok: "blocks_ok st (us @ x # vs) lim" and free: "is_free (st x)"
  defines "q \<equiv> last (0 # us)"
  defines "st' \<equiv> (if q \<noteq> 0 \<and> magic (st q) = HEAP_BLOCK_MAGIC \<and> is_free (st q) then absorb st q x else st)"
  shows "heap_prev st x 0 (hd (us @ [x])) = Some q"
    and "\<exists>ys. hd ys = hd (us @ [x]) \<and> ys \<noteq> [] \<and> blocks_ok st' ys lim \<and> shrinks st (us @ x # vs) st' ys"
proof -
  have d: "x \<notin> set us" using layout_distinct ok by (fastforce simp: blocks_ok_def)
  show "heap_prev st x 0 (hd (us @ [x])) = Some q"
    unfolding q_def using ok d blocks_ok_nonzero [OF ok]
    by (intro heap_prev_walk [of st us x vs]) (auto simp: blocks_ok_def)
  show "\<exists>ys. hd ys = hd (us @ [x]) \<and> ys \<noteq> [] \<and> blocks_ok st' ys lim \<and> shrinks st (us @ x # vs) st' ys"
  proof (cases "q \<noteq> 0 \<and> magic (st q) = HEAP_BLOCK_MAGIC \<and> is_free (st q)")
    case True
    then obtain us' where us: "us = us' @ [q]" by (cases us rule: rev_cases) (auto simp: q_def)
    then have "blocks_ok st (us' @ q # x # vs) lim" using ok by simp
    from absorb_blocks [OF this] True free have
      "blocks_ok st' (us' @ q # vs) lim" "shrinks st (us @ x # vs) st' (us' @ q # vs)"
      by (auto simp: st'_def us)
    moreover have "hd (us' @ q # vs) = hd (us @ [x])" by (cases us') (auto simp: us)
    ultimately show ?thesis by blast
  next
    case False
    then have "st' = st" by (auto simp: st'_def)
    with ok shrinks_refl [of st "us @ x # vs"] show ?thesis
      by (intro exI [of _ "us @ x # vs"]) (auto simp: hd_append)
  qed
qed

lemma kfree_ok:
  assumes ok: "heap_ok h xs" and x: "x \<in> set xs"
  shows "\<exists>h' ys. kfree h (x + 16) = Some h' \<and> heap_ok h' ys \<and> live h' ys = live h xs - {x}
     \<and> (\<forall>y \<in> live h xs - {x}. hsize (hdr h' y) = hsize (hdr h y))"
proof -
  obtain us vs where xs: "xs = us @ x # vs" using x split_list by fast
  define s0 where "s0 = (hdr h)(x := (hdr h x)\<lparr>is_free := True\<rparr>)"
  have same: "path s0 zs b = path (hdr h) zs b" "layout s0 zs l = layout (hdr h) zs l" for zs b l
    by (auto intro!: path_cong layout_cong simp: s0_def)
  have s0: "blocks_ok s0 (us @ x # vs) (heap_current h)" "is_free (s0 x)"
    using ok by (auto simp: blocks_ok_def heap_ok_def xs same) (auto simp: s0_def)
  define s1 where "s1 = merge_next s0 x"
  obtain vs' where s1: "blocks_ok s1 (us @ x # vs') (heap_current h)"
      "shrinks s0 (us @ x # vs) s1 (us @ x # vs')"
    using merge_next_ok [OF s0] by (auto simp: s1_def)
  then have fx: "is_free (s1 x)" using s0(2) by (simp add: shrinks_def)
  define q where "q = last (0 # us)"
  define s2 where "s2 = (if q \<noteq> 0 \<and> magic (s1 q) = HEAP_BLOCK_MAGIC \<and> is_free (s1 q) then absorb s1 q x else s1)"
  note prev = merge_prev_ok [OF s1(1) fx, folded q_def, folded s2_def]
  obtain ys where ys: "hd ys = hd (us @ [x])" "ys \<noteq> []" "blocks_ok s2 ys (heap_current h)"
      "shrinks s0 (us @ x # vs) s2 ys"
    using prev(2) s1(2) shrinks_trans by blast
  have first: "heap_first h = hd (us @ [x])" using ok by (auto simp: heap_ok_def xs hd_append)
  have "unat x + 16 \<le> unat (heap_current h)"
    using ok layout_hd_le [of "hdr h" xs "unat (heap_current h)" x] x by (auto simp: heap_ok_def)
  then have "unat (x + 16) = unat x + 16"
    using unat_u32_less [of "heap_current h"] by (simp add: unat_word_ariths)
  then have "x + 16 \<noteq> 0" by (metis unat_0 add_is_0 numeral_neq_zero)
  moreover have "magic (hdr h x) = HEAP_BLOCK_MAGIC" using ok x by (auto simp: heap_ok_def)
  ultimately have res: "kfree h (x + 16) = Some (h\<lparr>hdr := s2\<rparr>)"
    using prev(1) first by (simp add: kfree_def Let_def s2_def absorb_def flip: s0_def s1_def)
  have "heap_ok (h\<lparr>hdr := s2\<rparr>) ys"
    using ys first by (auto simp: heap_ok_def blocks_ok_def)
  moreover have "live (h\<lparr>hdr := s2\<rparr>) ys = live h xs - {x}"
    using ys(4) by (auto simp: live_def shrinks_def s0_def xs split: if_splits)
  moreover have "\<forall>y \<in> live h xs - {x}. hsize (s2 y) = hsize (hdr h y)"
    using ys(4) by (auto simp: live_def shrinks_def s0_def)
  ultimately show ?thesis using res by auto
qed

subsection \<open>Rounding of sizes\<close>

lemma align_up_8: "unat (align_up n 8) = unat (n + 7) div 8 * 8"
proof -
  have m: "(7 :: u32) = mask 3" by (simp add: mask_eq_exp_minus_1)
  have "align_up n 8 = (n + 7) AND NOT (mask 3)" by (simp add: align_up_def m [symmetric] add.commute)
  also have "\<dots> = push_bit 3 (drop_bit 3 (n + 7))"
    by (intro bit_word_eqI) (auto simp: bit_simps)
  finally have "unat (align_up n 8) = unat (push_bit 3 (drop_bit 3 (n + 7)))" by simp
  also have "\<dots> = unat (n + 7) div 8 * 8"
  proof -
    have d: "unat (drop_bit 3 (n + 7)) = unat (n + 7) div 8"
      unfolding unat_drop_bit_eq by (simp add: drop_bit_eq_div)
    have "unat (n + 7) div 8 * 8 < 4294967296" using unat_u32_less [of "n + 7"] by linarith
    then show ?thesis
      by (simp add: push_bit_eq_mult unat_word_ariths d)
  qed
  finally show ?thesis .
qed

lemma align_up_8_ge: "n \<le> 0xFFFFFFF8 \<Longrightarrow> n \<le> align_up n 8"
proof -
  assume "n \<le> 0xFFFFFFF8"
  then have "unat n \<le> 4294967288" by (simp add: word_le_nat_alt)
  then have "unat (n + 7) = unat n + 7" by (simp add: unat_word_ariths)
  then show "n \<le> align_up n 8" by (simp add: word_le_nat_alt align_up_8)
qed

lemma align_up_8_wraps: "0xFFFFFFF9 \<le> n \<Longrightarrow> align_up n 8 = 0"
proof -
  assume "0xFFFFFFF9 \<le> n"
  then have "4294967289 \<le> unat n" by (simp add: word_le_nat_alt)
  moreover have "unat n < 4294967296" by (rule unat_u32_less)
  ultimately have "unat (n + 7) = unat n + 7 - 4294967296"
    by (simp add: unat_word_ariths le_mod_geq)
  then have "unat (n + 7) < 8" using unat_u32_less [of n] by simp
  then have "unat (align_up n 8) = 0" by (simp add: align_up_8)
  then show ?thesis by (simp add: unat_eq_0)
qed

subsection \<open>Properties\<close>

text \<open>
  C1: \<open>kmalloc\<close> is a first-fit allocator. When some free block is large enough for the rounded request,
  the first such block is handed out: the walk ends, the heap stays well formed (also when the block
  is split), exactly that block becomes live, the live blocks keep their sizes, the new block is at
  least as large as the request and overlaps no live block.
\<close>

theorem kmalloc_first_fit:
  assumes ok: "heap_ok h xs" and n: "n \<noteq> 0" and fit: "find (fits (hdr h) (align_up n 8)) xs = Some x"
  shows "\<exists>h' ys. kmalloc h n = Some (x + 16, h') \<and> allocates h xs x (align_up n 8) h' ys
     \<and> (n \<le> 0xFFFFFFF8 \<longrightarrow> n \<le> hsize (hdr h' x))
     \<and> (\<forall>y \<in> live h xs. unat x + 16 + unat (hsize (hdr h' x)) \<le> unat y
          \<or> unat y + 16 + unat (hsize (hdr h' y)) \<le> unat x)"
proof -
  let ?sz = "align_up n 8" and ?h = "take_block h x (align_up n 8)"
  from fit have x: "x \<in> set xs" "fits (hdr h) ?sz x" by (auto simp: find_Some_iff)
  obtain us vs where xs: "xs = us @ x # vs" using x(1) split_list by fast
  obtain ys where ys: "allocates h xs x ?sz ?h ys"
    using take_block_ok [of h us x vs ?sz] ok x(2) xs by auto
  have "kmalloc h n = Some (x + 16, ?h)"
    using n fit heap_search_ok [OF ok, of ?sz] by (simp add: kmalloc_def Let_def)
  moreover have "n \<le> 0xFFFFFFF8 \<longrightarrow> n \<le> hsize (hdr ?h x)"
    using ys align_up_8_ge [of n] by (auto simp: allocates_def)
  moreover have "\<forall>y \<in> live h xs. unat x + 16 + unat (hsize (hdr ?h x)) \<le> unat y
          \<or> unat y + 16 + unat (hsize (hdr ?h y)) \<le> unat x"
    using ys layout_disjoint [of "hdr ?h" ys _ x]
    by (fastforce simp: allocates_def heap_ok_def live_def)
  ultimately show ?thesis using ys by blast
qed

definition demo_heap :: kheap where
  "demo_heap = \<lparr>heap_start = 0x1000, heap_end = 0x3000, heap_current = 0x3000, heap_first = 0x1000,
     hdr = (\<lambda>_. \<lparr>magic = 0, hsize = 0, is_free = False, hnext = 0\<rparr>)
       (0x1000 := \<lparr>magic = 0xCAFE, hsize = 0xF0, is_free = False, hnext = 0x1100\<rparr>,
        0x1100 := \<lparr>magic = 0xCAFE, hsize = 0x200, is_free = True, hnext = 0\<rparr>),
     bytes = (\<lambda>_. 7), hv = demo_vmm\<rparr>"

lemma demo_heap_ok: "heap_ok demo_heap [0x1000, 0x1100]"
  by (simp add: heap_ok_def demo_heap_def)

theorem kmalloc_first_fit_witness:
  "heap_ok demo_heap [0x1000, 0x1100] \<and> (\<exists>h'. kmalloc demo_heap 33 = Some (0x1110, h') \<and> 33 \<le> hsize (hdr h' 0x1100))"
proof -
  have f: "find (fits (hdr demo_heap) (align_up 33 8)) [0x1000, 0x1100] = Some 0x1100" by code_simp
  have "(33 :: u32) \<noteq> 0" "(33 :: u32) \<le> 0xFFFFFFF8" by simp_all
  with kmalloc_first_fit [OF demo_heap_ok _ f] demo_heap_ok show ?thesis by auto
qed

text \<open>
  when no block is large enough and the expansion got all its pages, \<open>kmalloc\<close> appends a block at
  the old end of the heap, under the same contract.
\<close>

theorem kmalloc_grows:
  assumes ok: "heap_ok h xs" and n: "n \<noteq> 0" and no: "find (fits (hdr h) (align_up n 8)) xs = None"
    and exp: "expand_heap h (align_up n 8) = Some g"
    and cur: "heap_current g = heap_current h + align_up (align_up n 8 + 16) 4096"
    and room: "unat (heap_current h) + unat (align_up (align_up n 8 + 16) 4096) < 4294967296"
      "unat (align_up n 8) + 16 \<le> unat (align_up (align_up n 8 + 16) 4096)"
  shows "\<exists>h'. kmalloc h n = Some (heap_current h + 16, h')
     \<and> allocates h xs (heap_current h) (align_up n 8) h' (xs @ [heap_current h])"
proof -
  have "unat (heap_current g) = unat (heap_current h) + unat (align_up (align_up n 8 + 16) 4096)"
    using room(1) by (simp add: cur unat_word_ariths)
  then obtain h' where "append_block g (align_up n 8) = Some (heap_current h + 16, h')"
      "allocates h xs (heap_current h) (align_up n 8) h' (xs @ [heap_current h])"
    using append_block_ok [OF ok expand_heap_below(1) [OF exp room(1)] expand_heap_below(2) [OF exp room(1)] cur]
      room(2) by auto
  then show ?thesis
    using n no exp heap_search_ok [OF ok, of "align_up n 8"] by (simp add: kmalloc_def Let_def)
qed

theorem kmalloc_grows_witness:
  "\<exists>h'. kmalloc demo_heap 0x1000 = Some (0x3010, h') \<and> 0x3000 \<in> live h' [0x1000, 0x1100, 0x3000]"
proof -
  have no: "find (fits (hdr demo_heap) (align_up 0x1000 8)) [0x1000, 0x1100] = None" by code_simp
  have "map_option heap_current (expand_heap demo_heap (align_up 0x1000 8)) = Some 0x5000" by code_simp
  then obtain g where g: "expand_heap demo_heap (align_up 0x1000 8) = Some g" "heap_current g = 0x5000" by auto
  have al: "align_up 0x1000 8 = 0x1000" "align_up (0x1000 + 16) 4096 = 0x2000" by code_simp+
  have c: "heap_current demo_heap = 0x3000" by (simp add: demo_heap_def)
  have "\<exists>h'. kmalloc demo_heap 0x1000 = Some (heap_current demo_heap + 16, h')
     \<and> allocates demo_heap [0x1000, 0x1100] (heap_current demo_heap) (align_up 0x1000 8) h'
         ([0x1000, 0x1100] @ [heap_current demo_heap])"
    by (rule kmalloc_grows [OF demo_heap_ok _ no g(1)]) (simp_all only: g al c, simp_all)
  then show ?thesis by (auto simp: c allocates_def)
qed

text \<open>
  C2: \<open>kfree\<close> of a block of the heap returns, keeps the heap well formed whatever neighbours it
  coalesces with, makes exactly that block free, and leaves the live blocks and their sizes alone.
\<close>

theorem kfree_releases:
  assumes "heap_ok h xs" and "x \<in> set xs"
  shows "\<exists>h' ys. kfree h (x + 16) = Some h' \<and> heap_ok h' ys \<and> live h' ys = live h xs - {x}
     \<and> (\<forall>y \<in> live h xs - {x}. hsize (hdr h' y) = hsize (hdr h y))"
  by (rule kfree_ok [OF assms])

theorem kfree_releases_witness:
  "\<exists>h' ys. kfree demo_heap 0x1010 = Some h' \<and> heap_ok h' ys \<and> live h' ys = {}"
proof -
  have "0x1000 \<in> set [0x1000 :: u32, 0x1100]" by simp
  moreover have "live demo_heap [0x1000, 0x1100] = {0x1000}" by (auto simp: live_def demo_heap_def)
  ultimately show ?thesis using kfree_releases [OF demo_heap_ok, of "0x1000"] by auto
qed



text \<open>
  a request of more than \<open>0xFFFFFFF8\<close> bytes is rounded to zero bytes, so instead of failing it is
  served from the first free block of any size.
\<close>

theorem kmalloc_huge_request:
  assumes ok: "heap_ok h xs" and n: "0xFFFFFFF9 \<le> n" and free: "find (\<lambda>x. is_free (hdr h x)) xs = Some x"
  shows "\<exists>h'. kmalloc h n = Some (x + 16, h')
     \<and> (24 < hsize (hdr h x) \<longrightarrow> hsize (hdr h' x) = 0)"
proof -
  have "fits (hdr h) 0 = (\<lambda>x. is_free (hdr h x))" by (auto simp: fits_def)
  moreover have "n \<noteq> 0" using n by auto
  ultimately have "kmalloc h n = Some (x + 16, take_block h x 0)"
    using heap_search_ok [OF ok, of 0] free by (simp add: kmalloc_def Let_def align_up_8_wraps [OF n])
  moreover have "hsize (hdr (take_block h x 0) x) = 0" if "24 < hsize (hdr h x)"
    using that by (simp add: take_block_def Let_def)
  ultimately show ?thesis by blast
qed

theorem kmalloc_huge_request_witness:
  "\<exists>h'. kmalloc demo_heap 0xFFFFFFFF = Some (0x1110, h') \<and> hsize (hdr h' 0x1100) = 0"
proof -
  have "find (\<lambda>x. is_free (hdr demo_heap x)) [0x1000, 0x1100] = Some 0x1100" by code_simp
  moreover have "(0xFFFFFFF9 :: u32) \<le> 0xFFFFFFFF" "(24 :: u32) < hsize (hdr demo_heap 0x1100)"
    by (simp_all add: demo_heap_def)
  ultimately show ?thesis using kmalloc_huge_request [OF demo_heap_ok, of "0xFFFFFFFF" "0x1100"] by auto
qed

text \<open>
  out of memory is not noticed. When no block fits and the physical allocator has no page left,
  \<open>kmalloc\<close> does not return NULL: it places a block \<open>align_up (size + 16, 4096)\<close> bytes below the end of
  the existing heap, on top of the blocks that are there.
\<close>

theorem kmalloc_oom_overlaps:
  assumes ok: "heap_ok h xs" and n: "n \<noteq> 0" and no: "find (fits (hdr h) (align_up n 8)) xs = None"
    and full: "pmm_alloc_page (vpmm (hv h)) = (0, vpmm (hv h))"
    and pages: "align_up (align_up n 8 + 16) 4096 div 4096 \<noteq> 0"
    and tail: "heap_current h - align_up (align_up n 8 + 16) 4096 \<notin> set xs"
  shows "\<exists>h'. kmalloc h n = Some (heap_current h - align_up (align_up n 8 + 16) 4096 + 16, h')
     \<and> heap_current h' = heap_current h"
proof -
  let ?sz = "align_up n 8" and ?nb = "heap_current h - align_up (align_up n 8 + 16) 4096"
  obtain k where k: "unat (align_up (?sz + 16) 4096 div 4096) = Suc k"
    using pages by (metis not0_implies_Suc unat_eq_0)
  have "heap_map_page h = Some (False, h)"
    using full by (simp add: heap_map_page_def)
  then have exp: "expand_heap h ?sz = Some h" by (simp add: expand_heap_def k)
  define st where "st = (hdr h)(?nb := (hdr h ?nb)\<lparr>magic := HEAP_BLOCK_MAGIC, hsize := ?sz, is_free := False, hnext := 0\<rparr>)"
  have ne: "xs \<noteq> []" and first: "heap_first h = hd xs" and p: "path (hdr h) xs 0" using ok by (auto simp: heap_ok_def)
  have "path st xs 0" using p tail by (subst path_cong [of _ _ "hdr h"]) (auto simp: st_def)
  then have t: "heap_tail st (heap_first h) = Some (last xs)"
    using heap_tail_walk [of st xs] ne heap_ok_nonzero [OF ok] by (simp add: first)
  have "heap_first h \<noteq> 0" using heap_ok_nonzero [OF ok] hd_in_set [OF ne] first by metis
  with t show ?thesis
    using n no exp heap_search_ok [OF ok, of ?sz]
    by (simp add: kmalloc_def append_block_def Let_def flip: st_def)
qed

definition demo_full :: kheap where
  "demo_full = demo_heap
     \<lparr>hdr := (hdr demo_heap)(0x1100 := \<lparr>magic = 0xCAFE, hsize = 0x1EF0, is_free = False, hnext = 0\<rparr>),
      hv := demo_vmm\<lparr>vpmm := (vpmm demo_vmm)\<lparr>bitmap := (\<lambda>_. 0xFF)\<rparr>\<rparr>\<rparr>"

theorem kmalloc_oom_overlaps_witness:
  "heap_ok demo_full [0x1000, 0x1100] \<and> hsize (hdr demo_full 0x1100) = 0x1EF0
   \<and> (\<exists>h'. kmalloc demo_full 0xF00 = Some (0x2010, h'))"
proof -
  have ok: "heap_ok demo_full [0x1000, 0x1100]" by (simp add: heap_ok_def demo_full_def demo_heap_def)
  have no: "find (fits (hdr demo_full) (align_up 0xF00 8)) [0x1000, 0x1100] = None" by code_simp
  have "alloc_scan_words (vpmm (hv demo_full)) [0..<bitmap_size (vpmm (hv demo_full))] = None" by code_simp
  then have full: "pmm_alloc_page (vpmm (hv demo_full)) = (0, vpmm (hv demo_full))"
    by (simp add: pmm_alloc_page_def)
  have al: "align_up 0xF00 8 = 0xF00" "align_up (0xF00 + 16) 4096 = 0x1000" by code_simp+
  have c: "heap_current demo_full = 0x3000" by (simp add: demo_full_def demo_heap_def)
  have "\<exists>h'. kmalloc demo_full 0xF00 = Some (heap_current demo_full - align_up (align_up 0xF00 8 + 16) 4096 + 16, h')
     \<and> heap_current h' = heap_current demo_full"
    by (rule kmalloc_oom_overlaps [OF ok _ no full]) (simp_all only: al c, simp_all)
  moreover have "hsize (hdr demo_full 0x1100) = 0x1EF0" by (simp add: demo_full_def)
  ultimately show ?thesis using ok by (simp only: al c) auto
qed

end
