(* ===== verification/Ring.thy ===== *)
theory Ring
  imports Prelude
begin

text \<open>
  Circular byte buffers: the two copy loops \<open>buf[pos] = src[i]; pos = (pos + 1) % SIZE\<close> and
  \<open>dst[i] = buf[pos]; pos = (pos + 1) % SIZE\<close> that the pipe code runs, and the list of elements
  a ring holds.
\<close>

fun ring_fill :: "nat \<Rightarrow> (nat \<Rightarrow> 'a) \<Rightarrow> nat \<Rightarrow> 'a list \<Rightarrow> (nat \<Rightarrow> 'a) \<times> nat" where
  "ring_fill N b pos [] = (b, pos)"
| "ring_fill N b pos (x # xs) = ring_fill N (b(pos := x)) ((pos + 1) mod N) xs"

fun ring_drain :: "nat \<Rightarrow> (nat \<Rightarrow> 'a) \<Rightarrow> nat \<Rightarrow> nat \<Rightarrow> 'a list \<times> nat" where
  "ring_drain N b pos 0 = ([], pos)"
| "ring_drain N b pos (Suc k) =
     (let (xs, p) = ring_drain N b ((pos + 1) mod N) k in (b pos # xs, p))"

definition ring_list :: "nat \<Rightarrow> (nat \<Rightarrow> 'a) \<Rightarrow> nat \<Rightarrow> nat \<Rightarrow> 'a list" where
  "ring_list N b pos n = map (\<lambda>i. b ((pos + i) mod N)) [0..<n]"

lemma length_ring_list [simp]: "length (ring_list N b pos n) = n"
  by (simp add: ring_list_def)

lemma ring_list_Suc:
  "pos < N \<Longrightarrow> ring_list N b pos (Suc n) = b pos # ring_list N b ((pos + 1) mod N) n"
  by (rule nth_equalityI) (auto simp: ring_list_def nth_Cons' mod_simps simp del: upt_Suc)

lemma ring_drain_spec:
  "pos < N \<Longrightarrow> ring_drain N b pos k = (ring_list N b pos k, (pos + k) mod N)"
proof (induction k arbitrary: pos)
  case 0
  then show ?case by (simp add: ring_list_def)
next
  case (Suc k)
  then have "(pos + 1) mod N < N" by simp
  with Suc show ?case by (simp add: ring_list_Suc mod_simps)
qed

lemma ring_fill_pos: "pos < N \<Longrightarrow> snd (ring_fill N b pos xs) = (pos + length xs) mod N"
proof (induction xs arbitrary: pos b)
  case (Cons x xs)
  then have "(pos + 1) mod N < N" by simp
  with Cons.IH show ?case by (simp add: mod_simps)
qed simp

lemma ring_index_le:
  fixes i j pos N :: nat
  assumes "i \<le> j" and "j < N" and "(pos + i) mod N = (pos + j) mod N"
  shows "i = j"
proof -
  have "N dvd (pos + j) - (pos + i)"
    using assms(1, 3) mod_eq_dvd_iff_nat [of "pos + i" "pos + j" N] by simp
  then have "N dvd j - i" by simp
  then show ?thesis using assms by (metis diff_is_0_eq dvd_imp_le less_imp_diff_less not_le not_gr_zero le_antisym)
qed

lemma ring_index_inj:
  fixes i j pos N :: nat
  shows "i < N \<Longrightarrow> j < N \<Longrightarrow> (pos + i) mod N = (pos + j) mod N \<Longrightarrow> i = j"
  using ring_index_le [of i j N pos] ring_index_le [of j i N pos] by (cases "i \<le> j") auto

lemma ring_fill_at:
  "pos < N \<Longrightarrow> length xs \<le> N \<Longrightarrow> i < N \<Longrightarrow>
     fst (ring_fill N b pos xs) ((pos + i) mod N) = (if i < length xs then xs ! i else b ((pos + i) mod N))"
proof (induction xs arbitrary: pos b i)
  case (Cons x xs)
  have N: "(pos + 1) mod N < N" "length xs \<le> N" using Cons.prems by auto
  show ?case
  proof (cases i)
    case 0
    have "pos + 1 + (N - 1) = pos + N" using Cons.prems by simp
    then have e: "((pos + 1) mod N + (N - 1)) mod N = pos"
      using Cons.prems by (simp only: mod_add_left_eq) simp
    have "N - 1 < N" "\<not> N - 1 < length xs" using Cons.prems by auto
    with Cons.IH [OF N, of "N - 1" "b(pos := x)"]
    have "fst (ring_fill N (b(pos := x)) ((pos + 1) mod N) xs) pos = (b(pos := x)) pos" unfolding e by argo
    with 0 Cons.prems show ?thesis by simp
  next
    case (Suc j)
    have "(pos + i) mod N \<noteq> pos"
      using ring_index_inj [of i N 0 pos] Cons.prems Suc by auto
    moreover have e: "((pos + 1) mod N + j) mod N = (pos + i) mod N" using Suc by (simp add: mod_simps)
    have "j < N" using Cons.prems Suc by simp
    then have "fst (ring_fill N (b(pos := x)) ((pos + 1) mod N) xs) ((pos + i) mod N) =
        (if j < length xs then xs ! j else (b(pos := x)) ((pos + i) mod N))"
      using Cons.IH [OF N, of j "b(pos := x)"] unfolding e by argo
    ultimately show ?thesis using Suc by (simp del: fun_upd_apply add: fun_upd_other)
  qed
qed simp

text \<open>Filling appends to the list, draining takes from its front.\<close>

lemma ring_list_fill:
  assumes "pos < N" and "n + length xs \<le> N"
  shows "ring_list N (fst (ring_fill N b ((pos + n) mod N) xs)) pos (n + length xs) = ring_list N b pos n @ xs"
proof (rule nth_equalityI)
  fix i assume "i < length (ring_list N (fst (ring_fill N b ((pos + n) mod N) xs)) pos (n + length xs))"
  then have i: "i < n + length xs" by simp
  have p: "(pos + n) mod N < N" and l: "length xs \<le> N" using assms by auto
  define j where "j = (if n \<le> i then i - n else N + i - n)"
  have j: "j < N" "((pos + n) mod N + j) mod N = (pos + i) mod N"
    using assms i mod_add_self1 [of N "pos + i"] by (auto simp: j_def mod_simps add.left_commute)
  have "fst (ring_fill N b ((pos + n) mod N) xs) ((pos + i) mod N) =
      (if j < length xs then xs ! j else b ((pos + i) mod N))"
    using ring_fill_at [OF p l j(1), of b] by (simp add: j(2))
  moreover have "j < length xs \<longleftrightarrow> n \<le> i" using assms(2) i by (auto simp: j_def)
  ultimately show "ring_list N (fst (ring_fill N b ((pos + n) mod N) xs)) pos (n + length xs) ! i =
      (ring_list N b pos n @ xs) ! i"
    using i by (auto simp: ring_list_def nth_append j_def)
qed simp

lemma ring_list_drop:
  assumes "pos < N" and "k \<le> n"
  shows "ring_list N b ((pos + k) mod N) (n - k) = drop k (ring_list N b pos n)"
  by (rule nth_equalityI) (auto simp: ring_list_def mod_simps add.assoc)

lemma ring_list_take: "k \<le> n \<Longrightarrow> take k (ring_list N b pos n) = ring_list N b pos k"
  by (simp add: ring_list_def take_map)

end
