(* ===== verification/Sync.thy ===== *)
theory Sync
  imports Interfaces
begin

text \<open>
  Kernel synchronisation, \<open>kernel/sync.c\<close> and \<open>kernel/spinlock.c\<close>: mutexes with a queue of waiters and
  ownership hand-off, counting semaphores, test-and-set spinlocks, the interrupt-saving variant, and
  ticket locks. Processes are named by their pid. A wait queue built from \<open>wait_node_t\<close> cells is
  the list of its processes; \<open>node_ok\<close> says whether \<open>kmalloc\<close> delivered the cell, and \<open>None\<close> is the
  NULL dereference that follows when it did not.
\<close>

subsection \<open>Mutexes\<close>

record mutex =
  locked :: bool
  owner :: "nat option"
  mwaiters :: "nat list"



text \<open>The result names the process passed to \<open>sched_unblock\<close>, if any.\<close>

definition mutex_unlock :: "mutex \<Rightarrow> nat option \<times> mutex" where
  "mutex_unlock m =
     (case mwaiters m of
        p # ps \<Rightarrow> (Some p, m\<lparr>mwaiters := ps, owner := Some p\<rparr>)
      | [] \<Rightarrow> (None, m\<lparr>locked := False, owner := None\<rparr>))"


subsection \<open>Semaphores\<close>

record sem =
  count :: "32 word"
  swaiters :: "nat list"

definition sem_init :: "32 word \<Rightarrow> sem" where
  "sem_init v = \<lparr>count = v, swaiters = []\<rparr>"

definition sem_wait :: "bool \<Rightarrow> nat \<Rightarrow> sem \<Rightarrow> (bool \<times> sem) option" where
  "sem_wait node_ok current s =
     (let s1 = s\<lparr>count := count s - 1\<rparr> in
      if sint (count s1) < 0
      then if \<not> node_ok then None
           else Some (True, s1\<lparr>swaiters := swaiters s1 @ [current]\<rparr>)
      else Some (False, s1))"

definition sem_post :: "sem \<Rightarrow> nat option \<times> sem" where
  "sem_post s =
     (let s1 = s\<lparr>count := count s + 1\<rparr> in
      if sint (count s1) \<le> 0
      then case swaiters s1 of
             p # ps \<Rightarrow> (Some p, s1\<lparr>swaiters := ps\<rparr>)
           | [] \<Rightarrow> (None, s1)
      else (None, s1))"

definition sem_getvalue :: "sem \<Rightarrow> int" where
  "sem_getvalue s = sint (count s)"

subsection \<open>Spinlocks\<close>

type_synonym spinlock = "32 word"

definition spinlock_init :: spinlock where
  "spinlock_init = 0"

definition xchg :: "spinlock \<Rightarrow> 32 word \<Rightarrow> 32 word \<times> spinlock" where
  "xchg addr newval = (addr, newval)"

text \<open>The spin loop on one processor: nobody else changes the lock while it spins.\<close>

partial_function (option) spinlock_lock :: "spinlock \<Rightarrow> spinlock option" where
  "spinlock_lock l = (case xchg l 1 of (old, l1) \<Rightarrow> if old = 1 then spinlock_lock l1 else Some l1)"

definition spinlock_unlock :: "spinlock \<Rightarrow> spinlock" where
  "spinlock_unlock l = 0"

text \<open>The interrupt flag is bit 9 of \<open>EFLAGS\<close>.\<close>

definition spinlock_irq_save :: "u32 \<Rightarrow> spinlock \<Rightarrow> (u32 \<times> u32 \<times> spinlock) option" where
  "spinlock_irq_save eflags l =
     (let flags = eflags; eflags1 = eflags AND NOT 0x200 in
      map_option (\<lambda>l1. (flags, eflags1, l1)) (spinlock_lock l))"

definition spinlock_irq_restore :: "u32 \<Rightarrow> spinlock \<Rightarrow> u32 \<Rightarrow> u32 \<times> spinlock" where
  "spinlock_irq_restore eflags l flags =
     (let l1 = spinlock_unlock l in
      (if flags AND 0x200 \<noteq> 0 then eflags OR 0x200 else eflags, l1))"

subsection \<open>Ticket locks\<close>






subsection \<open>Processes that use a mutex\<close>










lemma unlocks_fifo:
  "k < length (mwaiters m) \<Longrightarrow>
     owner (((snd \<circ> mutex_unlock) ^^ Suc k) m) = Some (mwaiters m ! k)
     \<and> mwaiters (((snd \<circ> mutex_unlock) ^^ Suc k) m) = drop (Suc k) (mwaiters m)"
proof (induction k)
  case 0
  then show ?case by (cases "mwaiters m") (auto simp: mutex_unlock_def)
next
  case (Suc k)
  then obtain p ps where p: "drop (Suc k) (mwaiters m) = p # ps"
    by (metis Suc_lessD list.exhaust drop_eq_Nil not_le)
  then have "mwaiters m ! Suc k = p" "drop (Suc (Suc k)) (mwaiters m) = ps"
    by (metis Suc.prems nth_via_drop, metis drop_Suc list.sel(3) tl_drop)
  with Suc p show ?case by (auto simp: mutex_unlock_def)
qed

subsection \<open>Semaphores as admission counters\<close>

datatype sem_op = Wait nat | Post

text \<open>
  A run of semaphore calls. The first component collects, in order, the processes that got through
  \<open>sem_wait\<close>, at once or when a \<open>sem_post\<close> woke them.
\<close>

fun sem_run :: "sem_op list \<Rightarrow> sem \<Rightarrow> nat list \<times> sem" where
  "sem_run [] s = ([], s)"
| "sem_run (Wait p # ops) s =
     (case sem_wait True p s of
        Some (blocked, t) \<Rightarrow> (let (adm, u) = sem_run ops t in (if blocked then adm else p # adm, u))
      | None \<Rightarrow> ([], s))"
| "sem_run (Post # ops) s =
     (case sem_post s of
        (woken, t) \<Rightarrow> (let (adm, u) = sem_run ops t in ((case woken of None \<Rightarrow> [] | Some p \<Rightarrow> [p]) @ adm, u)))"

definition waits :: "sem_op list \<Rightarrow> nat list" where
  "waits ops = concat (map (\<lambda>op. case op of Wait p \<Rightarrow> [p] | Post \<Rightarrow> []) ops)"

definition posts :: "sem_op list \<Rightarrow> nat" where
  "posts ops = length (filter (\<lambda>op. op = Post) ops)"

lemma waits_posts_simps [simp]:
  "waits [] = []" "waits (Wait p # ops) = p # waits ops" "waits (Post # ops) = waits ops"
  "posts [] = 0" "posts (Wait p # ops) = posts ops" "posts (Post # ops) = Suc (posts ops)"
  by (simp_all add: waits_def posts_def)

text \<open>The counter is negative exactly by the number of waiters.\<close>

definition sem_inv :: "sem \<Rightarrow> bool" where
  "sem_inv s \<longleftrightarrow> int (length (swaiters s)) = max 0 (- sint (count s))"

text \<open>As long as the counter does not overflow, admissions come in the order of the waits.\<close>

lemma sem_run_spec:
  "sem_inv s \<Longrightarrow> \<bar>sint (count s)\<bar> + int (length ops) < 2147483648 \<Longrightarrow> sem_run ops s = (adm, t) \<Longrightarrow>
     sem_inv t \<and> sint (count t) = sint (count s) + int (posts ops) - int (length (waits ops))
     \<and> adm @ swaiters t = swaiters s @ waits ops"
proof (induction ops arbitrary: s adm)
  case Nil
  then show ?case by simp
next
  case (Cons op ops)
  show ?case
  proof (cases op)
    case (Wait p)
    have c: "sint (count s - 1) = sint (count s) - 1"
      using Cons.prems(2) by (intro sint_diff_u32 [of "count s" 1, simplified]) auto
    define u where "u = (if sint (count s) \<le> 0
        then s\<lparr>count := count s - 1, swaiters := swaiters s @ [p]\<rparr> else s\<lparr>count := count s - 1\<rparr>)"
    have w: "sem_wait True p s = Some (sint (count s) \<le> 0, u)"
      using c by (auto simp: sem_wait_def Let_def u_def)
    obtain adm' where r: "sem_run ops u = (adm', t)" "adm = (if sint (count s) \<le> 0 then adm' else p # adm')"
      using Cons.prems(3) Wait w by (auto split: prod.splits)
    have cu: "count u = count s - 1" by (simp add: u_def)
    have "sem_inv u" using Cons.prems(1) c by (auto simp: sem_inv_def u_def)
    moreover have "\<bar>sint (count u)\<bar> + int (length ops) < 2147483648"
      using Cons.prems(2) c by (simp add: cu)
    ultimately have ih: "sem_inv t" "sint (count t) = sint (count u) + int (posts ops) - int (length (waits ops))"
        "adm' @ swaiters t = swaiters u @ waits ops"
      using Cons.IH [OF _ _ r(1)] by blast+
    have "sint (count s) > 0 \<Longrightarrow> swaiters s = []" using Cons.prems(1) by (simp add: sem_inv_def)
    then show ?thesis using ih r(2) c by (auto simp: Wait u_def)
  next
    case Post
    have c: "sint (count s + 1) = sint (count s) + 1"
      using Cons.prems(2) by (intro sint_add_u32 [of "count s" 1, simplified]) auto
    obtain woken u where w: "sem_post s = (woken, u)" by fastforce
    have u: "count u = count s + 1" "sem_inv u"
        "(case woken of None \<Rightarrow> [] | Some q \<Rightarrow> [q]) @ swaiters u = swaiters s"
      using w c Cons.prems(1) by (auto simp: sem_post_def sem_inv_def Let_def split: if_splits list.splits)
    obtain adm' where r: "sem_run ops u = (adm', t)" "adm = (case woken of None \<Rightarrow> [] | Some q \<Rightarrow> [q]) @ adm'"
      using Cons.prems(3) Post w by (auto split: prod.splits)
    have "\<bar>sint (count u)\<bar> + int (length ops) < 2147483648"
      using Cons.prems(2) c by (simp add: u)
    with Cons.IH [OF u(2) _ r(1)] u r(2) c show ?thesis
      by (auto simp: Post split: option.splits)
  qed
qed

subsection \<open>Ticket locks as queues\<close>











subsection \<open>Spinlocks\<close>

text \<open>A processor that takes a spinlock it already holds spins for ever.\<close>

lemma spinlock_lock_held: "spinlock_lock 1 = None"
proof -
  have "l \<noteq> 1" if "spinlock_lock l = Some y" for l y
    using _ that by (rule spinlock_lock.raw_induct [of "\<lambda>l y. l \<noteq> 1"]) (auto simp: xchg_def, blast)
  then show ?thesis by fastforce
qed

lemma spinlock_lock_free: "l \<noteq> 1 \<Longrightarrow> spinlock_lock l = Some 1"
  by (subst spinlock_lock.simps) (simp add: xchg_def)

subsection \<open>Properties\<close>



text \<open>
  hand-off is first in, first out: the process at position \<open>k\<close> of the wait queue owns the mutex
  after exactly \<open>k + 1\<close> unlocks, and the processes behind it are still queued in order.
\<close>

theorem mutex_handoff_fifo:
  assumes "k < length (mwaiters m)"
  shows "owner (((snd \<circ> mutex_unlock) ^^ Suc k) m) = Some (mwaiters m ! k)
     \<and> mwaiters (((snd \<circ> mutex_unlock) ^^ Suc k) m) = drop (Suc k) (mwaiters m)"
  by (rule unlocks_fifo [OF assms])

theorem mutex_handoff_fifo_witness:
  "owner (((snd \<circ> mutex_unlock) ^^ 2) \<lparr>locked = True, owner = Some 1, mwaiters = [7, 8, 9]\<rparr>) = Some 8"
  using mutex_handoff_fifo [of 1 "\<lparr>locked = True, owner = Some 1, mwaiters = [7, 8, 9]\<rparr>"]
  by (simp add: numeral_2_eq_2)

text \<open>
  a semaphore admits in the order of the waits and never more than its value allows: after any run
  of waits and posts short enough not to overflow the 32-bit counter, the admitted processes followed
  by the queued ones are the waiting processes in order, and the number admitted is the smaller of
  the number of waits and the initial value plus the number of posts.
\<close>

theorem sem_admission:
  assumes "0 \<le> sint v" and "sint v + int (length ops) < 2147483648" and "sem_run ops (sem_init v) = (adm, t)"
  shows "adm @ swaiters t = waits ops
     \<and> int (length adm) = min (int (length (waits ops))) (sint v + int (posts ops))"
proof -
  have "sem_inv (sem_init v)" using assms(1) by (simp add: sem_inv_def sem_init_def)
  with sem_run_spec [OF _ _ assms(3)] assms(1, 2)
  have r: "sem_inv t" "sint (count t) = sint v + int (posts ops) - int (length (waits ops))"
      "adm @ swaiters t = waits ops"
    by (auto simp: sem_init_def)
  then have "int (length adm) + int (length (swaiters t)) = int (length (waits ops))"
    by (metis length_append of_nat_add)
  with r show ?thesis by (auto simp: sem_inv_def)
qed

theorem sem_admission_witness:
  "\<exists>adm t. sem_run [Wait 5, Wait 6, Wait 7, Post] (sem_init 1) = (adm, t) \<and> adm @ swaiters t = [5, 6, 7] \<and> length adm = 2"
proof -
  obtain adm t where r: "sem_run [Wait 5, Wait 6, Wait 7, Post] (sem_init 1) = (adm, t)" by fastforce
  with sem_admission [OF _ _ r] show ?thesis by auto
qed



end
