(* ===== verification/Pipe.thy ===== *)
theory Pipe
  imports Ring Sync Kheap
begin

text \<open>
  Pipes, \<open>kernel/pipe.c\<close>: a 4096-byte ring buffer with a semaphore for readers and one for writers.
  The code between \<open>mutex_lock\<close> and \<open>mutex_unlock\<close> is one atomic step. A call returns, goes to sleep in
  \<open>sem_wait\<close> (and then starts again at the top of its loop), or crashes when no wait cell could be
  allocated. Positions and counts are natural numbers; the invariant keeps them at most 4096.
\<close>

subsection \<open>State and operations\<close>

abbreviation "PIPE_BUFFER_SIZE \<equiv> 4096 :: nat"

record pipe =
  pipe_addr :: u32
  buffer_addr :: u32
  pbuffer :: "nat \<Rightarrow> u8"
  read_pos :: nat
  write_pos :: nat
  pcount :: nat
  read_wait :: sem
  write_wait :: sem
  readers :: "32 word"
  writers :: "32 word"

datatype 'a outcome = Done 'a pipe | Sleep pipe | Crash

text \<open>\<open>sizeof(pipe_t)\<close> is 52. The return value, the pipe if one was made, and the heap.\<close>

definition pipe_create :: "kheap \<Rightarrow> (int \<times> pipe option \<times> kheap) option" where
  "pipe_create h =
     (case kmalloc h 52 of
        None \<Rightarrow> None
      | Some (p, h1) \<Rightarrow>
          if p = 0 then Some (-1, None, h1)
          else case kmalloc h1 4096 of
                 None \<Rightarrow> None
               | Some (b, h2) \<Rightarrow>
                   if b = 0 then map_option (\<lambda>h3. (-1, None, h3)) (kfree h2 p)
                   else Some (0, Some \<lparr>pipe_addr = p, buffer_addr = b, pbuffer = (\<lambda>i. bytes h2 (b + of_nat i)),
                                      read_pos = 0, write_pos = 0, pcount = 0, read_wait = sem_init 0,
                                      write_wait = sem_init 0, readers = 1, writers = 1\<rparr>, h2))"

function pipe_read :: "bool \<Rightarrow> nat \<Rightarrow> pipe \<Rightarrow> nat \<Rightarrow> u8 list outcome" where
  "pipe_read node_ok cur p n =
     (if pcount p = 0
      then if writers p = 0 then Done [] p
           else case sem_wait node_ok cur (read_wait p) of
                  None \<Rightarrow> Crash
                | Some (blocked, s) \<Rightarrow>
                    if blocked then Sleep (p\<lparr>read_wait := s\<rparr>)
                    else pipe_read node_ok cur (p\<lparr>read_wait := s\<rparr>) n
      else
        (let to_read = (if n < pcount p then n else pcount p);
             (bs, pos) = ring_drain PIPE_BUFFER_SIZE (pbuffer p) (read_pos p) to_read
         in Done bs (p\<lparr>read_pos := pos, pcount := pcount p - to_read,
                       write_wait := snd (sem_post (write_wait p))\<rparr>)))"
  by pat_completeness auto

text \<open>Every pass that does not return takes one unit from the semaphore.\<close>

lemma sem_wait_decreases:
  assumes "sem_wait node_ok cur s = Some (False, t)"
  shows "unat (count t) < unat (count s)"
proof -
  have t: "count t = count s - 1" "\<not> sint (count s - 1) < 0"
    using assms by (auto simp: sem_wait_def Let_def split: if_splits)
  have "count s \<noteq> 0" using t(2) by auto
  then show ?thesis using t(1) unat_minus_one_word [of "count s"] by (simp add: unat_gt_0)
qed

lemma sem_wait_succeeds:
  obtains b t where "sem_wait True cur s = Some (b, t)"
  by (cases "sint (count s - 1) < 0") (auto simp: sem_wait_def Let_def)

termination pipe_read
  by (relation "measure (\<lambda>(_, _, p, _). unat (count (read_wait p)))") (auto dest: sem_wait_decreases)

function pipe_write :: "bool \<Rightarrow> nat \<Rightarrow> pipe \<Rightarrow> u8 list \<Rightarrow> nat outcome" where
  "pipe_write node_ok cur p src =
     (if pcount p \<ge> PIPE_BUFFER_SIZE
      then case sem_wait node_ok cur (write_wait p) of
             None \<Rightarrow> Crash
           | Some (blocked, s) \<Rightarrow>
               if blocked then Sleep (p\<lparr>write_wait := s\<rparr>)
               else pipe_write node_ok cur (p\<lparr>write_wait := s\<rparr>) src
      else
        (let available = PIPE_BUFFER_SIZE - pcount p;
             to_write = (if length src < available then length src else available);
             (b, pos) = ring_fill PIPE_BUFFER_SIZE (pbuffer p) (write_pos p) (take to_write src)
         in Done to_write (p\<lparr>pbuffer := b, write_pos := pos, pcount := pcount p + to_write,
                             read_wait := snd (sem_post (read_wait p))\<rparr>)))"
  by pat_completeness auto

termination pipe_write
  by (relation "measure (\<lambda>(_, _, p, _). unat (count (write_wait p)))") (auto dest: sem_wait_decreases)

declare pipe_read.simps [simp del] pipe_write.simps [simp del]

definition pipe_close_read :: "pipe \<Rightarrow> pipe" where
  "pipe_close_read p =
     (let p1 = p\<lparr>readers := readers p - 1\<rparr> in
      if readers p1 = 0 then p1\<lparr>write_wait := snd (sem_post (write_wait p1))\<rparr> else p1)"

definition pipe_close_write :: "pipe \<Rightarrow> pipe" where
  "pipe_close_write p =
     (let p1 = p\<lparr>writers := writers p - 1\<rparr> in
      if writers p1 = 0 then p1\<lparr>read_wait := snd (sem_post (read_wait p1))\<rparr> else p1)"

definition pipe_destroy :: "kheap \<Rightarrow> pipe \<Rightarrow> kheap option" where
  "pipe_destroy h p =
     (case kfree h (buffer_addr p) of None \<Rightarrow> None | Some h1 \<Rightarrow> kfree h1 (pipe_addr p))"

definition pipe_is_empty :: "pipe \<Rightarrow> bool" where
  "pipe_is_empty p \<longleftrightarrow> pcount p = 0"

definition pipe_is_full :: "pipe \<Rightarrow> bool" where
  "pipe_is_full p \<longleftrightarrow> pcount p \<ge> PIPE_BUFFER_SIZE"

subsection \<open>The ring as a list\<close>

definition pipe_contents :: "pipe \<Rightarrow> u8 list" where
  "pipe_contents p = ring_list PIPE_BUFFER_SIZE (pbuffer p) (read_pos p) (pcount p)"

definition pipe_inv :: "pipe \<Rightarrow> bool" where
  "pipe_inv p \<longleftrightarrow> read_pos p < PIPE_BUFFER_SIZE \<and> pcount p \<le> PIPE_BUFFER_SIZE
     \<and> write_pos p = (read_pos p + pcount p) mod PIPE_BUFFER_SIZE"

lemma pipe_inv_sems [simp]:
  "pipe_inv (p\<lparr>read_wait := s\<rparr>) = pipe_inv p" "pipe_inv (p\<lparr>write_wait := s\<rparr>) = pipe_inv p"
  "pipe_contents (p\<lparr>read_wait := s\<rparr>) = pipe_contents p" "pipe_contents (p\<lparr>write_wait := s\<rparr>) = pipe_contents p"
  by (simp_all add: pipe_inv_def pipe_contents_def)

lemma length_pipe_contents [simp]: "length (pipe_contents p) = pcount p"
  by (simp add: pipe_contents_def)

lemma pipe_read_Done:
  assumes "pipe_inv p" and "pcount p \<noteq> 0"
  shows "\<exists>q. pipe_read ok cur p n = Done (take n (pipe_contents p)) q \<and> pipe_inv q
     \<and> pipe_contents q = drop n (pipe_contents p)"
proof -
  define k where "k = (if n < pcount p then n else pcount p)"
  have k: "k \<le> pcount p" "take n (pipe_contents p) = take k (pipe_contents p)"
      "drop n (pipe_contents p) = drop k (pipe_contents p)"
    by (auto simp: k_def)
  have rp: "read_pos p < 4096" using assms(1) by (simp add: pipe_inv_def)
  note d = ring_drain_spec [OF rp, of "pbuffer p" k]
  define q where "q = p\<lparr>read_pos := (read_pos p + k) mod 4096, pcount := pcount p - k,
      write_wait := snd (sem_post (write_wait p))\<rparr>"
  have "pipe_read ok cur p n = Done (take n (pipe_contents p)) q"
    using assms(2) k(2)
    by (subst pipe_read.simps) (simp add: d q_def pipe_contents_def ring_list_take [OF k(1)] flip: k_def)
  moreover have "pipe_contents q = drop n (pipe_contents p)"
    using ring_list_drop [OF rp k(1)] k(3) by (simp add: q_def pipe_contents_def)
  moreover have "((read_pos p + k) mod 4096 + (pcount p - k)) mod 4096 = (read_pos p + pcount p) mod 4096"
    using k(1) by (simp only: mod_add_left_eq) simp
  then have "pipe_inv q" using assms(1) k(1) by (auto simp: q_def pipe_inv_def)
  ultimately show ?thesis by blast
qed

lemma pipe_write_Done:
  assumes "pipe_inv p" and "pcount p < 4096"
  shows "\<exists>q. pipe_write ok cur p src = Done (min (length src) (4096 - pcount p)) q \<and> pipe_inv q
     \<and> pipe_contents q = pipe_contents p @ take (4096 - pcount p) src"
proof -
  define k where "k = (if length src < 4096 - pcount p then length src else 4096 - pcount p)"
  define xs where "xs = take k src"
  have k: "k = min (length src) (4096 - pcount p)" "length xs = k" "xs = take (4096 - pcount p) src"
    by (auto simp: k_def xs_def)
  have rp: "read_pos p < 4096" and wp: "write_pos p = (read_pos p + pcount p) mod 4096"
    using assms(1) by (auto simp: pipe_inv_def)
  then have wlt: "write_pos p < 4096" by simp
  define q where "q = p\<lparr>pbuffer := fst (ring_fill 4096 (pbuffer p) (write_pos p) xs),
      write_pos := (write_pos p + k) mod 4096, pcount := pcount p + k,
      read_wait := snd (sem_post (read_wait p))\<rparr>"
  have "pipe_write ok cur p src = Done k q"
    using assms(2) ring_fill_pos [OF wlt, of "pbuffer p" xs] k(2)
    by (subst pipe_write.simps) (auto simp: q_def Let_def split: prod.splits simp flip: k_def xs_def)
  moreover have "pipe_contents q = pipe_contents p @ take (4096 - pcount p) src"
    using ring_list_fill [OF rp, of "pcount p" xs "pbuffer p"] k assms(2)
    by (simp add: q_def pipe_contents_def wp)
  moreover have "pipe_inv q"
    using rp k(1) assms(2) by (auto simp: q_def pipe_inv_def wp mod_simps add.assoc)
  ultimately show ?thesis using k(1) by blast
qed

text \<open>A reader of an empty pipe sees the end of file or sleeps; a writer of a full pipe sleeps.\<close>

lemma pipe_read_empty:
  "pipe_inv p \<Longrightarrow> pcount p = 0 \<Longrightarrow> writers p \<noteq> 0 \<Longrightarrow>
     \<exists>s. pipe_read True cur p n = Sleep (p\<lparr>read_wait := s\<rparr>)"
proof (induction "unat (count (read_wait p))" arbitrary: p rule: less_induct)
  case less
  obtain b s where w: "sem_wait True cur (read_wait p) = Some (b, s)" by (rule sem_wait_succeeds)
  show ?case
  proof (cases b)
    case True
    with w less.prems show ?thesis by (subst pipe_read.simps) auto
  next
    case False
    with w have "unat (count s) < unat (count (read_wait p))" by (auto dest: sem_wait_decreases)
    then obtain s' where "pipe_read True cur (p\<lparr>read_wait := s\<rparr>) n = Sleep (p\<lparr>read_wait := s, read_wait := s'\<rparr>)"
      using less.hyps [of "p\<lparr>read_wait := s\<rparr>"] less.prems by auto
    with w False less.prems show ?thesis by (subst pipe_read.simps) auto
  qed
qed

lemma pipe_write_full:
  "pipe_inv p \<Longrightarrow> 4096 \<le> pcount p \<Longrightarrow> \<exists>s. pipe_write True cur p src = Sleep (p\<lparr>write_wait := s\<rparr>)"
proof (induction "unat (count (write_wait p))" arbitrary: p rule: less_induct)
  case less
  obtain b s where w: "sem_wait True cur (write_wait p) = Some (b, s)" by (rule sem_wait_succeeds)
  show ?case
  proof (cases b)
    case True
    with w less.prems show ?thesis by (subst pipe_write.simps) auto
  next
    case False
    with w have "unat (count s) < unat (count (write_wait p))" by (auto dest: sem_wait_decreases)
    then obtain s' where "pipe_write True cur (p\<lparr>write_wait := s\<rparr>) src = Sleep (p\<lparr>write_wait := s, write_wait := s'\<rparr>)"
      using less.hyps [of "p\<lparr>write_wait := s\<rparr>"] less.prems by auto
    with w False less.prems show ?thesis by (subst pipe_write.simps) auto
  qed
qed

subsection \<open>A pipe is a first-in first-out channel\<close>

text \<open>The calls as the channel contract sees them: a sleeping call has transferred nothing yet.\<close>

definition pipe_put :: "pipe \<Rightarrow> u8 list \<Rightarrow> nat \<times> pipe" where
  "pipe_put p xs = (case pipe_write True 0 p xs of Done n q \<Rightarrow> (n, q) | Sleep q \<Rightarrow> (0, q) | Crash \<Rightarrow> (0, p))"

definition pipe_get :: "pipe \<Rightarrow> nat \<Rightarrow> u8 list \<times> pipe" where
  "pipe_get p n = (case pipe_read True 0 p n of Done bs q \<Rightarrow> (bs, q) | Sleep q \<Rightarrow> ([], q) | Crash \<Rightarrow> ([], p))"

lemma pipe_put_spec:
  assumes "pipe_inv p" and "pipe_put p xs = (n, q)"
  shows "pipe_inv q \<and> n = min (length xs) (4096 - length (pipe_contents p))
     \<and> pipe_contents q = pipe_contents p @ take n xs"
proof (cases "pcount p < 4096")
  case True
  have "take (min (length xs) m) xs = take m xs" for m by (simp add: min_def)
  with pipe_write_Done [OF assms(1) True, of True 0 xs] assms(2) show ?thesis by (auto simp: pipe_put_def)
next
  case False
  with pipe_write_full [OF assms(1), of 0 xs] assms show ?thesis by (auto simp: pipe_put_def)
qed

lemma pipe_get_spec:
  assumes "pipe_inv p" and "pipe_get p n = (ys, q)"
  shows "pipe_inv q \<and> ys = take n (pipe_contents p) \<and> pipe_contents q = drop n (pipe_contents p)"
proof (cases "pcount p = 0")
  case True
  then have e: "pipe_contents p = []" using length_pipe_contents [of p] by (metis length_0_conv)
  show ?thesis
  proof (cases "writers p = 0")
    case True
    then have "pipe_read True 0 p n = Done [] p" using \<open>pcount p = 0\<close> by (subst pipe_read.simps) simp
    with assms e show ?thesis by (auto simp: pipe_get_def)
  next
    case False
    with pipe_read_empty [OF assms(1) True, of 0 n] assms e show ?thesis by (auto simp: pipe_get_def)
  qed
next
  case False
  with pipe_read_Done [OF assms(1), of True 0 n] assms(2) show ?thesis by (auto simp: pipe_get_def)
qed

interpretation pipe_channel: fifo_channel pipe_inv pipe_contents 4096 pipe_put pipe_get
proof unfold_locales
qed (fact pipe_put_spec pipe_get_spec)+

subsection \<open>Properties\<close>

text \<open>
  C4: a pipe neither loses, duplicates nor reorders bytes. For every schedule of reads and writes, the
  bytes in the pipe followed by the bytes the writes accepted are the bytes the reads delivered
  followed by the bytes still in the pipe.
\<close>

theorem pipe_is_fifo:
  assumes "pipe_inv p" and "transfer pipe_put pipe_get p es = (sent, received, q)"
  shows "pipe_inv q \<and> pipe_contents p @ sent = received @ pipe_contents q"
  by (rule pipe_channel.transfer_fifo [OF assms])

definition demo_pipe :: pipe where
  "demo_pipe = \<lparr>pipe_addr = 0x1010, buffer_addr = 0x2010, pbuffer = (\<lambda>_. 0), read_pos = 4095, write_pos = 4095,
     pcount = 0, read_wait = sem_init 0, write_wait = sem_init 0, readers = 1, writers = 1\<rparr>"

theorem pipe_is_fifo_witness:
  "pipe_inv demo_pipe \<and> (\<exists>sent received q.
     transfer pipe_put pipe_get demo_pipe [Inl [1, 2, 3], Inr 2] = (sent, received, q)
     \<and> sent = received @ pipe_contents q)"
proof -
  have i: "pipe_inv demo_pipe" by (simp add: pipe_inv_def demo_pipe_def)
  have e: "pipe_contents demo_pipe = []" by (simp add: pipe_contents_def demo_pipe_def ring_list_def)
  obtain sent received q where "transfer pipe_put pipe_get demo_pipe [Inl [1, 2, 3], Inr 2] = (sent, received, q)"
    by (metis prod_cases3)
  with pipe_is_fifo [OF i this] i e show ?thesis by auto
qed

text \<open>
  C23: the calls refine the list operations exactly: a write into a pipe that is not full returns with
  the number of bytes that fit and appends them, a read of a pipe that is not empty returns the front
  of the contents. Both loops terminate for every value of the semaphores.
\<close>

theorem pipe_refines_list:
  assumes "pipe_inv p"
  shows "(pcount p < 4096 \<longrightarrow> (\<exists>q. pipe_write ok cur p src = Done (min (length src) (4096 - pcount p)) q
        \<and> pipe_inv q \<and> pipe_contents q = pipe_contents p @ take (4096 - pcount p) src))
     \<and> (0 < pcount p \<longrightarrow> (\<exists>q. pipe_read ok cur p n = Done (take n (pipe_contents p)) q
        \<and> pipe_inv q \<and> pipe_contents q = drop n (pipe_contents p)))"
  using pipe_write_Done [OF assms] pipe_read_Done [OF assms] by auto

theorem pipe_refines_list_witness:
  "\<exists>q. pipe_write True 0 demo_pipe [1, 2, 3] = Done 3 q \<and> pipe_contents q = [1, 2, 3]"
proof -
  have "pipe_inv demo_pipe" by (simp add: pipe_inv_def demo_pipe_def)
  from pipe_refines_list [OF this, of True 0 "[1, 2, 3]"] show ?thesis
    by (auto simp: demo_pipe_def pipe_contents_def ring_list_def)
qed

text \<open>
  closing the last read end does not free a blocked writer: \<open>pipe_close_read\<close> posts the writers'
  semaphore, but a writer of a full pipe that runs again goes back to sleep, because its loop only
  looks at the fill level.
\<close>

theorem pipe_write_blocks_without_readers:
  assumes "pipe_inv p" and "pcount p = 4096" and "readers p = 1"
  shows "readers (pipe_close_read p) = 0 \<and> (\<exists>q. pipe_write True cur (pipe_close_read p) src = Sleep q)"
proof -
  have "pipe_inv (pipe_close_read p)" "pcount (pipe_close_read p) = 4096" "readers (pipe_close_read p) = 0"
    using assms by (simp_all add: pipe_close_read_def Let_def pipe_inv_def)
  with pipe_write_full [of "pipe_close_read p" cur src] show ?thesis by auto
qed

theorem pipe_write_blocks_without_readers_witness:
  "\<exists>q. pipe_write True 1 (pipe_close_read (demo_pipe\<lparr>pcount := 4096\<rparr>)) [9] = Sleep q"
  using pipe_write_blocks_without_readers [of "demo_pipe\<lparr>pcount := 4096\<rparr>"]
  by (auto simp: pipe_inv_def demo_pipe_def)

end
