(* ===== verification/Msg.thy ===== *)
theory Msg
  imports Sync Kheap
begin

text \<open>
  Message queues, \<open>kernel/ipc_msg.c\<close>, on the kernel heap. The cells of a queue are the list of its
  messages, each with the addresses of its cell and of its data block; \<open>head\<close> and \<open>tail\<close> are the
  ends of the list. The code under the queue mutex is one step. \<open>None\<close> is a fault inside the heap
  or a wait cell that could not be allocated.
\<close>

abbreviation "MSG_MAX_QUEUES \<equiv> 64 :: nat"
abbreviation "MSG_MAX_SIZE \<equiv> 4096 :: nat"
abbreviation "MSG_NOWAIT \<equiv> 1 :: u32"

record msg_node =
  node_addr :: u32
  data_addr :: u32
  msg_data :: "u8 list"

record msg_queue =
  queue_addr :: u32
  key :: int
  nodes :: "msg_node list"
  msg_count :: u32
  wait_sem :: sem

record msg_sys =
  queues :: "nat \<Rightarrow> msg_queue option"
  mheap :: kheap

definition msg_init :: "kheap \<Rightarrow> msg_sys" where
  "msg_init h = \<lparr>queues = (\<lambda>_. None), mheap = h\<rparr>"

definition free_slot :: "msg_sys \<Rightarrow> nat option" where
  "free_slot s = find (\<lambda>i. queues s i = None) [0..<MSG_MAX_QUEUES]"

definition queue_at :: "msg_sys \<Rightarrow> int \<Rightarrow> msg_queue option" where
  "queue_at s qid = (if qid < 0 \<or> qid \<ge> 64 then None else queues s (nat qid))"

text \<open>\<open>sizeof(msg_queue_t)\<close> is 36, \<open>sizeof(msg_node_t)\<close> is 12.\<close>

definition msg_create :: "msg_sys \<Rightarrow> int \<Rightarrow> (int \<times> msg_sys) option" where
  "msg_create s k =
     (case free_slot s of
        None \<Rightarrow> Some (-1, s)
      | Some slot \<Rightarrow>
          (case kmalloc (mheap s) 36 of
             None \<Rightarrow> None
           | Some (q, h) \<Rightarrow>
               if q = 0 then Some (-1, s\<lparr>mheap := h\<rparr>)
               else Some (int slot,
                      s\<lparr>mheap := h, queues := (queues s)(slot \<mapsto>
                         \<lparr>queue_addr = q, key = k, nodes = [], msg_count = 0, wait_sem = sem_init 0\<rparr>)\<rparr>)))"

definition msg_send :: "msg_sys \<Rightarrow> int \<Rightarrow> u8 list \<Rightarrow> (int \<times> msg_sys) option" where
  "msg_send s qid data =
     (case queue_at s qid of
        None \<Rightarrow> Some (-1, s)
      | Some q \<Rightarrow>
          if length data > MSG_MAX_SIZE then Some (-1, s)
          else
            (case kmalloc (mheap s) 12 of
               None \<Rightarrow> None
             | Some (node, h1) \<Rightarrow>
                 if node = 0 then Some (-1, s\<lparr>mheap := h1\<rparr>)
                 else
                   (case kmalloc h1 (of_nat (length data)) of
                      None \<Rightarrow> None
                    | Some (d, h2) \<Rightarrow>
                        if d = 0 then map_option (\<lambda>h3. (-1, s\<lparr>mheap := h3\<rparr>)) (kfree h2 node)
                        else
                          (let h3 = h2\<lparr>bytes := (\<lambda>b. if b - d < of_nat (length data)
                                                  then data ! unat (b - d) else bytes h2 b)\<rparr>;
                               q1 = q\<lparr>nodes := nodes q @ [\<lparr>node_addr = node, data_addr = d, msg_data = data\<rparr>],
                                      msg_count := msg_count q + 1,
                                      wait_sem := snd (sem_post (wait_sem q))\<rparr>
                           in Some (0, s\<lparr>mheap := h3, queues := (queues s)(nat qid \<mapsto> q1)\<rparr>)))))"

datatype recv_result = Got "u8 list" | Fail | Asleep

text \<open>The second half of \<open>msg_recv\<close>, under the queue mutex.\<close>

definition msg_take :: "msg_sys \<Rightarrow> int \<Rightarrow> msg_queue \<Rightarrow> nat \<Rightarrow> (recv_result \<times> msg_sys) option" where
  "msg_take s qid q sz =
     (case nodes q of
        [] \<Rightarrow> Some (Fail, s\<lparr>queues := (queues s)(nat qid \<mapsto> q)\<rparr>)
      | node # rest \<Rightarrow>
          (let q1 = q\<lparr>nodes := rest, msg_count := msg_count q - 1\<rparr>;
               copy_size = (if length (msg_data node) > sz then sz else length (msg_data node))
           in case kfree (mheap s) (data_addr node) of
                None \<Rightarrow> None
              | Some h1 \<Rightarrow>
                  (case kfree h1 (node_addr node) of
                     None \<Rightarrow> None
                   | Some h2 \<Rightarrow>
                       Some (Got (take copy_size (msg_data node)),
                             s\<lparr>mheap := h2, queues := (queues s)(nat qid \<mapsto> q1)\<rparr>))))"

definition msg_recv :: "bool \<Rightarrow> nat \<Rightarrow> msg_sys \<Rightarrow> int \<Rightarrow> nat \<Rightarrow> u32 \<Rightarrow> (recv_result \<times> msg_sys) option" where
  "msg_recv node_ok cur s qid sz flags =
     (case queue_at s qid of
        None \<Rightarrow> Some (Fail, s)
      | Some q \<Rightarrow>
          if flags AND MSG_NOWAIT \<noteq> 0
          then if sem_getvalue (wait_sem q) \<le> 0 then Some (Fail, s) else msg_take s qid q sz
          else case sem_wait node_ok cur (wait_sem q) of
                 None \<Rightarrow> None
               | Some (blocked, w) \<Rightarrow>
                   let q1 = q\<lparr>wait_sem := w\<rparr> in
                   if blocked then Some (Asleep, s\<lparr>queues := (queues s)(nat qid \<mapsto> q1)\<rparr>)
                   else msg_take s qid q1 sz)"

fun free_nodes :: "kheap \<Rightarrow> msg_node list \<Rightarrow> kheap option" where
  "free_nodes h [] = Some h"
| "free_nodes h (n # ns) =
     (case (if data_addr n \<noteq> 0 then kfree h (data_addr n) else Some h) of
        None \<Rightarrow> None
      | Some h1 \<Rightarrow> (case kfree h1 (node_addr n) of None \<Rightarrow> None | Some h2 \<Rightarrow> free_nodes h2 ns))"

definition msg_destroy :: "msg_sys \<Rightarrow> int \<Rightarrow> msg_sys option" where
  "msg_destroy s qid =
     (case queue_at s qid of
        None \<Rightarrow> Some s
      | Some q \<Rightarrow>
          (case free_nodes (mheap s) (nodes q) of
             None \<Rightarrow> None
           | Some h1 \<Rightarrow>
               map_option (\<lambda>h2. s\<lparr>mheap := h2, queues := (queues s)(nat qid := None)\<rparr>)
                 (kfree h1 (queue_addr q))))"

text \<open>The listing: key, number of messages and bytes of the first \<open>max_count\<close> queues.\<close>

definition queue_info :: "msg_queue \<Rightarrow> int \<times> u32 \<times> u32" where
  "queue_info q = (key q, msg_count q, sum_list (map (\<lambda>n. of_nat (length (msg_data n))) (nodes q)))"

definition msg_list :: "msg_sys \<Rightarrow> nat \<Rightarrow> (int \<times> u32 \<times> u32) list" where
  "msg_list s max_count =
     take max_count (map queue_info (List.map_filter (queues s) [0..<MSG_MAX_QUEUES]))"

subsection \<open>Receiving\<close>

definition queue_sync :: "msg_queue \<Rightarrow> bool" where
  "queue_sync q \<longleftrightarrow> sint (count (wait_sem q)) = int (length (nodes q)) \<and> swaiters (wait_sem q) = []"

lemma msg_take_Got:
  assumes "nodes q = n # ns" and "msg_take s qid q sz = Some (r, t)"
  shows "r = Got (take sz (msg_data n)) \<and>
     queues t = (queues s)(nat qid \<mapsto> q\<lparr>nodes := ns, msg_count := msg_count q - 1\<rparr>)"
  using assms by (auto simp: msg_take_def Let_def split: option.splits if_splits)

lemma queue_at_upd:
  "queue_at s qid = Some q \<Longrightarrow> queues t = (queues s)(nat qid \<mapsto> q') \<Longrightarrow> queue_at t qid = Some q'"
  by (auto simp: queue_at_def split: if_splits)

subsection \<open>Properties\<close>


definition demo_msgs :: msg_sys where
  "demo_msgs = \<lparr>queues = [2 \<mapsto> \<lparr>queue_addr = 0x1010, key = 7,
       nodes = [\<lparr>node_addr = 0, data_addr = 0, msg_data = [4, 5]\<rparr>], msg_count = 1,
       wait_sem = \<lparr>count = 1, swaiters = []\<rparr>\<rparr>],
     mheap = demo_heap\<rparr>"


text \<open>
  a non-blocking receive takes a message without taking a unit from the semaphore. After the last
  message has been received that way, the next blocking receive does not sleep until a message
  arrives but fails at once.
\<close>

theorem msg_nowait_desync:
  assumes q: "queue_at s qid = Some q" and sync: "queue_sync q" and n: "nodes q = [n]"
    and r: "msg_recv ok cur s qid sz MSG_NOWAIT = Some (r, t)"
  shows "r = Got (take sz (msg_data n)) \<and> (\<exists>u. msg_recv ok' cur' t qid sz' 0 = Some (Fail, u))"
proof -
  have c1: "sint (count (wait_sem q)) = 1" using sync n by (simp add: queue_sync_def)
  then have take: "msg_take s qid q sz = Some (r, t)"
    using r q by (simp add: msg_recv_def sem_getvalue_def)
  note t = msg_take_Got [OF n take]
  define q' where "q' = q\<lparr>nodes := [], msg_count := msg_count q - 1\<rparr>"
  have q': "queue_at t qid = Some q'" using queue_at_upd [OF q] t by (simp add: q'_def)
  have "sint (count (wait_sem q) - 1) = sint (count (wait_sem q)) - 1"
    using c1 by (intro sint_diff_u32 [of "count (wait_sem q)" 1, simplified]) auto
  then have "sem_wait ok' cur' (wait_sem q') = Some (False, (wait_sem q)\<lparr>count := count (wait_sem q) - 1\<rparr>)"
    using c1 by (simp add: sem_wait_def Let_def q'_def)
  with q' have "\<exists>u. msg_recv ok' cur' t qid sz' 0 = Some (Fail, u)"
    by (simp add: msg_recv_def Let_def msg_take_def q'_def)
  with t show ?thesis by simp
qed

theorem msg_nowait_desync_witness:
  "\<exists>r t. msg_recv True 1 demo_msgs 2 8 MSG_NOWAIT = Some (r, t) \<and> r = Got [4, 5]
     \<and> (\<exists>u. msg_recv True 1 t 2 8 0 = Some (Fail, u))"
proof -
  let ?q = "the (queues demo_msgs 2)"
  have "msg_recv True 1 demo_msgs 2 8 MSG_NOWAIT \<noteq> None"
    by (simp add: msg_recv_def queue_at_def demo_msgs_def sem_getvalue_def Let_def msg_take_def kfree_def)
  then obtain r t where r: "msg_recv True 1 demo_msgs 2 8 MSG_NOWAIT = Some (r, t)" by auto
  have "queue_at demo_msgs 2 = Some ?q" "queue_sync ?q"
    "nodes ?q = [\<lparr>node_addr = 0, data_addr = 0, msg_data = [4, 5]\<rparr>]"
    by (simp_all add: queue_at_def demo_msgs_def queue_sync_def)
  from msg_nowait_desync [OF this r] r show ?thesis by simp
qed

end
