(* ===== verification/SemSet.thy ===== *)
theory SemSet
  imports Interfaces "HOL-Library.Multiset"
begin

text \<open>
  System V semaphore sets, \<open>kernel/ipc_sem.c\<close>: thirty-two sets of up to sixteen semaphores with 16-bit
  values, atomic groups of operations, control commands, and undo records that are rolled back when
  a process exits. Every public function runs under the spinlock and is one step; a group that has
  to wait leaves its waiting counters behind and is checked again when its condition holds. \<open>now\<close> is the
  value of \<open>timer_get_ticks()\<close>, \<open>cur\<close> the pid of the current process (0 when there is none).
\<close>

subsection \<open>State\<close>

abbreviation "IPC_SEM_MAX_SETS \<equiv> 32 :: nat"
abbreviation "IPC_SEM_MAX_NSEMS \<equiv> 16 :: nat"
abbreviation "IPC_SEM_MAX_UNDO \<equiv> 64 :: nat"
abbreviation "SEM_NOWAIT \<equiv> 0x01 :: 16 word"
abbreviation "SEM_UNDO \<equiv> 0x1000 :: 16 word"

record sem_unit =
  svalue :: "16 word"
  wait_cnt :: u16
  wait_zero :: u16
  last_pid :: int

record sem_set =
  in_use :: bool
  skey :: int
  nsems :: nat
  sowner :: int
  ctime :: u32
  otime :: u32
  create_tick :: u32
  sems :: "nat \<Rightarrow> sem_unit"

record sem_undo =
  upid :: int
  usemid :: int
  usem_num :: nat
  adjval :: "16 word"

record sem_stats =
  total_sets :: u32
  total_sems :: u32
  total_ops :: u32
  total_blocks :: u32
  total_wakeups :: u32
  total_undo_ops :: u32

record sem_sys =
  sets :: "nat \<Rightarrow> sem_set"
  undo :: "sem_undo list"
  stats :: sem_stats

record sembuf =
  sem_num :: nat
  sem_op :: "16 word"
  sem_flg :: "16 word"

definition zero_unit :: sem_unit where
  "zero_unit = \<lparr>svalue = 0, wait_cnt = 0, wait_zero = 0, last_pid = 0\<rparr>"

definition zero_set :: sem_set where
  "zero_set = \<lparr>in_use = False, skey = 0, nsems = 0, sowner = 0, ctime = 0, otime = 0, create_tick = 0,
     sems = (\<lambda>_. zero_unit)\<rparr>"

definition zero_stats :: sem_stats where
  "zero_stats = \<lparr>total_sets = 0, total_sems = 0, total_ops = 0, total_blocks = 0, total_wakeups = 0,
     total_undo_ops = 0\<rparr>"

definition ipc_sem_init :: sem_sys where
  "ipc_sem_init = \<lparr>sets = (\<lambda>_. zero_set), undo = [], stats = zero_stats\<rparr>"

subsection \<open>Lookup and creation\<close>

definition ipc_sem_find_internal :: "sem_sys \<Rightarrow> int \<Rightarrow> nat option" where
  "ipc_sem_find_internal g semid =
     (if semid < 0 \<or> semid \<ge> 32 then None
      else if \<not> in_use (sets g (nat semid)) then None else Some (nat semid))"

definition ipc_sem_find_by_key_internal :: "sem_sys \<Rightarrow> int \<Rightarrow> nat option" where
  "ipc_sem_find_by_key_internal g k =
     (if k = 0 then None
      else find (\<lambda>i. in_use (sets g i) \<and> skey (sets g i) = k) [0..<IPC_SEM_MAX_SETS])"

definition ipc_semget :: "u32 \<Rightarrow> int \<Rightarrow> sem_sys \<Rightarrow> int \<Rightarrow> int \<Rightarrow> int \<times> sem_sys" where
  "ipc_semget now cur g k n =
     (if n \<le> 0 \<or> n > 16 then (-1, g)
      else
        (case (if k \<noteq> 0 then ipc_sem_find_by_key_internal g k else None) of
           Some i \<Rightarrow> (if nat n > nsems (sets g i) then -2 else int i, g)
         | None \<Rightarrow>
             (case find (\<lambda>i. \<not> in_use (sets g i)) [0..<IPC_SEM_MAX_SETS] of
                None \<Rightarrow> (-3, g)
              | Some i \<Rightarrow>
                  (int i,
                   g\<lparr>sets := (sets g)(i := zero_set\<lparr>in_use := True, skey := k, nsems := nat n,
                        sowner := cur, create_tick := now, ctime := now\<rparr>),
                     stats := (stats g)\<lparr>total_sets := total_sets (stats g) + 1,
                        total_sems := total_sems (stats g) + word_of_int n\<rparr>\<rparr>))))"

subsection \<open>Groups of operations\<close>

definition ipc_sem_undo_record :: "sem_undo list \<Rightarrow> int \<Rightarrow> int \<Rightarrow> nat \<Rightarrow> 16 word \<Rightarrow> sem_undo list" where
  "ipc_sem_undo_record us p semid num op =
     (if op = 0 then us
      else case find_index (\<lambda>u. upid u = p \<and> usemid u = semid \<and> usem_num u = num) us of
             Some i \<Rightarrow> us[i := (us ! i)\<lparr>adjval := adjval (us ! i) - op\<rparr>]
           | None \<Rightarrow>
               if length us \<ge> IPC_SEM_MAX_UNDO then us
               else us @ [\<lparr>upid = p, usemid = semid, usem_num = num, adjval = - op\<rparr>])"

text \<open>The check pass: go on, the index is out of range, or operation \<open>op\<close> on semaphore \<open>n\<close> must wait.\<close>

datatype check = Proceed | BadIndex | MustWait sembuf

fun semop_check :: "sem_set \<Rightarrow> sembuf list \<Rightarrow> check" where
  "semop_check s [] = Proceed"
| "semop_check s (b # bs) =
     (if sem_num b \<ge> nsems s then BadIndex
      else let v = sint (svalue (sems s (sem_num b))); op = sint (sem_op b) in
           if op = 0 \<and> v \<noteq> 0 \<or> op < 0 \<and> v + op < 0 then MustWait b
           else semop_check s bs)"

text \<open>The apply pass, one operation.\<close>

definition semop_apply :: "int \<Rightarrow> int \<Rightarrow> bool \<Rightarrow> nat \<Rightarrow> sem_sys \<Rightarrow> sembuf \<Rightarrow> sem_sys" where
  "semop_apply cur semid use_undo i g b =
     (let s = sets g i; u = sems s (sem_num b);
          u1 = u\<lparr>svalue := svalue u + sem_op b, last_pid := cur\<rparr>;
          g1 = g\<lparr>sets := (sets g)(i := s\<lparr>sems := (sems s)(sem_num b := u1)\<rparr>)\<rparr>
      in if use_undo \<and> sem_op b \<noteq> 0
         then g1\<lparr>undo := ipc_sem_undo_record (undo g1) cur semid (sem_num b) (sem_op b),
                 stats := (stats g1)\<lparr>total_undo_ops := total_undo_ops (stats g1) + 1\<rparr>\<rparr>
         else g1)"

text \<open>A group returns a value or waits for one of its operations.\<close>

datatype semop_result = Ret int | Waits sembuf

text \<open>From the label \<open>retry_check\<close> on: check every operation against the set, then apply them all.\<close>

definition semop_attempt ::
    "u32 \<Rightarrow> int \<Rightarrow> sem_sys \<Rightarrow> int \<Rightarrow> nat \<Rightarrow> sembuf list \<Rightarrow> semop_result \<times> sem_sys" where
  "semop_attempt now cur g semid i sops =
     (let nowait = (\<exists>b \<in> set sops. sem_flg b AND SEM_NOWAIT \<noteq> 0);
          use_undo = (\<exists>b \<in> set sops. sem_flg b AND SEM_UNDO \<noteq> 0);
          s = sets g i
      in case semop_check s sops of
           BadIndex \<Rightarrow> (Ret (-3), g)
         | MustWait b \<Rightarrow>
             if nowait then (Ret (-1), g)
             else (let u = sems s (sem_num b);
                       u1 = (if sem_op b = 0 then u\<lparr>wait_zero := wait_zero u + 1\<rparr>
                             else u\<lparr>wait_cnt := wait_cnt u + 1\<rparr>)
                   in (Waits b,
                       g\<lparr>sets := (sets g)(i := s\<lparr>sems := (sems s)(sem_num b := u1)\<rparr>),
                         stats := (stats g)\<lparr>total_blocks := total_blocks (stats g) + 1\<rparr>\<rparr>))
         | Proceed \<Rightarrow>
             (let g1 = foldl (semop_apply cur semid use_undo i) g sops
              in (Ret 0, g1\<lparr>sets := (sets g1)(i := (sets g1 i)\<lparr>otime := now\<rparr>),
                           stats := (stats g1)\<lparr>total_ops := total_ops (stats g1) + 1\<rparr>\<rparr>)))"

definition ipc_semop :: "u32 \<Rightarrow> int \<Rightarrow> sem_sys \<Rightarrow> int \<Rightarrow> sembuf list \<Rightarrow> semop_result \<times> sem_sys" where
  "ipc_semop now cur g semid sops =
     (if sops = [] then (Ret (-1), g)
      else case ipc_sem_find_internal g semid of
             None \<Rightarrow> (Ret (-2), g)
           | Some i \<Rightarrow> semop_attempt now cur g semid i sops)"

text \<open>The busy wait for operation \<open>b\<close>: \<open>None\<close> while it still has to wait; otherwise the counters are taken
  back and the group is tried again on the same set, which may have been removed meanwhile.\<close>

definition semop_wakeup ::
    "u32 \<Rightarrow> int \<Rightarrow> sem_sys \<Rightarrow> int \<Rightarrow> nat \<Rightarrow> sembuf list \<Rightarrow> sembuf \<Rightarrow> (semop_result \<times> sem_sys) option" where
  "semop_wakeup now cur g semid i sops b =
     (let s = sets g i; u = sems s (sem_num b) in
      if sem_op b = 0 \<and> svalue u \<noteq> 0 \<or> sem_op b \<noteq> 0 \<and> sint (svalue u) + sint (sem_op b) < 0 then None
      else (let u1 = (if sem_op b = 0 then u\<lparr>wait_zero := wait_zero u - 1\<rparr> else u\<lparr>wait_cnt := wait_cnt u - 1\<rparr>)
            in Some (semop_attempt now cur
                 (g\<lparr>sets := (sets g)(i := s\<lparr>sems := (sems s)(sem_num b := u1)\<rparr>),
                    stats := (stats g)\<lparr>total_wakeups := total_wakeups (stats g) + 1\<rparr>\<rparr>) semid i sops)))"

subsection \<open>Control, listing and exit\<close>

datatype semctl =
    GETVAL int
  | SETVAL int "int option"
  | GETPID int
  | GETNCNT int
  | GETZCNT int
  | GETALL bool
  | SETALL "u16 list option"
  | RMID
  | STAT bool
  | OTHER

type_synonym semid_ds = "int \<times> nat \<times> int \<times> u32 \<times> u32 \<times> u32"

definition semid_ds :: "sem_set \<Rightarrow> semid_ds" where
  "semid_ds s = (skey s, nsems s, sowner s, ctime s, otime s, create_tick s)"

definition bad_num :: "sem_set \<Rightarrow> int \<Rightarrow> bool" where
  "bad_num s n \<longleftrightarrow> n < 0 \<or> nat n \<ge> nsems s"

text \<open>The return value, the words written to \<open>arg\<close> by GETALL, the record written by STAT, the state.\<close>

definition ipc_semctl ::
    "u32 \<Rightarrow> sem_sys \<Rightarrow> int \<Rightarrow> semctl \<Rightarrow> int \<times> u16 list \<times> semid_ds option \<times> sem_sys" where
  "ipc_semctl now g semid cmd =
     (case ipc_sem_find_internal g semid of
        None \<Rightarrow> (-2, [], None, g)
      | Some i \<Rightarrow>
          (let s = sets g i; put = (\<lambda>s'. g\<lparr>sets := (sets g)(i := s')\<rparr>) in
           case cmd of
             GETVAL n \<Rightarrow> (if bad_num s n then -3 else sint (svalue (sems s (nat n))), [], None, g)
           | SETVAL n arg \<Rightarrow>
               (case arg of
                  None \<Rightarrow> (-3, [], None, g)
                | Some v \<Rightarrow>
                    if bad_num s n then (-3, [], None, g)
                    else (0, [], None, put (s\<lparr>sems := (sems s)(nat n := (sems s (nat n))\<lparr>svalue := word_of_int v\<rparr>),
                                             ctime := now\<rparr>)))
           | GETPID n \<Rightarrow> (if bad_num s n then -3 else last_pid (sems s (nat n)), [], None, g)
           | GETNCNT n \<Rightarrow> (if bad_num s n then -3 else uint (wait_cnt (sems s (nat n))), [], None, g)
           | GETZCNT n \<Rightarrow> (if bad_num s n then -3 else uint (wait_zero (sems s (nat n))), [], None, g)
           | GETALL arg \<Rightarrow>
               if \<not> arg then (-3, [], None, g)
               else (0, map (\<lambda>j. svalue (sems s j)) [0..<nsems s], None, g)
           | SETALL arg \<Rightarrow>
               (case arg of
                  None \<Rightarrow> (-3, [], None, g)
                | Some vs \<Rightarrow>
                    (0, [], None,
                     put (s\<lparr>sems := (\<lambda>j. if j < nsems s then (sems s j)\<lparr>svalue := vs ! j\<rparr> else sems s j),
                            ctime := now\<rparr>)))
           | RMID \<Rightarrow> (0, [], None, put zero_set)
           | STAT arg \<Rightarrow> (0, [], if arg then Some (semid_ds s) else None, g)
           | OTHER \<Rightarrow> (-4, [], None, g)))"

definition ipc_sem_find_by_key :: "sem_sys \<Rightarrow> int \<Rightarrow> int" where
  "ipc_sem_find_by_key g k =
     (if k = 0 then -1 else case ipc_sem_find_by_key_internal g k of Some i \<Rightarrow> int i | None \<Rightarrow> -1)"

definition ipc_sem_list :: "sem_sys \<Rightarrow> nat \<Rightarrow> semid_ds list" where
  "ipc_sem_list g max_count =
     take max_count (map (\<lambda>i. semid_ds (sets g i)) (filter (\<lambda>i. in_use (sets g i)) [0..<IPC_SEM_MAX_SETS]))"

definition ipc_sem_get_stats :: "sem_sys \<Rightarrow> sem_stats" where
  "ipc_sem_get_stats g = stats g"

definition ipc_sem_reset_stats :: "sem_sys \<Rightarrow> sem_sys" where
  "ipc_sem_reset_stats g = g\<lparr>stats := zero_stats\<rparr>"

text \<open>Rolling back one undo record, when its set still exists.\<close>

definition undo_apply :: "(nat \<Rightarrow> sem_set) \<Rightarrow> sem_undo \<Rightarrow> (nat \<Rightarrow> sem_set)" where
  "undo_apply ss u =
     (if usemid u < 0 \<or> usemid u \<ge> 32 then ss
      else let i = nat (usemid u); s = ss i in
           if in_use s \<and> usem_num u < nsems s
           then ss(i := s\<lparr>sems := (sems s)(usem_num u :=
                    (sems s (usem_num u))\<lparr>svalue := svalue (sems s (usem_num u)) + adjval u\<rparr>)\<rparr>)
           else ss)"

function undo_loop :: "int \<Rightarrow> nat \<Rightarrow> sem_undo list \<Rightarrow> (nat \<Rightarrow> sem_set) \<Rightarrow> sem_undo list \<times> (nat \<Rightarrow> sem_set)" where
  "undo_loop p i us ss =
     (if i \<ge> length us then (us, ss)
      else if upid (us ! i) \<noteq> p then undo_loop p (i + 1) us ss
      else let ss1 = undo_apply ss (us ! i) in
           if i < length us - 1 then undo_loop p i (butlast (us[i := last us])) ss1
           else undo_loop p (i + 1) (butlast us) ss1)"
  by pat_completeness auto

termination undo_loop
  by (relation "measure (\<lambda>(_, i, us, _). length us - i)") auto

definition ipc_sem_undo_exit :: "sem_sys \<Rightarrow> int \<Rightarrow> sem_sys" where
  "ipc_sem_undo_exit g p =
     (let (us, ss) = undo_loop p 0 (undo g) (sets g) in g\<lparr>undo := us, sets := ss\<rparr>)"

declare undo_loop.simps [simp del]

subsection \<open>Undo records as a multiset\<close>

lemma mset_swap_remove:
  assumes "i < length us - 1"
  shows "mset us = add_mset (us ! i) (mset (butlast (us[i := last us])))"
proof -
  obtain ys z where us: "us = ys @ [z]" using assms by (cases us rule: rev_cases) auto
  with assms have i: "i < length ys" by simp
  then have "mset (ys[i := z]) = add_mset z (mset ys - {# ys ! i #})" by (rule mset_update)
  moreover have "mset ys = add_mset (ys ! i) (mset ys - {# ys ! i #})" using i by simp
  ultimately show ?thesis using i by (simp add: us list_update_append nth_append)
qed

lemma mset_drop_last: "us \<noteq> [] \<Longrightarrow> mset us = add_mset (last us) (mset (butlast us))"
  by (metis add_mset_add_single append_butlast_last_id mset.simps(1) mset.simps(2) mset_append)

definition adj_for :: "nat \<Rightarrow> nat \<Rightarrow> sem_undo \<Rightarrow> 16 word" where
  "adj_for k n u = (if usemid u = int k \<and> usem_num u = n then adjval u else 0)"

lemma undo_apply_shape:
  "in_use (undo_apply ss u k) = in_use (ss k)" "nsems (undo_apply ss u k) = nsems (ss k)"
  by (auto simp: undo_apply_def Let_def)

definition live :: "(nat \<Rightarrow> sem_set) \<Rightarrow> nat \<Rightarrow> nat \<Rightarrow> bool" where
  "live ss k n \<longleftrightarrow> k < IPC_SEM_MAX_SETS \<and> in_use (ss k) \<and> n < nsems (ss k)"

lemma undo_apply_value:
  "svalue (sems (undo_apply ss u k) n) = svalue (sems (ss k) n) + (if live ss k n then adj_for k n u else 0)"
  by (auto simp: undo_apply_def adj_for_def live_def Let_def nat_eq_iff)

lemma undo_loop_spec:
  assumes "undo_loop p i us ss = (us', ss')" and "\<forall>j < min i (length us). upid (us ! j) \<noteq> p"
  shows "mset us' = filter_mset (\<lambda>u. upid u \<noteq> p) (mset us) \<and>
     svalue (sems (ss' k) n) = svalue (sems (ss k) n) +
       (if live ss k n then \<Sum>u\<in>#filter_mset (\<lambda>u. upid u = p) (mset us). adj_for k n u else 0)"
  using assms
proof (induction p i us ss rule: undo_loop.induct)
  case (1 p i us ss)
  show ?case
  proof (cases "i \<ge> length us")
    case True
    then have "us' = us" "ss' = ss" using "1.prems"(1) by (auto simp: undo_loop.simps [of p i us ss])
    moreover have all: "\<forall>u \<in># mset us. upid u \<noteq> p"
      using "1.prems"(2) True by (auto simp: in_set_conv_nth)
    then have "filter_mset (\<lambda>u. upid u \<noteq> p) (mset us) = mset us" by (simp add: filter_mset_eq_conv)
    moreover have "filter_mset (\<lambda>u. upid u = p) (mset us) = filter_mset (\<lambda>_. False) (mset us)"
      using all by (intro filter_mset_cong) auto
    ultimately show ?thesis
      by (simp only: filter_mset_False image_mset_empty sum_mset.empty add_0_right simp_thms if_cancel)
  next
    case lt: False
    show ?thesis
    proof (cases "upid (us ! i) = p")
      case False
      then have r: "undo_loop p (i + 1) us ss = (us', ss')"
        using "1.prems"(1) lt by (simp add: undo_loop.simps [of p i us ss])
      have "\<forall>j < min (i + 1) (length us). upid (us ! j) \<noteq> p"
        using "1.prems"(2) False by (auto simp: less_Suc_eq)
      from "1.IH"(1) [OF lt False r this] show ?thesis .
    next
      case True
      then have np: "\<not> upid (us ! i) \<noteq> p" by simp
      define ss1 where "ss1 = undo_apply ss (us ! i)"
      have v: "svalue (sems (ss1 k) n) = svalue (sems (ss k) n) + (if live ss k n then adj_for k n (us ! i) else 0)"
        and sh: "live ss1 k n = live ss k n"
        by (simp_all add: ss1_def undo_apply_value undo_apply_shape live_def)
      obtain vs j where vs: "undo_loop p j vs ss1 = (us', ss')" "mset us = add_mset (us ! i) (mset vs)"
        "mset us' = filter_mset (\<lambda>u. upid u \<noteq> p) (mset vs) \<and>
           svalue (sems (ss' k) n) = svalue (sems (ss1 k) n) +
             (if live ss1 k n then \<Sum>u\<in>#filter_mset (\<lambda>u. upid u = p) (mset vs). adj_for k n u else 0)"
      proof (cases "i < length us - 1")
        case swap: True
        let ?vs = "butlast (us[i := last us])"
        have r: "undo_loop p i ?vs ss1 = (us', ss')"
          using "1.prems"(1) lt True swap by (simp add: undo_loop.simps [of p i us ss] ss1_def Let_def)
        have "\<forall>j < min i (length ?vs). upid (?vs ! j) \<noteq> p"
          using "1.prems"(2) swap by (auto simp: nth_butlast)
        from "1.IH"(2) [OF lt np ss1_def swap r this]
        show ?thesis by (rule that [OF r mset_swap_remove [OF swap]])
      next
        case last: False
        have r: "undo_loop p (i + 1) (butlast us) ss1 = (us', ss')"
          using "1.prems"(1) lt True last by (simp add: undo_loop.simps [of p i us ss] ss1_def Let_def)
        have ne: "us \<noteq> []" and "i = length us - 1" using lt last by auto
        then have m: "mset us = add_mset (us ! i) (mset (butlast us))"
          using mset_drop_last [OF ne] last_conv_nth [OF ne] by simp
        have "\<forall>j < min (i + 1) (length (butlast us)). upid (butlast us ! j) \<noteq> p"
          using "1.prems"(2) lt last by (auto simp: nth_butlast)
        from "1.IH"(3) [OF lt np ss1_def last r this]
        show ?thesis by (rule that [OF r m])
      qed
      then show ?thesis unfolding vs(2) using True v sh by (simp add: add.assoc)
    qed
  qed
qed

subsection \<open>Groups of operations\<close>

lemma semop_apply_shape:
  "in_use (sets (semop_apply cur semid uu i g b) k) = in_use (sets g k)"
  "nsems (sets (semop_apply cur semid uu i g b) k) = nsems (sets g k)"
  by (auto simp: semop_apply_def Let_def)

lemma semop_apply_value:
  "svalue (sems (sets (semop_apply cur semid uu i g b) k) n) =
     svalue (sems (sets g k) n) + (if k = i \<and> n = sem_num b then sem_op b else 0)"
  by (auto simp: semop_apply_def Let_def)

lemma semop_fold_value:
  "svalue (sems (sets (foldl (semop_apply cur semid uu i) g bs) k) n) =
     svalue (sems (sets g k) n) + (\<Sum>b\<leftarrow>bs. if k = i \<and> n = sem_num b then sem_op b else 0)"
  by (induction bs arbitrary: g) (simp_all add: semop_apply_value add.assoc)

lemma semop_check_index:
  "semop_check s bs = MustWait b \<Longrightarrow> b \<in> set bs \<and> sem_num b < nsems s"
  by (induction bs) (auto simp: Let_def split: if_splits)

subsection \<open>Properties\<close>

text \<open>C27: a group of semaphore operations is all or nothing. When \<open>ipc_semop\<close> returns 0, every semaphore of
  the set has received the sum of the operations of the group on it; with every other result, an
  error or a wait, no value of any set has changed.\<close>
theorem semop_all_or_nothing:
  assumes "ipc_semop now cur g semid sops = (r, g')"
  shows "if r = Ret 0
         then \<exists>i. ipc_sem_find_internal g semid = Some i \<and>
           (\<forall>k n. svalue (sems (sets g' k) n) = svalue (sems (sets g k) n) +
              (\<Sum>b\<leftarrow>sops. if k = i \<and> n = sem_num b then sem_op b else 0))
         else \<forall>k n. svalue (sems (sets g' k) n) = svalue (sems (sets g k) n)"
proof (cases "ipc_sem_find_internal g semid")
  case None
  with assms show ?thesis by (auto simp: ipc_semop_def semop_attempt_def split: if_splits)
next
  case (Some i)
  show ?thesis
  proof (cases "semop_check (sets g i) sops")
    case Proceed
    have v: "svalue (sems (((sets h)(i := (sets h i)\<lparr>otime := now\<rparr>)) k) n) = svalue (sems (sets h k) n)" for h :: sem_sys and k n
      by simp
    show ?thesis using assms Some Proceed
      by (cases "sops = []") (auto simp: ipc_semop_def semop_attempt_def Let_def v semop_fold_value simp del: fun_upd_apply)
  qed (use assms Some in \<open>auto simp: ipc_semop_def semop_attempt_def Let_def split: if_splits\<close>)
qed

text \<open>A set of two semaphores with the values 3 and 0.\<close>

definition demo_sems :: sem_sys where
  "demo_sems =
     (case ipc_semget 0 1 ipc_sem_init 5 2 of (i, g) \<Rightarrow>
      case ipc_semctl 0 g i (SETVAL 0 (Some 3)) of (_, _, _, g') \<Rightarrow> g')"

lemma demo_sems_set:
  "sets demo_sems 0 = zero_set\<lparr>in_use := True, skey := 5, nsems := 2, sowner := 1,
     sems := (\<lambda>_. zero_unit)(0 := zero_unit\<lparr>svalue := 3\<rparr>)\<rparr>"
  "undo demo_sems = []" "ipc_sem_find_internal demo_sems 0 = Some 0"
  by (simp_all add: demo_sems_def ipc_semget_def ipc_semctl_def ipc_sem_find_by_key_internal_def
      ipc_sem_find_internal_def bad_num_def ipc_sem_init_def zero_set_def find_None_iff upt_rec Let_def
      flip: find_None_iff)

theorem semop_all_or_nothing_witness:
  "svalue (sems (sets (snd (ipc_semop 7 1 demo_sems 0 [\<lparr>sem_num = 0, sem_op = -2, sem_flg = 0\<rparr>])) 0) 0) = 1"
proof -
  let ?op = "ipc_semop 7 1 demo_sems 0 [\<lparr>sem_num = 0, sem_op = -2, sem_flg = 0\<rparr>]"
  have "fst ?op = Ret 0" by (simp add: ipc_semop_def semop_attempt_def demo_sems_set zero_set_def zero_unit_def Let_def)
  then obtain h where h: "?op = (Ret 0, h)" by (cases ?op) simp
  from semop_all_or_nothing [OF h]
  show ?thesis unfolding h by (simp add: demo_sems_set zero_set_def zero_unit_def)
qed

text \<open>C28: the exit of a process rolls its semaphore operations back. \<open>ipc_sem_undo_exit\<close> removes exactly the
  undo records of the process, whatever their order, and adds the sum of their adjustments to every
  semaphore of a live set.\<close>
theorem undo_exit_rolls_back:
  "mset (undo (ipc_sem_undo_exit g p)) = filter_mset (\<lambda>u. upid u \<noteq> p) (mset (undo g)) \<and>
   svalue (sems (sets (ipc_sem_undo_exit g p) k) n) = svalue (sems (sets g k) n) +
     (if live (sets g) k n then \<Sum>u\<in>#filter_mset (\<lambda>u. upid u = p) (mset (undo g)). adj_for k n u else 0)"
  using undo_loop_spec [of p 0 "undo g" "sets g" "fst (undo_loop p 0 (undo g) (sets g))" "snd (undo_loop p 0 (undo g) (sets g))"]
  by (simp_all add: ipc_sem_undo_exit_def split_beta)

text \<open>the check pass compares every operation with the value before the group, so two operations on the
  same semaphore pass it together although the second must wait: the group returns 0 and leaves the
  semaphore negative.\<close>
theorem semop_same_semaphore_negative:
  assumes "ipc_sem_find_internal g semid = Some i" and "num < nsems (sets g i)"
    and "svalue (sems (sets g i) num) = v" and "0 < sint v"
    and "b = \<lparr>sem_num = num, sem_op = - v, sem_flg = 0\<rparr>"
  shows "fst (ipc_semop now cur g semid [b, b]) = Ret 0 \<and>
     sint (svalue (sems (sets (snd (ipc_semop now cur g semid [b, b])) i) num)) = - sint v"
proof -
  have m: "sint (- v) = - sint v"
    using assms(4) sint_greater_eq [of v] sint_lt [of v]
    by (simp add: sint_word_minus signed_take_bit_int_eq_self)
  have c: "semop_check (sets g i) [b, b] = Proceed"
    using assms(2, 3, 4) by (simp add: assms(5) Let_def m)
  then have "fst (ipc_semop now cur g semid [b, b]) = Ret 0"
    using assms(1) by (simp add: ipc_semop_def semop_attempt_def Let_def)
  moreover have "sint (svalue (sems (sets (snd (ipc_semop now cur g semid [b, b])) i) num)) = - sint v"
    using assms(1, 3) c m semop_fold_value [of cur semid False i g "[b, b]" i num]
    by (simp add: ipc_semop_def semop_attempt_def Let_def assms(5))
  ultimately show ?thesis ..
qed

theorem semop_same_semaphore_negative_witness:
  "sint (svalue (sems (sets (snd (ipc_semop 7 1 demo_sems 0
     [\<lparr>sem_num = 0, sem_op = - 3, sem_flg = 0\<rparr>, \<lparr>sem_num = 0, sem_op = - 3, sem_flg = 0\<rparr>])) 0) 0)) = -3"
  using semop_same_semaphore_negative [of demo_sems 0 0 0 3 _ 7 1]
  by (simp add: demo_sems_set zero_set_def zero_unit_def)

end
