(* ===== verification/Swap.thy ===== *)
theory Swap
  imports Kheap
begin

text \<open>
  The swap space, \<open>kernel/swap.c\<close>: a bitmap of page-sized slots on a disk, allocation of the first
  free slot, release, and transfer of one page between memory and the eight sectors of a slot. The
  disk is reached through the two function pointers of \<open>disk_info_t\<close>, which work on a device state of
  their own.
\<close>

subsection \<open>State\<close>

record 'd disk_info =
  read_sectors :: "('d \<Rightarrow> u64 \<Rightarrow> u32 \<Rightarrow> int \<times> u8 list) option"
  write_sectors :: "('d \<Rightarrow> u64 \<Rightarrow> u32 \<Rightarrow> u8 list \<Rightarrow> int \<times> 'd) option"

text \<open>The bitmap is \<open>None\<close> for the NULL pointer, otherwise the words of the array.\<close>

record 'd swap_space =
  slot_bitmap :: "(nat \<Rightarrow> u32) option"
  total_slots :: u32
  used_slots :: u32
  slot_size :: u32
  disk :: "'d disk_info option"
  start_lba :: u64

definition swap_init :: "'d swap_space" where
  "swap_init = \<lparr>slot_bitmap = None, total_slots = 0, used_slots = 0, slot_size = 4096, disk = None,
     start_lba = 0\<rparr>"

definition bitmap_words :: "u32 \<Rightarrow> u32" where
  "bitmap_words num_slots = (num_slots + 32 - 1) div 32"

definition swap_create ::
    "'d swap_space \<Rightarrow> kheap \<Rightarrow> 'd disk_info option \<Rightarrow> u64 \<Rightarrow> u32 \<Rightarrow> (int \<times> 'd swap_space \<times> kheap) option" where
  "swap_create sw h d lba num_slots =
     (if d = None \<or> num_slots = 0 then Some (-1, sw, h)
      else case kcalloc h (bitmap_words num_slots) 4 of
             None \<Rightarrow> None
           | Some (p, h1) \<Rightarrow>
               if p = 0 then Some (-1, sw, h1)
               else Some (0, sw\<lparr>slot_bitmap := Some (\<lambda>_. 0), total_slots := num_slots, used_slots := 0,
                                slot_size := 4096, disk := d, start_lba := lba\<rparr>, h1))"

subsection \<open>Transfer\<close>

definition slot_lba :: "'d swap_space \<Rightarrow> u32 \<Rightarrow> u64" where
  "slot_lba sw slot = start_lba sw + ucast slot * 8"

definition swap_read_page :: "'d swap_space \<Rightarrow> 'd \<Rightarrow> u32 \<Rightarrow> int \<times> u8 list" where
  "swap_read_page sw dev slot =
     (if slot \<ge> total_slots sw then (-1, [])
      else case disk sw of
             None \<Rightarrow> (-1, [])
           | Some d \<Rightarrow>
               (case read_sectors d of
                  None \<Rightarrow> (-1, [])
                | Some rd \<Rightarrow> rd dev (slot_lba sw slot) 8))"

definition swap_write_page :: "'d swap_space \<Rightarrow> 'd \<Rightarrow> u32 \<Rightarrow> u8 list \<Rightarrow> int \<times> 'd" where
  "swap_write_page sw dev slot buf =
     (if slot \<ge> total_slots sw then (-1, dev)
      else case disk sw of
             None \<Rightarrow> (-1, dev)
           | Some d \<Rightarrow>
               (case write_sectors d of
                  None \<Rightarrow> (-1, dev)
                | Some wr \<Rightarrow> wr dev (slot_lba sw slot) 8 buf))"

subsection \<open>Slots\<close>

text \<open>
  The two loops of \<open>swap_alloc_slot\<close>: \<open>None\<close> from the inner one is the early return,
  \<open>Some None\<close> goes on with the next word.
\<close>

fun slot_scan_bits :: "(nat \<Rightarrow> u32) \<Rightarrow> nat \<Rightarrow> nat \<Rightarrow> nat list \<Rightarrow> nat option option" where
  "slot_scan_bits bm tot i [] = Some None"
| "slot_scan_bits bm tot i (j # js) =
     (let index = i * 32 + j in
      if index \<ge> tot then None
      else if bm i AND push_bit j 1 = 0 then Some (Some index)
      else slot_scan_bits bm tot i js)"

fun slot_scan_words :: "(nat \<Rightarrow> u32) \<Rightarrow> nat \<Rightarrow> nat list \<Rightarrow> nat option" where
  "slot_scan_words bm tot [] = None"
| "slot_scan_words bm tot (i # is) =
     (if bm i \<noteq> 0xFFFFFFFF
      then (case slot_scan_bits bm tot i [0..<32] of
              None \<Rightarrow> None
            | Some (Some index) \<Rightarrow> Some index
            | Some None \<Rightarrow> slot_scan_words bm tot is)
      else slot_scan_words bm tot is)"

definition swap_alloc_slot :: "'d swap_space \<Rightarrow> u32 \<times> 'd swap_space" where
  "swap_alloc_slot sw =
     (case slot_bitmap sw of
        None \<Rightarrow> (- 1, sw)
      | Some bm \<Rightarrow>
          (case slot_scan_words bm (unat (total_slots sw)) [0..<unat (bitmap_words (total_slots sw))] of
             None \<Rightarrow> (- 1, sw)
           | Some index \<Rightarrow>
               (of_nat index,
                sw\<lparr>slot_bitmap := Some (bm(index div 32 := bm (index div 32) OR push_bit (index mod 32) 1)),
                   used_slots := used_slots sw + 1\<rparr>)))"

definition swap_free_slot :: "'d swap_space \<Rightarrow> u32 \<Rightarrow> 'd swap_space" where
  "swap_free_slot sw slot =
     (if slot \<ge> total_slots sw then sw
      else case slot_bitmap sw of
             None \<Rightarrow> sw
           | Some bm \<Rightarrow>
               (let i = unat slot div 32; j = unat slot mod 32 in
                if bm i AND push_bit j 1 \<noteq> 0
                then sw\<lparr>slot_bitmap := Some (bm(i := bm i AND NOT (push_bit j 1))),
                        used_slots := (if used_slots sw > 0 then used_slots sw - 1 else used_slots sw)\<rparr>
                else sw))"

definition swap_get_free_count :: "'d swap_space \<Rightarrow> u32" where
  "swap_get_free_count sw = total_slots sw - used_slots sw"

definition swap_get_total_count :: "'d swap_space \<Rightarrow> u32" where
  "swap_get_total_count sw = total_slots sw"

subsection \<open>The set of used slots\<close>

definition slot_bit :: "(nat \<Rightarrow> u32) \<Rightarrow> nat \<Rightarrow> bool" where
  "slot_bit bm i \<longleftrightarrow> bit (bm (i div 32)) (i mod 32)"

definition swap_used :: "'d swap_space \<Rightarrow> nat set" where
  "swap_used sw = {i. i < unat (total_slots sw) \<and>
     (case slot_bitmap sw of None \<Rightarrow> False | Some bm \<Rightarrow> slot_bit bm i)}"

definition swap_cap :: "'d swap_space \<Rightarrow> nat" where
  "swap_cap sw = unat (total_slots sw)"

text \<open>What \<open>swap_create\<close> establishes: an array, a size whose rounding does not wrap, an exact counter.\<close>

definition swap_ok :: "'d swap_space \<Rightarrow> bool" where
  "swap_ok sw \<longleftrightarrow> (slot_bitmap sw = None \<longrightarrow> total_slots sw = 0) \<and> swap_cap sw + 31 < 4294967296
     \<and> unat (used_slots sw) = card (swap_used sw)"

text \<open>The loops are those of the page allocator on a bitmap of another name.\<close>

definition as_pmm :: "(nat \<Rightarrow> u32) \<Rightarrow> nat \<Rightarrow> pmm" where
  "as_pmm bm tot = \<lparr>bitmap = bm, total_pages = tot, used_pages = 0, bitmap_size = 0\<rparr>"

lemma as_pmm_sel [simp]:
  "bitmap (as_pmm bm tot) = bm" "total_pages (as_pmm bm tot) = tot"
  "bitmap_test (as_pmm bm tot) i = slot_bit bm i"
  by (simp_all add: as_pmm_def bitmap_test_bit slot_bit_def)

lemma slot_scan_words_pmm: "slot_scan_words bm tot is = alloc_scan_words (as_pmm bm tot) is"
proof -
  have "slot_scan_bits bm tot i js = alloc_scan_bits (as_pmm bm tot) i js" for i js
    by (induction js) (simp_all add: Let_def)
  then show ?thesis by (induction "is") (simp_all split: option.splits)
qed

lemma unat_minus_one_u32: "unat (- 1 :: u32) = 4294967295"
  by (simp add: unsigned_minus_1_eq_mask mask_eq_exp_minus_1)

lemma unat_bitmap_words:
  assumes "unat n + 31 < 4294967296"
  shows "unat (bitmap_words n) = (unat n + 31) div 32"
proof -
  have "unat (n + 31) = unat n + 31" using assms by (simp add: unat_word_ariths)
  moreover have "bitmap_words n = (n + 31) div 32" by (simp add: bitmap_words_def add.commute)
  ultimately show ?thesis by (simp only: unat_div) simp
qed

lemma slot_scan_first:
  assumes "unat n + 31 < 4294967296"
  shows "slot_scan_words bm (unat n) [0..<unat (bitmap_words n)] = find (\<lambda>i. \<not> slot_bit bm i) [0..<unat n]"
proof -
  have "unat n \<le> unat (bitmap_words n) * 32" by (simp add: unat_bitmap_words [OF assms])
  moreover have "sorted_wrt (<) [0..<unat (bitmap_words n)]" by simp
  ultimately show ?thesis
    by (simp add: slot_scan_words_pmm alloc_scan_words_find concat_words_upt filter_less_upt)
qed

lemma slot_bit_set [simp]:
  "slot_bit (bm(i div 32 := bm (i div 32) OR 2 ^ (i mod 32))) j \<longleftrightarrow> j = i \<or> slot_bit bm j"
  by (auto simp: slot_bit_def bit_rules dest: div_mod_32_eq)

lemma slot_bit_clear [simp]:
  "slot_bit (bm(i div 32 := bm (i div 32) AND NOT (2 ^ (i mod 32)))) j \<longleftrightarrow> j \<noteq> i \<and> slot_bit bm j"
  by (auto simp: slot_bit_def bit_rules dest: div_mod_32_eq)

lemma finite_swap_used [simp]: "finite (swap_used sw)"
  by (simp add: swap_used_def)

lemma card_swap_used: "card (swap_used sw) \<le> swap_cap sw"
  using card_mono [of "{..<swap_cap sw}" "swap_used sw"] by (auto simp: swap_used_def swap_cap_def)

definition swap_alloc_index :: "'d swap_space \<Rightarrow> nat option \<times> 'd swap_space" where
  "swap_alloc_index sw = (let (a, t) = swap_alloc_slot sw in (if a = - 1 then None else Some (unat a), t))"

lemma swap_alloc_cases:
  assumes "swap_ok sw" and "swap_alloc_index sw = (r, t)"
  obtains (full) "swap_used sw = {..<swap_cap sw}" "r = None" "t = sw"
  | (slot) i where "i < swap_cap sw" "i \<notin> swap_used sw" "\<forall>j < i. j \<in> swap_used sw" "r = Some i"
      "swap_used t = insert i (swap_used sw)" "swap_cap t = swap_cap sw" "swap_ok t"
proof (cases "slot_bitmap sw")
  case None
  then have "swap_used sw = {..<swap_cap sw}" using assms(1) by (simp add: swap_used_def swap_ok_def swap_cap_def)
  then show ?thesis
    using None assms(2) by (intro full) (simp_all add: swap_alloc_index_def swap_alloc_slot_def)
next
  case (Some bm)
  let ?n = "unat (total_slots sw)"
  have n: "?n + 31 < 4294967296" using assms(1) by (simp add: swap_ok_def swap_cap_def)
  note r = assms(2) [unfolded swap_alloc_index_def swap_alloc_slot_def Some option.case slot_scan_first [OF n]]
  show ?thesis
  proof (cases "find (\<lambda>i. \<not> slot_bit bm i) [0..<?n]")
    case None
    then have "swap_used sw = {..<swap_cap sw}"
      using Some by (auto simp: find_None_iff swap_used_def swap_cap_def)
    then show ?thesis using None r by (intro full) simp_all
  next
    case (Some i)
    then obtain k where k: "k < ?n" "\<not> slot_bit bm ([0..<?n] ! k)" "i = [0..<?n] ! k"
      "\<forall>j<k. slot_bit bm ([0..<?n] ! j)" by (auto simp: find_Some_iff)
    then have i: "i < ?n" "\<not> slot_bit bm i" "\<forall>j<i. slot_bit bm j" by simp_all
    have u: "unat (of_nat i :: u32) = i" using i(1) n by (intro unat_of_nat_less) simp
    then have ne: "of_nat i \<noteq> (- 1 :: u32)" using i(1) n unat_minus_one_u32 by auto
    have t: "r = Some i" "t = sw\<lparr>slot_bitmap := Some (bm(i div 32 := bm (i div 32) OR 2 ^ (i mod 32))),
        used_slots := used_slots sw + 1\<rparr>"
      using Some r ne u by auto
    have used: "swap_used t = insert i (swap_used sw)" and nu: "i \<notin> swap_used sw"
      using i \<open>slot_bitmap sw = Some bm\<close> by (auto simp: t swap_used_def simp del: fun_upd_apply)
    have "card (swap_used t) \<le> ?n" using card_swap_used [of t] by (simp add: t swap_cap_def)
    then have "unat (used_slots sw + 1) = card (swap_used t)"
      using assms(1) used nu n by (simp add: swap_ok_def unat_word_ariths)
    then have "swap_ok t" using assms(1) by (simp add: swap_ok_def t swap_cap_def)
    then show ?thesis
      using i used nu t \<open>slot_bitmap sw = Some bm\<close> by (intro slot [of i]) (auto simp: swap_cap_def swap_used_def)
  qed
qed

lemma swap_free_spec:
  assumes "swap_ok sw" and "i < swap_cap sw"
  shows "swap_ok (swap_free_slot sw (of_nat i)) \<and> swap_used (swap_free_slot sw (of_nat i)) = swap_used sw - {i}
    \<and> swap_cap (swap_free_slot sw (of_nat i)) = swap_cap sw"
proof -
  from assms obtain bm where bm: "slot_bitmap sw = Some bm" by (cases "slot_bitmap sw") (auto simp: swap_ok_def swap_cap_def)
  have u: "unat (of_nat i :: u32) = i"
    using assms by (intro unat_of_nat_less) (simp add: swap_ok_def)
  then have lt: "\<not> of_nat i \<ge> total_slots sw" using assms(2) by (simp add: word_le_nat_alt swap_cap_def)
  show ?thesis
  proof (cases "slot_bit bm i")
    case False
    then have "bm (i div 32) AND 2 ^ (i mod 32) = 0" by (simp add: slot_bit_def bit_rules)
    then have "swap_free_slot sw (of_nat i) = sw" using lt bm by (simp add: swap_free_slot_def u Let_def)
    then show ?thesis using False assms(1) bm by (simp add: swap_used_def)
  next
    case True
    define t where "t = swap_free_slot sw (of_nat i)"
    have mem: "i \<in> swap_used sw" using True assms(2) bm by (simp add: swap_used_def swap_cap_def)
    then have c: "card (swap_used sw) = Suc (card (swap_used sw - {i}))"
      by (metis card_Suc_Diff1 finite_swap_used)
    then have pos: "used_slots sw > 0" using assms(1) by (auto simp: swap_ok_def word_gt_0)
    have m: "bm (i div 32) AND 2 ^ (i mod 32) \<noteq> 0" using True by (simp add: slot_bit_def bit_rules)
    have t: "t = sw\<lparr>slot_bitmap := Some (bm(i div 32 := bm (i div 32) AND NOT (2 ^ (i mod 32)))),
        used_slots := used_slots sw - 1\<rparr>"
      using lt bm m pos by (simp add: t_def swap_free_slot_def u Let_def)
    have used: "swap_used t = swap_used sw - {i}"
      using bm by (auto simp: t swap_used_def simp del: fun_upd_apply)
    have "unat (used_slots sw - 1) = card (swap_used t)"
      using assms(1) pos c used by (simp add: unat_minus_one swap_ok_def)
    then have "swap_ok t" using assms(1) by (simp add: swap_ok_def t swap_cap_def)
    with used show ?thesis by (simp add: t_def [symmetric]) (simp add: t swap_cap_def)
  qed
qed

interpretation slots: index_allocator swap_ok swap_used 0 swap_cap swap_alloc_index
  "\<lambda>sw i. swap_free_slot sw (of_nat i)"
proof unfold_locales
  fix sw t :: "'d swap_space" and i
  assume ok: "swap_ok sw"
  show "swap_used sw \<subseteq> {..<swap_cap sw}" by (auto simp: swap_used_def swap_cap_def)
  show "{..<min 0 (swap_cap sw)} \<subseteq> swap_used sw" by simp
  show "swap_ok t \<and> i < swap_cap sw \<and> i \<notin> swap_used sw \<and> swap_used t = insert i (swap_used sw)
      \<and> swap_cap t = swap_cap sw" if "swap_alloc_index sw = (Some i, t)"
    by (rule swap_alloc_cases [OF ok that]) auto
  show "t = sw \<and> swap_used sw = {..<swap_cap sw}" if "swap_alloc_index sw = (None, t)"
    by (rule swap_alloc_cases [OF ok that]) auto
  show "swap_ok (swap_free_slot sw (of_nat i)) \<and> swap_used (swap_free_slot sw (of_nat i)) = swap_used sw - {i}
      \<and> swap_cap (swap_free_slot sw (of_nat i)) = swap_cap sw" if "0 \<le> i" "i < swap_cap sw"
    by (rule swap_free_spec [OF ok that(2)])
qed

subsection \<open>Properties\<close>

lemma swap_create_ok:
  assumes "swap_create sw h d lba n = Some (0, sw', h')"
  shows "swap_ok sw' \<and> swap_used sw' = {} \<and> swap_cap sw' = unat n \<and> start_lba sw' = lba"
proof -
  from assms obtain p h1 where k: "kcalloc h (bitmap_words n) 4 = Some (p, h1)" "p \<noteq> 0"
    and sw': "sw' = sw\<lparr>slot_bitmap := Some (\<lambda>_. 0), total_slots := n, used_slots := 0, slot_size := 4096,
       disk := d, start_lba := lba\<rparr>"
    by (auto simp: swap_create_def split: if_splits option.splits prod.splits)
  have "unat n + 31 < 4294967296"
  proof (rule ccontr)
    assume "\<not> unat n + 31 < 4294967296"
    then have "unat (n + 31) = (unat n + 31 - 4294967296) mod 4294967296"
      by (simp add: unat_word_ariths le_mod_geq)
    then have "unat (n + 31) < 32" using unat_u32_less [of n] by simp
    moreover have "bitmap_words n = (n + 31) div 32" by (simp add: bitmap_words_def add.commute)
    ultimately have "unat (bitmap_words n) = 0" by (simp only: unat_div) simp
    then have "bitmap_words n = 0" by (simp add: unat_eq_0)
    with k show False by (simp add: kcalloc_def kmalloc_def)
  qed
  moreover have "swap_used sw' = {}" by (simp add: sw' swap_used_def slot_bit_def)
  ultimately show ?thesis by (simp add: swap_ok_def sw' swap_cap_def)
qed

text \<open>The sectors of a slot.\<close>

definition sectors :: "'d swap_space \<Rightarrow> nat \<Rightarrow> nat set" where
  "sectors sw i = {unat (slot_lba sw (of_nat i)) ..< unat (slot_lba sw (of_nat i)) + 8}"

lemma unat_slot_lba:
  assumes "i < 4294967296" and "unat (start_lba sw) + 34359738368 \<le> 18446744073709551616"
  shows "unat (slot_lba sw (of_nat i)) = unat (start_lba sw) + i * 8"
proof -
  have u: "unat (ucast (of_nat i :: u32) :: u64) = i"
    using assms(1) by (simp add: unsigned_ucast_eq take_bit_nat_def unat_of_nat)
  then have "unat (ucast (of_nat i :: u32) * 8 :: u64) = i * 8"
    using assms(1) by (simp add: unat_word_ariths)
  then show ?thesis using assms by (simp add: slot_lba_def unat_word_ariths)
qed

text \<open>C32: slots allocated from a swap space never share a sector. After a successful \<open>swap_create\<close> on
  a disk where the space does not run past the 64-bit sector numbers, any number of allocations gives
  as many slots as there are, at most \<open>n\<close>, and two different slots occupy disjoint sector ranges.\<close>
theorem swap_slots_disjoint:
  assumes "swap_create sw0 h d lba tot = Some (0, sw, h')"
    and "unat lba + 34359738368 \<le> 18446744073709551616"
    and "alloc_many swap_alloc_index n sw = (is, t)"
  shows "length is = min n (unat tot) \<and> distinct is \<and> unat (swap_get_free_count t) = unat tot - length is
    \<and> (\<forall>a \<in> set is. \<forall>b \<in> set is. a \<noteq> b \<longrightarrow> sectors sw a \<inter> sectors sw b = {})"
proof -
  note c = swap_create_ok [OF assms(1)]
  from slots.alloc_many_spec [OF conjunct1 [OF c] assms(3)] c
  have a: "swap_ok t" "swap_cap t = unat tot" "swap_used t = set is" "distinct is"
    "length is = min n (unat tot)" by auto
  then have le: "used_slots t \<le> total_slots t" "unat (used_slots t) = length is"
    by (simp_all add: swap_ok_def swap_cap_def word_le_nat_alt distinct_card)
  have "i < 4294967296" if "i \<in> set is" for i
    using that a(3) slots.used_bound [OF a(1)] unat_u32_less [of tot] a(2) by auto
  then have l: "unat (slot_lba sw (of_nat i)) = unat lba + i * 8" if "i \<in> set is" for i
    using that unat_slot_lba [of i sw] c assms(2) by auto
  have "sectors sw i \<inter> sectors sw j = {}" if "i \<in> set is" "j \<in> set is" "i \<noteq> j" for i j
    using that by (auto simp: sectors_def l)
  then show ?thesis
    using a le by (simp add: swap_get_free_count_def unat_sub swap_cap_def)
qed

theorem swap_slots_disjoint_witness:
  "\<exists>sw h is t. swap_create (swap_init :: nat swap_space) demo_heap (Some \<lparr>read_sectors = None, write_sectors = None\<rparr>) 2048 40
       = Some (0, sw, h) \<and> alloc_many swap_alloc_index 3 sw = (is, t) \<and> length is = 3"
proof -
  have "find (fits (hdr demo_heap) (align_up 8 8)) [0x1000, 0x1100] = Some 0x1100" by code_simp
  then obtain h1 where "kmalloc demo_heap 8 = Some (0x1110, h1)"
    using heap_search_ok [OF demo_heap_ok, of "align_up 8 8"] by (simp add: kmalloc_def Let_def)
  then obtain h2 where k: "kcalloc demo_heap 2 4 = Some (0x1110, h2)" by (simp add: kcalloc_def)
  have "bitmap_words 40 = 2" by code_simp
  with k obtain sw where sw: "swap_create (swap_init :: nat swap_space) demo_heap
      (Some \<lparr>read_sectors = None, write_sectors = None\<rparr>) 2048 40 = Some (0, sw, h2)"
    by (simp add: swap_create_def)
  obtain "is" t where m: "alloc_many swap_alloc_index 3 sw = (is, t)" by fastforce
  have "length is = 3" using swap_slots_disjoint [OF sw _ m] by simp
  with sw m show ?thesis by blast
qed

end
