(* ===== verification/Capability.thy ===== *)
theory Capability
  imports Prelude
begin

text \<open>
  Capabilities, \<open>kernel/capability.c\<close>: five 64-bit sets per credential, tests and updates of single
  capabilities, and the transition at \<open>exec\<close>. A pointer argument that may be NULL is an option.
\<close>

subsection \<open>State\<close>

abbreviation "CAP_NUM_CAPS \<equiv> 41 :: int"
abbreviation "CAP_DAC_OVERRIDE \<equiv> 1 :: int"
abbreviation "CAP_DAC_READ_SEARCH \<equiv> 2 :: int"
abbreviation "CAP_KILL \<equiv> 5 :: int"
abbreviation "CAP_SYS_ADMIN \<equiv> 21 :: int"
abbreviation "CAP_BPF \<equiv> 39 :: int"

record cap_set =
  permitted :: u64
  inheritable :: u64
  effective :: u64
  bounding :: u64
  ambient :: u64

record cap =
  cset :: cap_set
  file_effective :: u64
  file_permitted :: u64
  file_inheritable :: u64

record cred =
  cuid :: u32
  cgid :: u32
  suid :: u32
  sgid :: u32
  fsuid :: u32
  fsgid :: u32
  ccap :: cap
  cgroups :: "u32 list"
  n_groups :: u32
  label :: "u8 list"
  label_len :: u32
  refcount :: u32

definition zero_caps :: cap_set where
  "zero_caps = \<lparr>permitted = 0, inheritable = 0, effective = 0, bounding = 0, ambient = 0\<rparr>"

subsection \<open>Single capabilities\<close>

definition BIT_TEST :: "u64 \<Rightarrow> int \<Rightarrow> u64" where
  "BIT_TEST w b = w AND push_bit (nat b) 1"

definition BIT_SET :: "u64 \<Rightarrow> int \<Rightarrow> u64" where
  "BIT_SET w b = w OR push_bit (nat b) 1"

definition BIT_CLR :: "u64 \<Rightarrow> int \<Rightarrow> u64" where
  "BIT_CLR w b = w AND NOT (push_bit (nat b) 1)"

definition bad_cap :: "int \<Rightarrow> bool" where
  "bad_cap c \<longleftrightarrow> c < 0 \<or> c \<ge> CAP_NUM_CAPS"

definition cap_set_bit :: "cap_set option \<Rightarrow> int \<Rightarrow> int \<times> cap_set option" where
  "cap_set_bit st c =
     (case st of
        None \<Rightarrow> (-1, None)
      | Some s \<Rightarrow>
          if bad_cap c then (-1, Some s)
          else (0, Some (s\<lparr>permitted := BIT_SET (permitted s) c, effective := BIT_SET (effective s) c\<rparr>)))"

definition cap_clear_bit :: "cap_set option \<Rightarrow> int \<Rightarrow> int \<times> cap_set option" where
  "cap_clear_bit st c =
     (case st of
        None \<Rightarrow> (-1, None)
      | Some s \<Rightarrow>
          if bad_cap c then (-1, Some s)
          else (0, Some (s\<lparr>permitted := BIT_CLR (permitted s) c, effective := BIT_CLR (effective s) c,
                          inheritable := BIT_CLR (inheritable s) c\<rparr>)))"

text \<open>The conversion \<open>(int)\<close> of a 64-bit word keeps its low 32 bits.\<close>

definition to_int :: "u64 \<Rightarrow> int" where
  "to_int w = sint (ucast w :: u32)"

definition cap_test_bit :: "cap_set option \<Rightarrow> int \<Rightarrow> int" where
  "cap_test_bit st c =
     (case st of None \<Rightarrow> 0 | Some s \<Rightarrow> if bad_cap c then 0 else to_int (BIT_TEST (effective s) c))"

definition cap_test_effective :: "cred option \<Rightarrow> int \<Rightarrow> int" where
  "cap_test_effective cr c = (case cr of None \<Rightarrow> 0 | Some x \<Rightarrow> cap_test_bit (Some (cset (ccap x))) c)"

definition cap_test_permitted :: "cred option \<Rightarrow> int \<Rightarrow> int" where
  "cap_test_permitted cr c =
     (case cr of None \<Rightarrow> 0
      | Some x \<Rightarrow> if bad_cap c then 0 else to_int (BIT_TEST (permitted (cset (ccap x))) c))"

definition cap_raise :: "cap_set option \<Rightarrow> int \<Rightarrow> cap_set option" where
  "cap_raise st c = snd (cap_set_bit st c)"

definition cap_lower :: "cap_set option \<Rightarrow> int \<Rightarrow> cap_set option" where
  "cap_lower st c = snd (cap_clear_bit st c)"

definition cap_drop_all :: "cred option \<Rightarrow> int \<times> cred option" where
  "cap_drop_all cr =
     (case cr of None \<Rightarrow> (-1, None) | Some x \<Rightarrow> (0, Some (x\<lparr>ccap := (ccap x)\<lparr>cset := zero_caps\<rparr>\<rparr>)))"

definition capable_raise :: "cap_set option \<Rightarrow> int \<Rightarrow> int \<times> cap_set option" where
  "capable_raise st c =
     (case st of
        None \<Rightarrow> (-1, None)
      | Some s \<Rightarrow>
          if bad_cap c then (-1, Some s)
          else (0, Some (s\<lparr>bounding := BIT_SET (bounding s) c, permitted := BIT_SET (permitted s) c,
                          effective := BIT_SET (effective s) c\<rparr>)))"

text \<open>\<open>memcmp\<close> on the bytes of the five words: the difference of the first bytes that differ.\<close>

definition le_bytes :: "u64 \<Rightarrow> u8 list" where
  "le_bytes w = map (\<lambda>i. ucast (drop_bit (8 * i) w)) [0..<8]"

definition cap_bytes :: "cap_set \<Rightarrow> u8 list" where
  "cap_bytes s = le_bytes (permitted s) @ le_bytes (inheritable s) @ le_bytes (effective s)
     @ le_bytes (bounding s) @ le_bytes (ambient s)"

fun memcmp :: "u8 list \<Rightarrow> u8 list \<Rightarrow> int" where
  "memcmp (x # xs) (y # ys) = (if x \<noteq> y then uint x - uint y else memcmp xs ys)"
| "memcmp _ _ = 0"

definition cap_compare :: "cap_set option \<Rightarrow> cap_set option \<Rightarrow> int" where
  "cap_compare a b =
     (case (a, b) of (Some s, Some t) \<Rightarrow> memcmp (cap_bytes s) (cap_bytes t) | _ \<Rightarrow> -1)"

subsection \<open>Credentials\<close>

definition cap_init_root :: "cred \<Rightarrow> cred" where
  "cap_init_root x =
     (let beyond = NOT (push_bit 41 1 - 1) :: u64;
          ones = \<lparr>permitted = - 1, inheritable = - 1, effective = - 1, bounding = - 1, ambient = - 1\<rparr> :: cap_set
      in x\<lparr>ccap := (ccap x)\<lparr>cset := ones\<lparr>permitted := permitted ones AND NOT beyond,
             effective := effective ones AND NOT beyond, inheritable := 0,
             bounding := push_bit 41 1 - 1, ambient := 0\<rparr>\<rparr>\<rparr>)"

definition cap_init_user :: "cred \<Rightarrow> cred" where
  "cap_init_user x = x\<lparr>ccap := (ccap x)\<lparr>cset := zero_caps\<rparr>\<rparr>"

definition cred_init :: "u32 \<Rightarrow> u32 \<Rightarrow> cred" where
  "cred_init u g =
     (let x = \<lparr>cuid = u, cgid = g, suid = u, sgid = g, fsuid = u, fsgid = g,
               ccap = \<lparr>cset = zero_caps, file_effective = 0, file_permitted = 0, file_inheritable = 0\<rparr>,
               cgroups = replicate 32 0, n_groups = 0, label = replicate 32 0, label_len = 0, refcount = 1\<rparr>
      in if u = 0 then cap_init_root x else cap_init_user x)"

definition cred_destroy :: "cred \<Rightarrow> cred" where
  "cred_destroy x = (if refcount x > 0 then x\<lparr>refcount := refcount x - 1\<rparr> else x)"

definition cred_get :: "cred \<Rightarrow> cred" where
  "cred_get x = x\<lparr>refcount := refcount x + 1\<rparr>"

definition cred_copy :: "cred option \<Rightarrow> cred option \<Rightarrow> int \<times> cred option" where
  "cred_copy dst src =
     (case (dst, src) of (Some d, Some s) \<Rightarrow> (0, Some (s\<lparr>refcount := 1\<rparr>)) | _ \<Rightarrow> (-1, dst))"

definition cap_exec_transition :: "cred option \<Rightarrow> cred option \<Rightarrow> int \<times> cred option" where
  "cap_exec_transition new old =
     (case (new, old) of
        (Some nc, Some oc) \<Rightarrow>
          (let os = cset (ccap oc); fe = file_effective (ccap nc); fp = file_permitted (ccap nc);
               fi = file_inheritable (ccap nc);
               ni = (fi AND bounding os) OR inheritable os;
               np = fp OR (fi AND bounding os) OR (permitted os AND NOT (fp OR inheritable os));
               ne = (if fe \<noteq> 0 then fp else np)
           in (0, Some (nc\<lparr>ccap := (ccap nc)\<lparr>cset := \<lparr>permitted = np, inheritable = ni, effective = ne,
                  bounding = bounding os, ambient = ambient os\<rparr>\<rparr>\<rparr>)))
      | _ \<Rightarrow> (-1, new))"

subsection \<open>Lemmas\<close>

lemma bit_test_set: "nat c < 64 \<Longrightarrow> 0 \<le> c \<Longrightarrow> 0 \<le> d \<Longrightarrow> bit (BIT_SET w c) (nat d) \<longleftrightarrow> d = c \<or> bit w (nat d)"
  by (auto simp: BIT_SET_def bit_rules)

lemma bit_test_clr: "0 \<le> c \<Longrightarrow> 0 \<le> d \<Longrightarrow> bit (BIT_CLR w c) (nat d) \<longleftrightarrow> d \<noteq> c \<and> bit w (nat d)"
  by (auto simp: BIT_CLR_def bit_rules)

text \<open>The truncated test sees the low 32 capabilities only.\<close>

lemma to_int_test:
  assumes "n < 64"
  shows "to_int (w AND push_bit n 1) \<noteq> 0 \<longleftrightarrow> n < 32 \<and> bit w n"
proof -
  have b: "bit (ucast (w AND push_bit n 1) :: u32) m \<longleftrightarrow> m < 32 \<and> m = n \<and> bit w n" for m
    using assms by (auto simp: bit_simps)
  have "(ucast (w AND push_bit n 1) :: u32) = 0 \<longleftrightarrow> (\<forall>m. \<not> bit (ucast (w AND push_bit n 1) :: u32) m)"
    by (auto intro: bit_word_eqI)
  then have "(ucast (w AND push_bit n 1) :: u32) = 0 \<longleftrightarrow> \<not> (n < 32 \<and> bit w n)"
    unfolding b by auto
  then show ?thesis by (simp add: to_int_def signed_eq_0_iff)
qed

lemma cap_test_bit_iff:
  "cap_test_bit (Some s) c \<noteq> 0 \<longleftrightarrow> 0 \<le> c \<and> c < 32 \<and> bit (effective s) (nat c)"
proof (cases "0 \<le> c \<and> c < 41")
  case True
  then have "nat c < 64" "nat c < 32 \<longleftrightarrow> c < 32" by auto
  with True to_int_test [of "nat c" "effective s"] show ?thesis
    by (simp add: cap_test_bit_def bad_cap_def BIT_TEST_def)
next
  case False
  then show ?thesis by (auto simp: cap_test_bit_def bad_cap_def)
qed

subsection \<open>Properties\<close>

text \<open>what a sequence of changes to a capability set leaves for the low 32 capabilities. After
  \<open>cap_raise\<close> the capability is effective, after \<open>cap_lower\<close> it is not, and the test of every other
  capability is unchanged.\<close>
theorem cap_raise_lower_test:
  assumes "0 \<le> c" and "c < 32"
  shows "(cap_test_bit (cap_raise (Some s) c) d \<noteq> 0 \<longleftrightarrow> d = c \<or> cap_test_bit (Some s) d \<noteq> 0) \<and>
    (cap_test_bit (cap_lower (Some s) c) d \<noteq> 0 \<longleftrightarrow> d \<noteq> c \<and> cap_test_bit (Some s) d \<noteq> 0)"
proof -
  have "\<not> bad_cap c" using assms by (simp add: bad_cap_def)
  then have "cap_raise (Some s) c = Some (s\<lparr>permitted := BIT_SET (permitted s) c, effective := BIT_SET (effective s) c\<rparr>)"
    "cap_lower (Some s) c = Some (s\<lparr>permitted := BIT_CLR (permitted s) c, effective := BIT_CLR (effective s) c,
       inheritable := BIT_CLR (inheritable s) c\<rparr>)"
    by (simp_all add: cap_raise_def cap_set_bit_def cap_lower_def cap_clear_bit_def)
  then show ?thesis
    using assms by (auto simp: cap_test_bit_iff bit_test_set bit_test_clr)
qed

theorem cap_raise_lower_test_witness: "cap_test_bit (cap_raise (Some zero_caps) 21) 21 \<noteq> 0"
  using cap_raise_lower_test [of 21 zero_caps 21] by simp

text \<open>capabilities from 32 on can never be used. \<open>cap_test_bit\<close> converts the masked 64-bit word to
  \<open>int\<close>, which drops the bit, so the test fails right after the capability was raised, and for the
  root credential.\<close>
theorem high_capabilities_lost:
  assumes "32 \<le> c"
  shows "cap_test_bit (cap_raise st c) c = 0 \<and> cap_test_effective (Some (cred_init 0 g)) c = 0"
proof -
  have "cap_test_bit st' c = 0" for st'
  proof (cases st')
    case None
    then show ?thesis by (simp add: cap_test_bit_def)
  next
    case (Some s)
    with assms cap_test_bit_iff [of s c] show ?thesis by auto
  qed
  then show ?thesis by (simp add: cap_test_effective_def)
qed

theorem high_capabilities_lost_witness:
  "bit (effective (cset (ccap (cred_init 0 0)))) (nat CAP_BPF) \<and> cap_test_effective (Some (cred_init 0 0)) CAP_BPF = 0"
  using high_capabilities_lost [of CAP_BPF None 0]
  by (simp add: cred_init_def cap_init_root_def Let_def bit_simps)

end
