(* ===== verification/Sha256.thy ===== *)
theory Sha256
  imports Prelude
begin

text \<open>
  The SHA-256 implementation, \<open>kernel/sha256.c\<close>: the compression function on 64-byte blocks, the
  streaming interface \<open>sha256_init\<close>, \<open>sha256_update\<close>, \<open>sha256_final\<close> with its 64-byte buffer, and
  the one-shot functions. The streaming interface is compared with the padding and block-splitting
  definition of the hash. The buffer of a context is uninitialised memory before the first byte.
\<close>

subsection \<open>The compression function\<close>

definition ROTR :: "u32 \<Rightarrow> nat \<Rightarrow> u32" where
  "ROTR x n = drop_bit n x OR push_bit (32 - n) x"

definition CH :: "u32 \<Rightarrow> u32 \<Rightarrow> u32 \<Rightarrow> u32" where
  "CH x y z = (x AND y) XOR (NOT x AND z)"

definition MAJ :: "u32 \<Rightarrow> u32 \<Rightarrow> u32 \<Rightarrow> u32" where
  "MAJ x y z = (x AND y) XOR (x AND z) XOR (y AND z)"

definition EP0 :: "u32 \<Rightarrow> u32" where
  "EP0 x = ROTR x 2 XOR ROTR x 13 XOR ROTR x 22"

definition EP1 :: "u32 \<Rightarrow> u32" where
  "EP1 x = ROTR x 6 XOR ROTR x 11 XOR ROTR x 25"

definition SIG0 :: "u32 \<Rightarrow> u32" where
  "SIG0 x = ROTR x 7 XOR ROTR x 18 XOR drop_bit 3 x"

definition SIG1 :: "u32 \<Rightarrow> u32" where
  "SIG1 x = ROTR x 17 XOR ROTR x 19 XOR drop_bit 10 x"

text \<open>The table \<open>K\<close>, row by row as the source lays it out.\<close>

definition sha_K :: "u32 list" where
  "sha_K = concat
    [[0x428a2f98, 0x71374491, 0xb5c0fbcf, 0xe9b5dba5, 0x3956c25b, 0x59f111f1, 0x923f82a4, 0xab1c5ed5],
     [0xd807aa98, 0x12835b01, 0x243185be, 0x550c7dc3, 0x72be5d74, 0x80deb1fe, 0x9bdc06a7, 0xc19bf174],
     [0xe49b69c1, 0xefbe4786, 0x0fc19dc6, 0x240ca1cc, 0x2de92c6f, 0x4a7484aa, 0x5cb0a9dc, 0x76f988da],
     [0x983e5152, 0xa831c66d, 0xb00327c8, 0xbf597fc7, 0xc6e00bf3, 0xd5a79147, 0x06ca6351, 0x14292967],
     [0x27b70a85, 0x2e1b2138, 0x4d2c6dfc, 0x53380d13, 0x650a7354, 0x766a0abb, 0x81c2c92e, 0x92722c85],
     [0xa2bfe8a1, 0xa81a664b, 0xc24b8b70, 0xc76c51a3, 0xd192e819, 0xd6990624, 0xf40e3585, 0x106aa070],
     [0x19a4c116, 0x1e376c08, 0x2748774c, 0x34b0bcb5, 0x391c0cb3, 0x4ed8aa4a, 0x5b9cca4f, 0x682e6ff3],
     [0x748f82ee, 0x78a5636f, 0x84c87814, 0x8cc70208, 0x90befffa, 0xa4506ceb, 0xbef9a3f7, 0xc67178f2]]"

type_synonym sha_state = "u32 \<times> u32 \<times> u32 \<times> u32 \<times> u32 \<times> u32 \<times> u32 \<times> u32"

text \<open>The array \<open>m\<close>: sixteen big-endian words of the block, then forty-eight expanded ones.\<close>

definition block_word :: "u8 list \<Rightarrow> nat \<Rightarrow> u32" where
  "block_word d i =
     push_bit 24 (ucast (d ! (4 * i))) OR push_bit 16 (ucast (d ! (4 * i + 1)))
     OR push_bit 8 (ucast (d ! (4 * i + 2))) OR ucast (d ! (4 * i + 3))"

definition sha_schedule :: "u8 list \<Rightarrow> u32 list" where
  "sha_schedule d =
     foldl (\<lambda>m i. m @ [SIG1 (m ! (i - 2)) + m ! (i - 7) + SIG0 (m ! (i - 15)) + m ! (i - 16)])
       (map (block_word d) [0..<16]) [16..<64]"

fun sha_round :: "u32 list \<Rightarrow> sha_state \<Rightarrow> nat \<Rightarrow> sha_state" where
  "sha_round m (a, b, c, d, e, f, g, h) i =
     (let t1 = h + EP1 e + CH e f g + sha_K ! i + m ! i;
          t2 = EP0 a + MAJ a b c
      in (t1 + t2, a, b, c, d + t1, e, f, g))"

fun state_add :: "sha_state \<Rightarrow> sha_state \<Rightarrow> sha_state" where
  "state_add (a, b, c, d, e, f, g, h) (a', b', c', d', e', f', g', h') =
     (a + a', b + b', c + c', d + d', e + e', f + f', g + g', h + h')"

definition sha256_transform :: "sha_state \<Rightarrow> u8 list \<Rightarrow> sha_state" where
  "sha256_transform s d = state_add s (foldl (sha_round (sha_schedule d)) s [0..<64])"

subsection \<open>The streaming interface\<close>

record sha_ctx =
  sdata :: "u8 list"
  datalen :: nat
  bitlen :: u64
  sstate :: sha_state

definition sha_IV :: sha_state where
  "sha_IV = (0x6a09e667, 0xbb67ae85, 0x3c6ef372, 0xa54ff53a, 0x510e527f, 0x9b05688c, 0x1f83d9ab, 0x5be0cd19)"

definition sha256_init :: "sha_ctx \<Rightarrow> sha_ctx" where
  "sha256_init ctx = ctx\<lparr>datalen := 0, bitlen := 0, sstate := sha_IV\<rparr>"

definition sha_byte :: "sha_ctx \<Rightarrow> u8 \<Rightarrow> sha_ctx" where
  "sha_byte ctx x =
     (let ctx1 = ctx\<lparr>sdata := (sdata ctx)[datalen ctx := x], datalen := datalen ctx + 1\<rparr> in
      if datalen ctx1 = 64
      then ctx1\<lparr>sstate := sha256_transform (sstate ctx1) (sdata ctx1), bitlen := bitlen ctx1 + 512, datalen := 0\<rparr>
      else ctx1)"

definition sha256_update :: "sha_ctx \<Rightarrow> u8 list \<Rightarrow> sha_ctx" where
  "sha256_update ctx xs = foldl sha_byte ctx xs"

text \<open>\<open>while (i < hi) data[i++] = 0\<close> starting at \<open>lo\<close>.\<close>

definition zero_fill :: "u8 list \<Rightarrow> nat \<Rightarrow> nat \<Rightarrow> u8 list" where
  "zero_fill d lo hi = foldl (\<lambda>d i. d[i := 0]) d [lo..<hi]"

definition word_bytes :: "u32 \<Rightarrow> u8 list" where
  "word_bytes w = map (\<lambda>i. ucast (drop_bit (24 - i * 8) w AND 0xff)) [0..<4]"

fun digest :: "sha_state \<Rightarrow> u8 list" where
  "digest (a, b, c, d, e, f, g, h) =
     word_bytes a @ word_bytes b @ word_bytes c @ word_bytes d @
     word_bytes e @ word_bytes f @ word_bytes g @ word_bytes h"

text \<open>The eight stores of \<open>bitlen\<close> at the end of the block.\<close>

definition store_len :: "u8 list \<Rightarrow> u64 \<Rightarrow> u8 list" where
  "store_len d n =
     d[63 := ucast n, 62 := ucast (drop_bit 8 n), 61 := ucast (drop_bit 16 n), 60 := ucast (drop_bit 24 n),
       59 := ucast (drop_bit 32 n), 58 := ucast (drop_bit 40 n), 57 := ucast (drop_bit 48 n),
       56 := ucast (drop_bit 56 n)]"

definition sha256_final :: "sha_ctx \<Rightarrow> u8 list" where
  "sha256_final ctx =
     (let i = datalen ctx; d1 = (sdata ctx)[i := 0x80];
          (d2, s2) =
            (if i < 56 then (zero_fill d1 (i + 1) 56, sstate ctx)
             else (let d = zero_fill d1 (i + 1) 64
                   in (zero_fill d 0 56, sha256_transform (sstate ctx) d)));
          n = bitlen ctx + of_nat i * 8
      in digest (sha256_transform s2 (store_len d2 n)))"

text \<open>The context is a local variable: \<open>junk\<close> is what the stack held.\<close>

definition sha256 :: "sha_ctx \<Rightarrow> u8 list \<Rightarrow> u8 list" where
  "sha256 junk xs = sha256_final (sha256_update (sha256_init junk) xs)"

definition hex_digit :: "u8 \<Rightarrow> char" where
  "hex_digit n = ''0123456789abcdef'' ! unat n"

definition bytes_to_hex :: "u8 list \<Rightarrow> string" where
  "bytes_to_hex bs = concat (map (\<lambda>b. [hex_digit (drop_bit 4 b AND 0xF), hex_digit (b AND 0xF)]) bs)"

definition sha256_hex :: "sha_ctx \<Rightarrow> u8 list \<Rightarrow> string" where
  "sha256_hex junk xs = bytes_to_hex (sha256 junk xs)"

subsection \<open>The hash by padding and blocks\<close>

definition be64 :: "u64 \<Rightarrow> u8 list" where
  "be64 n = map (\<lambda>i. ucast (drop_bit (56 - i * 8) n)) [0..<8]"

definition sha_pad :: "u8 list \<Rightarrow> u8 list" where
  "sha_pad xs = xs @ 0x80 # replicate ((119 - length xs mod 64) mod 64) 0 @ be64 (of_nat (8 * length xs))"

function sha_blocks :: "u8 list \<Rightarrow> u8 list list" where
  "sha_blocks xs = (if length xs < 64 then [] else take 64 xs # sha_blocks (drop 64 xs))"
  by pat_completeness auto
termination by (relation "measure length") auto

declare sha_blocks.simps [simp del]

definition sha256_spec :: "u8 list \<Rightarrow> u8 list" where
  "sha256_spec xs = digest (foldl sha256_transform sha_IV (sha_blocks (sha_pad xs)))"

subsection \<open>Lemmas\<close>

lemma zero_fill_eq:
  assumes "lo \<le> hi" and "hi \<le> length d"
  shows "zero_fill d lo hi = take lo d @ replicate (hi - lo) 0 @ drop hi d"
  using assms
proof (induction "hi - lo" arbitrary: hi)
  case 0
  then show ?case by (simp add: zero_fill_def)
next
  case (Suc k)
  then obtain m where m: "hi = Suc m" "lo \<le> m" by (cases hi) auto
  have "zero_fill d lo hi = (zero_fill d lo m)[m := 0]" using m by (simp add: zero_fill_def)
  also have "zero_fill d lo m = take lo d @ replicate (m - lo) 0 @ drop m d"
    using Suc.hyps(1) [of m] Suc m by simp
  also have "drop m d = d ! m # drop (Suc m) d" using Suc.prems m by (intro Cons_nth_drop_Suc [symmetric]) simp
  finally show ?case
    using m Suc.prems by (simp add: list_update_append Suc_diff_le replicate_append_same [symmetric])
qed

lemma store_len_eq: "length d = 64 \<Longrightarrow> store_len d n = take 56 d @ be64 n"
  by (rule nth_equalityI) (auto simp: store_len_def be64_def nth_append nth_list_update less_Suc_eq upt_rec numeral_eq_Suc)

lemma length_be64 [simp]: "length (be64 n) = 8"
  by (simp add: be64_def)

lemma sha_blocks_append:
  "64 dvd length xs \<Longrightarrow> sha_blocks (xs @ ys) = sha_blocks xs @ sha_blocks ys"
proof (induction xs rule: sha_blocks.induct)
  case (1 xs)
  show ?case
  proof (cases "length xs < 64")
    case True
    with 1(2) have "xs = []" by (auto dest: dvd_imp_le)
    then show ?thesis by (simp add: sha_blocks.simps [of "[]"])
  next
    case False
    with 1(2) have "64 dvd length (drop 64 xs)" by (simp add: dvd_minus_self)
    with 1(1) False show ?thesis
      by (simp add: sha_blocks.simps [of "xs @ ys"] sha_blocks.simps [of xs])
  qed
qed

lemma sha_blocks_one: "length xs = 64 \<Longrightarrow> sha_blocks xs = [xs]"
  by (simp add: sha_blocks.simps [of xs] sha_blocks.simps [of "[]"])

text \<open>What the context holds after the bytes \<open>xs\<close>: the whole blocks are compressed, the rest is buffered.\<close>

definition sha_inv :: "sha_ctx \<Rightarrow> u8 list \<Rightarrow> bool" where
  "sha_inv ctx xs \<longleftrightarrow>
     (\<exists>bs r. xs = bs @ r \<and> 64 dvd length bs \<and> length r < 64 \<and> length (sdata ctx) = 64
        \<and> datalen ctx = length r \<and> take (length r) (sdata ctx) = r
        \<and> sstate ctx = foldl sha256_transform sha_IV (sha_blocks bs)
        \<and> bitlen ctx = of_nat (8 * length bs))"

lemma sha_inv_init: "length (sdata ctx) = 64 \<Longrightarrow> sha_inv (sha256_init ctx) []"
  by (simp add: sha_inv_def sha256_init_def sha_blocks.simps)

lemma sha_inv_byte:
  assumes "sha_inv ctx xs"
  shows "sha_inv (sha_byte ctx x) (xs @ [x])"
proof -
  from assms obtain bs r where i: "xs = bs @ r" "64 dvd length bs" "length r < 64" "length (sdata ctx) = 64"
    "datalen ctx = length r" "take (length r) (sdata ctx) = r"
    "sstate ctx = foldl sha256_transform sha_IV (sha_blocks bs)" "bitlen ctx = of_nat (8 * length bs)"
    by (auto simp: sha_inv_def)
  have t: "take (Suc (length r)) ((sdata ctx)[length r := x]) = r @ [x]"
    using i(3, 4, 6) by (simp add: take_Suc_conv_app_nth)
  show ?thesis
  proof (cases "length r = 63")
    case False
    with i t show ?thesis
      unfolding sha_inv_def by (intro exI [of _ bs] exI [of _ "r @ [x]"]) (simp add: sha_byte_def)
  next
    case True
    then have full: "(sdata ctx)[length r := x] = r @ [x]" using t i(4) by simp
    have "sha_blocks (bs @ r @ [x]) = sha_blocks bs @ [r @ [x]]"
      using i(2) True by (simp add: sha_blocks_append sha_blocks_one)
    with i True full show ?thesis
      unfolding sha_inv_def
      by (intro exI [of _ "bs @ r @ [x]"] exI [of _ "[]"]) (simp add: sha_byte_def)
  qed
qed

lemma sha_inv_update: "sha_inv ctx xs \<Longrightarrow> sha_inv (sha256_update ctx ys) (xs @ ys)"
proof (induction ys arbitrary: ctx xs)
  case Nil
  then show ?case by (simp add: sha256_update_def)
next
  case (Cons y ys)
  from Cons.IH [OF sha_inv_byte [OF Cons.prems, of y]] show ?case by (simp add: sha256_update_def)
qed

lemma sha_final_spec:
  assumes "sha_inv ctx xs"
  shows "sha256_final ctx = sha256_spec xs"
proof -
  from assms obtain bs r where i: "xs = bs @ r" "64 dvd length bs" "length r < 64" "length (sdata ctx) = 64"
    "datalen ctx = length r" "take (length r) (sdata ctx) = r"
    "sstate ctx = foldl sha256_transform sha_IV (sha_blocks bs)" "bitlen ctx = of_nat (8 * length bs)"
    by (auto simp: sha_inv_def)
  let ?d = "(sdata ctx)[length r := 0x80]" and ?n = "of_nat (8 * length xs) :: u64"
  have n: "bitlen ctx + of_nat (datalen ctx) * 8 = ?n" using i by simp
  have r: "length xs mod 64 = length r" using i(1, 2, 3) by (auto simp: dvd_def mod_simps)
  have t: "take (Suc (length r)) ?d = r @ [0x80]" "length ?d = 64"
    using i(3, 4, 6) by (simp_all add: take_Suc_conv_app_nth)
  show ?thesis
  proof (cases "length r < 56")
    case True
    let ?last = "r @ 0x80 # replicate (55 - length r) 0 @ be64 ?n"
    have "zero_fill ?d (length r + 1) 56 = r @ 0x80 # replicate (55 - length r) 0 @ drop 56 ?d"
      using True t by (simp add: zero_fill_eq)
    then have "store_len (zero_fill ?d (length r + 1) 56) ?n = ?last"
      using True t(2) by (simp add: store_len_eq take_Cons')
    then have f: "sha256_final ctx = digest (sha256_transform (sstate ctx) ?last)"
      using True i(5) n by (simp add: sha256_final_def Let_def)
    have "sha_pad xs = bs @ ?last" using True by (simp add: sha_pad_def r le_mod_geq) (simp add: i(1))
    moreover have "length ?last = 64" using True by simp
    ultimately have "sha_blocks (sha_pad xs) = sha_blocks bs @ [?last]"
      using i(2) by (simp only: sha_blocks_append sha_blocks_one)
    then show ?thesis by (simp only: sha256_spec_def f i(7) foldl_append foldl.simps)
  next
    case False
    let ?b1 = "r @ 0x80 # replicate (63 - length r) 0" and ?b2 = "replicate 56 0 @ be64 ?n"
    have z: "zero_fill ?d (length r + 1) 64 = ?b1"
      using i(3) t by (simp add: zero_fill_eq)
    have "store_len (zero_fill ?b1 0 56) ?n = ?b2"
      using i(3) False by (simp add: zero_fill_eq store_len_eq)
    then have f: "sha256_final ctx = digest (sha256_transform (sha256_transform (sstate ctx) ?b1) ?b2)"
      using False i(5) n z by (simp add: sha256_final_def Let_def)
    have "replicate (119 - length r) (0::u8) = replicate (63 - length r) 0 @ replicate 56 0"
      using i(3) False by (simp add: replicate_add [symmetric])
    then have "sha_pad xs = bs @ ?b1 @ ?b2"
      using i(3) False by (simp add: sha_pad_def r) (simp add: i(1))
    moreover have "length ?b1 = 64" "length ?b2 = 64" using i(3) by simp_all
    ultimately have "sha_blocks (sha_pad xs) = sha_blocks bs @ [?b1] @ [?b2]"
      using i(2) sha_blocks_append [of ?b1 ?b2] by (simp only: sha_blocks_append sha_blocks_one dvd_refl)
    then show ?thesis by (simp only: sha256_spec_def f i(7) foldl_append foldl.simps append.simps)
  qed
qed

lemma sha_stream_spec:
  assumes "length (sdata junk) = 64"
  shows "sha256_final (foldl sha256_update (sha256_init junk) chunks) = sha256_spec (concat chunks)"
proof -
  have "sha_inv ctx xs \<Longrightarrow> sha_inv (foldl sha256_update ctx chunks) (xs @ concat chunks)" for ctx xs
    by (induction chunks arbitrary: ctx xs) (auto dest: sha_inv_update simp: append_assoc [symmetric] simp del: append_assoc)
  from sha_final_spec [OF this [OF sha_inv_init [OF assms]]] show ?thesis by simp
qed

lemma length_digest [simp]: "length (digest s) = 32"
  by (cases s rule: digest.cases) (simp add: word_bytes_def)

lemma length_sha256_spec [simp]: "length (sha256_spec xs) = 32"
  by (simp add: sha256_spec_def)

subsection \<open>Properties\<close>

text \<open>C26: the streaming interface computes the hash of the concatenated input. However the message is cut
  into calls of \<open>sha256_update\<close> and whatever the context held before, the result is the digest of the
  blocks of the padded message: the message, a byte 0x80, zeros, and the bit length in 64 bits.\<close>
theorem sha256_streaming:
  assumes "length (sdata junk) = 64"
  shows "sha256_final (foldl sha256_update (sha256_init junk) chunks) = sha256_spec (concat chunks)"
  using assms by (rule sha_stream_spec)

definition demo_ctx :: sha_ctx where
  "demo_ctx = \<lparr>sdata = replicate 64 7, datalen = 3, bitlen = 9, sstate = sha_IV\<rparr>"

text \<open>The digest of the three bytes \<open>abc\<close>, fed in two pieces.\<close>

theorem sha256_streaming_witness:
  "sha256_spec [97, 98, 99] =
     [0xba, 0x78, 0x16, 0xbf, 0x8f, 0x01, 0xcf, 0xea, 0x41, 0x41, 0x40, 0xde, 0x5d, 0xae, 0x22, 0x23,
      0xb0, 0x03, 0x61, 0xa3, 0x96, 0x17, 0x7a, 0x9c, 0xb4, 0x10, 0xff, 0x61, 0xf2, 0x00, 0x15, 0xad]"
proof -
  have "sha256_final (foldl sha256_update (sha256_init demo_ctx) [[97], [98, 99]]) =
     [0xba, 0x78, 0x16, 0xbf, 0x8f, 0x01, 0xcf, 0xea, 0x41, 0x41, 0x40, 0xde, 0x5d, 0xae, 0x22, 0x23,
      0xb0, 0x03, 0x61, 0xa3, 0x96, 0x17, 0x7a, 0x9c, 0xb4, 0x10, 0xff, 0x61, 0xf2, 0x00, 0x15, 0xad]"
    by code_simp
  with sha256_streaming [of demo_ctx "[[97], [98, 99]]"] show ?thesis by (simp add: demo_ctx_def)
qed

end
