(* ===== verification/Users.thy ===== *)
theory Users
  imports Sha256 Interfaces
begin

text \<open>
  The user database, \<open>kernel/user.c\<close>: accounts and groups in static arrays, credentials of the form
  \<open>salt$hash\<close>, login with lock-out after repeated failures, roles, and identifier allocation. The arrays
  are the lists of the slots in use (\<open>user_count_val\<close> and \<open>group_count_val\<close> are their lengths); a
  pointer into an array is an index, NULL is \<open>None\<close>. C strings are lists of characters without the
  closing NUL. \<open>now\<close> is \<open>timer_get_ticks()\<close> and \<open>junk\<close> the stack memory of a hash context.
\<close>

subsection \<open>State\<close>

record user =
  uid :: u32
  gid :: u32
  username :: string
  home :: string
  shell :: string
  is_admin :: u8
  is_active :: bool
  credential :: string
  failed_logins :: u8
  lock_until_tick :: u32

record group =
  ggid :: u32
  gname :: string
  members :: "u32 list"

record user_db =
  users :: "user list"
  groups :: "group list"
  current_uid :: u32
  prng :: u64

subsection \<open>Credentials\<close>

definition xorshift :: "u64 \<Rightarrow> u64" where
  "xorshift s0 =
     (let s1 = s0 XOR push_bit 13 s0; s2 = s1 XOR drop_bit 7 s1 in s2 XOR push_bit 17 s2)"

fun prng_bytes :: "nat \<Rightarrow> u64 \<Rightarrow> u8 list \<times> u64" where
  "prng_bytes 0 s = ([], s)"
| "prng_bytes (Suc n) s =
     (let t = xorshift s; (bs, u) = prng_bytes n t in (ucast (t AND 0xFF) # bs, u))"

definition random_bytes :: "nat \<Rightarrow> u64 \<Rightarrow> u8 list \<times> u64" where
  "random_bytes n s = prng_bytes n (if s = 0 then 0xDEADBEEFDEADBEEF else s)"

abbreviation code :: "char \<Rightarrow> nat" where
  "code c \<equiv> of_char c"

definition is_lower :: "char \<Rightarrow> bool" where
  "is_lower c \<longleftrightarrow> 97 \<le> code c \<and> code c \<le> 122"

definition is_upper :: "char \<Rightarrow> bool" where
  "is_upper c \<longleftrightarrow> 65 \<le> code c \<and> code c \<le> 90"

definition is_digit :: "char \<Rightarrow> bool" where
  "is_digit c \<longleftrightarrow> 48 \<le> code c \<and> code c \<le> 57"

definition hex_value :: "char \<Rightarrow> nat option" where
  "hex_value c =
     (if is_digit c then Some (code c - 48)
      else if 97 \<le> code c \<and> code c \<le> 102 then Some (code c - 97 + 10)
      else if 65 \<le> code c \<and> code c \<le> 70 then Some (code c - 65 + 10)
      else None)"

text \<open>The character at an index, the closing NUL from the end of the string on.\<close>

definition char_at :: "string \<Rightarrow> nat \<Rightarrow> char" where
  "char_at s i = (if i < length s then s ! i else CHR 0x00)"

fun hex_to_bytes :: "string \<Rightarrow> nat \<Rightarrow> u8 list option" where
  "hex_to_bytes h 0 = Some []"
| "hex_to_bytes h (Suc n) =
     (case (hex_value (char_at h 0), hex_value (char_at h 1)) of
        (Some v1, Some v2) \<Rightarrow> map_option (Cons (of_nat (16 * v1 + v2))) (hex_to_bytes (drop 2 h) n)
      | _ \<Rightarrow> None)"

definition user_password_meets_policy :: "string option \<Rightarrow> bool" where
  "user_password_meets_policy password =
     (case password of
        None \<Rightarrow> False
      | Some pw \<Rightarrow>
          length pw \<ge> 6 \<and> length pw \<le> 128 \<and>
          list_ex (\<lambda>c. \<not> (is_lower c \<or> is_upper c \<or> is_digit c)) pw)"

definition hash_chunks :: "sha_ctx \<Rightarrow> u8 list list \<Rightarrow> u8 list" where
  "hash_chunks junk cs = sha256_final (foldl sha256_update (sha256_init junk) cs)"

abbreviation str_bytes :: "string \<Rightarrow> u8 list" where
  "str_bytes s \<equiv> map of_char s"

definition user_make_credential ::
    "sha_ctx \<Rightarrow> u64 \<Rightarrow> string option \<Rightarrow> string option \<Rightarrow> string \<times> u64" where
  "user_make_credential junk s password name =
     (case password of
        None \<Rightarrow> ('''', s)
      | Some pw \<Rightarrow>
          (let (salt, s1) = random_bytes 8 s;
               hash = hash_chunks junk ([str_bytes pw, salt] @ (case name of None \<Rightarrow> [] | Some nm \<Rightarrow> [str_bytes nm]))
           in (bytes_to_hex salt @ ''$'' @ bytes_to_hex hash, s1)))"

definition ct_diff :: "u8 list \<Rightarrow> u8 list \<Rightarrow> u8" where
  "ct_diff xs ys = foldl (\<lambda>d (a, b). d OR (a XOR b)) 0 (zip xs ys)"

definition user_verify_credential :: "sha_ctx \<Rightarrow> string option \<Rightarrow> string option \<Rightarrow> int" where
  "user_verify_credential junk cred password =
     (case (cred, password) of
        (Some c, Some pw) \<Rightarrow>
          if c = [] then (if pw = [] then 0 else -1)
          else if char_at c 16 \<noteq> CHR ''$'' then -1
          else (case (hex_to_bytes c 8, hex_to_bytes (drop 17 c) 32) of
                  (Some salt, Some expected) \<Rightarrow>
                    (if ct_diff (hash_chunks junk [str_bytes pw, salt]) expected = 0 then 0 else -1)
                | _ \<Rightarrow> -1)
      | _ \<Rightarrow> -1)"

subsection \<open>Lookup\<close>

definition user_find_by_name :: "user_db \<Rightarrow> string option \<Rightarrow> nat option" where
  "user_find_by_name db name =
     (case name of
        None \<Rightarrow> None
      | Some nm \<Rightarrow> find_index (\<lambda>u. is_active u \<and> username u = nm) (users db))"

definition user_find_by_uid :: "user_db \<Rightarrow> u32 \<Rightarrow> nat option" where
  "user_find_by_uid db i = find_index (\<lambda>u. is_active u \<and> uid u = i) (users db)"

definition group_find_by_gid :: "user_db \<Rightarrow> u32 \<Rightarrow> nat option" where
  "group_find_by_gid db i = find_index (\<lambda>g. ggid g = i) (groups db)"

definition group_find_by_name :: "user_db \<Rightarrow> string option \<Rightarrow> nat option" where
  "group_find_by_name db name =
     (case name of None \<Rightarrow> None | Some nm \<Rightarrow> find_index (\<lambda>g. gname g = nm) (groups db))"

definition user_set_current :: "user_db \<Rightarrow> u32 \<Rightarrow> user_db" where
  "user_set_current db i = db\<lparr>current_uid := i\<rparr>"

definition user_get_current_uid :: "user_db \<Rightarrow> u32" where
  "user_get_current_uid db = current_uid db"

definition user_get_current :: "user_db \<Rightarrow> nat option" where
  "user_get_current db = user_find_by_uid db (current_uid db)"

definition user_count :: "user_db \<Rightarrow> nat" where
  "user_count db = length (filter is_active (users db))"

definition user_get_by_index :: "user_db \<Rightarrow> nat \<Rightarrow> nat option" where
  "user_get_by_index db index =
     (let act = filter (\<lambda>i. is_active (users db ! i)) [0..<length (users db)] in
      if index < length act then Some (act ! index) else None)"

definition group_count :: "user_db \<Rightarrow> nat" where
  "group_count db = length (groups db)"

definition group_get_by_index :: "user_db \<Rightarrow> nat \<Rightarrow> nat option" where
  "group_get_by_index db index = (if index \<ge> length (groups db) then None else Some index)"

text \<open>The update of one account through a pointer.\<close>

definition upd_user :: "user_db \<Rightarrow> nat \<Rightarrow> (user \<Rightarrow> user) \<Rightarrow> user_db" where
  "upd_user db i f = db\<lparr>users := (users db)[i := f (users db ! i)]\<rparr>"

subsection \<open>Accounts\<close>

definition name_char :: "char \<Rightarrow> bool" where
  "name_char c \<longleftrightarrow> is_lower c \<or> is_upper c \<or> is_digit c \<or> c = CHR ''_'' \<or> c = CHR ''-''"

definition new_user :: "string \<Rightarrow> u32 \<Rightarrow> u32 \<Rightarrow> u8 \<Rightarrow> user" where
  "new_user nm i g admin =
     \<lparr>uid = i, gid = g, username = nm, home = ''/home/'' @ nm, shell = ''/bin/sh'', is_admin = admin,
      is_active = True, credential = [], failed_logins = 0, lock_until_tick = 0\<rparr>"

definition user_create :: "user_db \<Rightarrow> string option \<Rightarrow> u32 \<Rightarrow> u32 \<Rightarrow> u8 \<Rightarrow> int \<times> user_db" where
  "user_create db name i g admin =
     (case name of
        None \<Rightarrow> (-1, db)
      | Some nm \<Rightarrow>
          if nm = [] then (-1, db)
          else if length (users db) \<ge> 64 then (-1, db)
          else if length nm \<ge> 32 then (-1, db)
          else if \<not> is_lower (hd nm) \<and> \<not> is_upper (hd nm) then (-1, db)
          else if \<not> list_all name_char (tl nm) then (-1, db)
          else if list_ex (\<lambda>u. is_active u \<and> uid u = i \<or> is_active u \<and> username u = nm) (users db) then (-1, db)
          else (0, db\<lparr>users := users db @ [new_user nm i g admin]\<rparr>))"

definition user_delete :: "user_db \<Rightarrow> string option \<Rightarrow> int \<times> user_db" where
  "user_delete db name =
     (case name of
        None \<Rightarrow> (-1, db)
      | Some nm \<Rightarrow>
          if nm = ''sover'' then (-1, db)
          else if (case user_get_current db of None \<Rightarrow> False | Some c \<Rightarrow> username (users db ! c) = nm) then (-1, db)
          else case find_index (\<lambda>u. is_active u \<and> username u = nm) (users db) of
                 None \<Rightarrow> (-1, db)
               | Some i \<Rightarrow> (0, upd_user db i (\<lambda>u. u\<lparr>is_active := False, username := [], credential := []\<rparr>)))"

text \<open>The account an operation by name works on: found, and active.\<close>

definition active_by_name :: "user_db \<Rightarrow> string option \<Rightarrow> nat option" where
  "active_by_name db name =
     (case user_find_by_name db name of
        None \<Rightarrow> None
      | Some i \<Rightarrow> if \<not> is_active (users db ! i) then None else Some i)"

definition user_set_password :: "user_db \<Rightarrow> string option \<Rightarrow> string option \<Rightarrow> int \<times> user_db" where
  "user_set_password db name cred =
     (case cred of
        None \<Rightarrow> (-1, db)
      | Some c \<Rightarrow>
          (case active_by_name db name of
             None \<Rightarrow> (-1, db)
           | Some i \<Rightarrow> (0, upd_user db i (\<lambda>u. u\<lparr>credential := take 81 c, failed_logins := 0, lock_until_tick := 0\<rparr>))))"

definition user_change_password :: "sha_ctx \<Rightarrow> user_db \<Rightarrow> string option \<Rightarrow> string option \<Rightarrow> int \<times> user_db" where
  "user_change_password junk db name password =
     (case password of
        None \<Rightarrow> (-1, db)
      | Some pw \<Rightarrow>
          (case active_by_name db name of
             None \<Rightarrow> (-1, db)
           | Some i \<Rightarrow>
               if \<not> user_password_meets_policy password then (-2, db)
               else (let (c, s) = user_make_credential junk (prng db) password name
                     in (0, (upd_user db i (\<lambda>u. u\<lparr>credential := c, failed_logins := 0, lock_until_tick := 0\<rparr>))\<lparr>prng := s\<rparr>))))"

definition user_set_admin :: "user_db \<Rightarrow> string option \<Rightarrow> u8 \<Rightarrow> int \<times> user_db" where
  "user_set_admin db name admin =
     (if name = Some ''sover'' \<and> admin = 0 then (-1, db)
      else case active_by_name db name of
             None \<Rightarrow> (-1, db)
           | Some i \<Rightarrow> (0, upd_user db i (\<lambda>u. u\<lparr>is_admin := admin\<rparr>)))"

definition user_set_home :: "user_db \<Rightarrow> string option \<Rightarrow> string option \<Rightarrow> int \<times> user_db" where
  "user_set_home db name h =
     (case h of
        None \<Rightarrow> (-1, db)
      | Some p \<Rightarrow>
          (case active_by_name db name of
             None \<Rightarrow> (-1, db)
           | Some i \<Rightarrow> (0, upd_user db i (\<lambda>u. u\<lparr>home := take 127 p\<rparr>))))"

definition user_set_shell :: "user_db \<Rightarrow> string option \<Rightarrow> string option \<Rightarrow> int \<times> user_db" where
  "user_set_shell db name sh =
     (case sh of
        None \<Rightarrow> (-1, db)
      | Some p \<Rightarrow>
          (case active_by_name db name of
             None \<Rightarrow> (-1, db)
           | Some i \<Rightarrow> (0, upd_user db i (\<lambda>u. u\<lparr>shell := take 63 p\<rparr>))))"

definition user_rename :: "user_db \<Rightarrow> u32 \<Rightarrow> string option \<Rightarrow> int \<times> user_db" where
  "user_rename db i new_name =
     (case new_name of
        None \<Rightarrow> (-1, db)
      | Some nm \<Rightarrow>
          (case user_find_by_uid db i of
             None \<Rightarrow> (-1, db)
           | Some k \<Rightarrow>
               if user_find_by_name db (Some nm) \<noteq> None then (-1, db)
               else if length nm \<ge> 32 then (-1, db)
               else if \<not> list_all name_char nm then (-1, db)
               else (0, upd_user db k (\<lambda>u. u\<lparr>username := nm\<rparr>))))"

subsection \<open>Login\<close>

definition fail_login :: "u32 \<Rightarrow> user \<Rightarrow> user" where
  "fail_login now u =
     (let u1 = (if failed_logins u < 255 then u\<lparr>failed_logins := failed_logins u + 1\<rparr> else u)
      in if failed_logins u1 \<ge> 5 then u1\<lparr>lock_until_tick := now + 1000\<rparr> else u1)"

definition user_authenticate ::
    "sha_ctx \<Rightarrow> u32 \<Rightarrow> user_db \<Rightarrow> string option \<Rightarrow> string option \<Rightarrow> int \<times> user_db" where
  "user_authenticate junk now db name password =
     (case password of
        None \<Rightarrow> (-1, db)
      | Some pw \<Rightarrow>
          (case active_by_name db name of
             None \<Rightarrow> (-1, db)
           | Some i \<Rightarrow>
               (let u = users db ! i in
                if lock_until_tick u \<noteq> 0 \<and> now < lock_until_tick u then (-2, db)
                else if user_verify_credential junk (Some (credential u)) password = 0
                then (0, upd_user db i (\<lambda>u. u\<lparr>failed_logins := 0, lock_until_tick := 0\<rparr>))
                else (-1, upd_user db i (fail_login now)))))"

subsection \<open>Groups\<close>

definition group_create :: "user_db \<Rightarrow> string option \<Rightarrow> u32 \<Rightarrow> int \<times> user_db" where
  "group_create db name g =
     (case name of
        None \<Rightarrow> (-1, db)
      | Some nm \<Rightarrow>
          if length (groups db) \<ge> 32 then (-1, db)
          else if list_ex (\<lambda>x. ggid x = g \<or> gname x = nm) (groups db) then (-1, db)
          else (0, db\<lparr>groups := groups db @ [\<lparr>ggid = g, gname = take 31 nm, members = []\<rparr>]\<rparr>))"

definition upd_group :: "user_db \<Rightarrow> nat \<Rightarrow> (group \<Rightarrow> group) \<Rightarrow> user_db" where
  "upd_group db i f = db\<lparr>groups := (groups db)[i := f (groups db ! i)]\<rparr>"

definition group_add_member :: "user_db \<Rightarrow> u32 \<Rightarrow> u32 \<Rightarrow> int \<times> user_db" where
  "group_add_member db g u =
     (case group_find_by_gid db g of
        None \<Rightarrow> (-1, db)
      | Some i \<Rightarrow>
          (let ms = members (groups db ! i) in
           if length ms \<ge> 16 then (-1, db)
           else if u \<in> set ms then (0, db)
           else (0, upd_group db i (\<lambda>x. x\<lparr>members := ms @ [u]\<rparr>))))"

definition group_remove_member :: "user_db \<Rightarrow> u32 \<Rightarrow> u32 \<Rightarrow> int \<times> user_db" where
  "group_remove_member db g u =
     (case group_find_by_gid db g of
        None \<Rightarrow> (-1, db)
      | Some i \<Rightarrow>
          (let ms = members (groups db ! i) in
           case find_index (\<lambda>m. m = u) ms of
             None \<Rightarrow> (-1, db)
           | Some j \<Rightarrow> (0, upd_group db i (\<lambda>x. x\<lparr>members := remove_nth j ms\<rparr>))))"

definition user_get_groups :: "user_db \<Rightarrow> u32 \<Rightarrow> nat \<Rightarrow> int \<times> u32 list" where
  "user_get_groups db i max_groups =
     (if max_groups = 0 then (-1, [])
      else case user_find_by_uid db i of
             None \<Rightarrow> (0, [])
           | Some k \<Rightarrow>
               (let g0 = gid (users db ! k);
                    gs = foldl (\<lambda>gs g. if length gs < max_groups \<and> i \<in> set (members g) \<and> ggid g \<noteq> g0
                                       then gs @ [ggid g] else gs) [g0] (groups db)
                in (int (length gs), gs)))"

definition user_in_group :: "user_db \<Rightarrow> u32 \<Rightarrow> u32 \<Rightarrow> bool" where
  "user_in_group db i g =
     (case user_find_by_uid db i of
        None \<Rightarrow> False
      | Some k \<Rightarrow> gid (users db ! k) = g \<or> list_ex (\<lambda>x. ggid x = g \<and> i \<in> set (members x)) (groups db))"

subsection \<open>Roles and identifiers\<close>

datatype user_role = USER_ROLE_SOVER | USER_ROLE_ADMIN | USER_ROLE_USER | USER_ROLE_NOBODY

definition user_get_role :: "user_db \<Rightarrow> u32 \<Rightarrow> user_role" where
  "user_get_role db i =
     (case user_find_by_uid db i of
        None \<Rightarrow> USER_ROLE_NOBODY
      | Some k \<Rightarrow>
          if \<not> is_active (users db ! k) then USER_ROLE_NOBODY
          else if i = 0 then USER_ROLE_SOVER
          else if i = 1 \<or> is_admin (users db ! k) \<noteq> 0 then USER_ROLE_ADMIN
          else USER_ROLE_USER)"

fun user_role_name :: "user_role \<Rightarrow> string" where
  "user_role_name USER_ROLE_SOVER = ''sover''"
| "user_role_name USER_ROLE_ADMIN = ''admin''"
| "user_role_name USER_ROLE_USER = ''user''"
| "user_role_name USER_ROLE_NOBODY = ''nobody''"

definition user_is_sover :: "u32 \<Rightarrow> bool" where
  "user_is_sover i \<longleftrightarrow> i = 0"

definition user_is_admin :: "user_db \<Rightarrow> u32 \<Rightarrow> bool" where
  "user_is_admin db i \<longleftrightarrow> user_get_role db i = USER_ROLE_ADMIN"

definition user_is_regular :: "user_db \<Rightarrow> u32 \<Rightarrow> bool" where
  "user_is_regular db i \<longleftrightarrow> user_get_role db i = USER_ROLE_USER"

definition user_is_nobody :: "u32 \<Rightarrow> bool" where
  "user_is_nobody i \<longleftrightarrow> i = 65534"

definition user_alloc_uid :: "user_db \<Rightarrow> u32" where
  "user_alloc_uid db =
     (case find (\<lambda>n. user_find_by_uid db (of_nat n) = None) [1000..<60001] of Some n \<Rightarrow> of_nat n | None \<Rightarrow> 0)"

definition user_alloc_gid :: "user_db \<Rightarrow> u32" where
  "user_alloc_gid db =
     (case find (\<lambda>n. group_find_by_gid db (of_nat n) = None) [200..<65534] of Some n \<Rightarrow> of_nat n | None \<Rightarrow> 0)"

text \<open>Initialisation; the state of the generator survives from an earlier run.\<close>

definition user_init :: "sha_ctx \<Rightarrow> u64 \<Rightarrow> user_db" where
  "user_init junk s =
     (let db0 = \<lparr>users = [], groups = [], current_uid = 0, prng = s\<rparr>;
          db1 = snd (group_create db0 (Some ''root'') 0);
          db2 = snd (group_create db1 (Some ''admin'') 1);
          db3 = snd (group_create db2 (Some ''users'') 100);
          db4 = snd (group_create db3 (Some ''nogroup'') 65534);
          db5 = snd (user_create db4 (Some ''sover'') 0 0 1);
          db6 = upd_user db5 0 (\<lambda>u. u\<lparr>home := ''/root'', shell := ''/bin/sh'', credential := [], is_active := True,
                  failed_logins := 0, lock_until_tick := 0\<rparr>);
          db7 = snd (user_create db6 (Some ''admin'') 1 1 1);
          (c, s1) = user_make_credential junk (prng db7) (Some ''admin'') (Some ''admin'');
          db8 = (upd_user db7 1 (\<lambda>u. u\<lparr>home := ''/home/admin'', shell := ''/bin/sh'', credential := c, is_active := True,
                  failed_logins := 0, lock_until_tick := 0\<rparr>))\<lparr>prng := s1\<rparr>;
          db9 = snd (user_create db8 (Some ''nobody'') 65534 65534 0);
          db10 = upd_user db9 2 (\<lambda>u. u\<lparr>home := ''/nonexistent'', shell := ''/bin/false'', credential := [],
                  is_active := False, failed_logins := 0, lock_until_tick := 0\<rparr>);
          db11 = snd (group_add_member db10 0 0);
          db12 = snd (group_add_member db11 1 1)
      in snd (group_add_member db12 65534 65534))"

subsection \<open>Hexadecimal strings\<close>

lemma hex_digit_value: "n < 16 \<Longrightarrow> hex_value (''0123456789abcdef'' ! n) = Some n"
proof -
  have "list_all (\<lambda>n. hex_value (''0123456789abcdef'' ! n) = Some n) [0..<16]" by code_simp
  then show "n < 16 \<Longrightarrow> ?thesis" by (simp add: list_all_iff)
qed

lemma hex_nibble: "hex_value (hex_digit (w AND 0xF)) = Some (unat w mod 16)"
proof -
  have "unat (w AND 0xF) = take_bit 4 (unat w)"
    using unsigned_take_bit_eq [of 4 w, where ?'a = nat] by (simp add: take_bit_eq_mask mask_eq_exp_minus_1)
  then have "unat (w AND 0xF) = unat w mod 16" by (simp only: take_bit_nat_def) simp
  then show ?thesis by (simp add: hex_digit_def hex_digit_value)
qed

lemma hex_roundtrip: "hex_to_bytes (bytes_to_hex bs @ rest) (length bs) = Some bs"
proof (induction bs)
  case Nil
  then show ?case by simp
next
  case (Cons b bs)
  have "unat (drop_bit 4 b) mod 16 = unat b div 16"
    using unsigned_less [of b, where ?'a = nat] by (simp add: unat_drop_bit_eq drop_bit_nat_def)
  then have "of_nat (16 * (unat (drop_bit 4 b) mod 16) + unat b mod 16) = b" by simp
  with Cons show ?case by (simp add: bytes_to_hex_def char_at_def hex_nibble del: of_nat_add of_nat_mult)
qed

lemma length_bytes_to_hex [simp]: "length (bytes_to_hex bs) = 2 * length bs"
  by (induction bs) (simp_all add: bytes_to_hex_def)

lemma length_prng_bytes [simp]: "length (fst (prng_bytes n s)) = n"
  by (induction n arbitrary: s) (simp_all add: Let_def split_beta)

lemma xor_zero_iff: "(a :: u8) XOR b = 0 \<longleftrightarrow> a = b"
proof
  assume "a XOR b = 0"
  then have "(a XOR b) XOR b = b" by simp
  then show "a = b" by (simp add: xor.assoc)
qed simp

lemma ct_diff_fold:
  "length xs = length ys \<Longrightarrow>
     foldl (\<lambda>d (a, b). d OR (a XOR b)) d (zip xs ys) = 0 \<longleftrightarrow> d = (0 :: u8) \<and> xs = ys"
proof (induction xs ys arbitrary: d rule: list_induct2)
  case (Cons x xs y ys)
  have "d OR (x XOR y) = 0 \<longleftrightarrow> d = 0 \<and> x = y" by (simp only: or_eq_0_iff xor_zero_iff)
  with Cons.IH [of "d OR (x XOR y)"] show ?case by simp
qed simp

lemma ct_diff_zero_iff: "length xs = length ys \<Longrightarrow> ct_diff xs ys = 0 \<longleftrightarrow> xs = ys"
  by (simp add: ct_diff_def ct_diff_fold)

lemma verify_made_credential:
  assumes "length (sdata junk) = 64" and "length (sdata junk') = 64" and "random_bytes 8 s = (salt, s1)"
  shows "user_verify_credential junk' (Some (fst (user_make_credential junk s (Some pw) name))) (Some pw') = 0 \<longleftrightarrow>
     sha256_spec (str_bytes pw' @ salt) =
     sha256_spec (str_bytes pw @ salt @ (case name of None \<Rightarrow> [] | Some nm \<Rightarrow> str_bytes nm))"
proof -
  let ?h = "sha256_spec (str_bytes pw @ salt @ (case name of None \<Rightarrow> [] | Some nm \<Rightarrow> str_bytes nm))"
  have salt: "length salt = 8" using assms(3) length_prng_bytes [of 8] by (metis fst_conv random_bytes_def)
  have c: "fst (user_make_credential junk s (Some pw) name) = bytes_to_hex salt @ ''$'' @ bytes_to_hex ?h"
    using assms(3) by (auto simp: user_make_credential_def hash_chunks_def sha_stream_spec [OF assms(1)]
        simp del: foldl.simps split: option.split)
  have "hex_to_bytes (bytes_to_hex salt @ ''$'' @ bytes_to_hex ?h) 8 = Some salt"
    using hex_roundtrip [of salt] salt by simp
  moreover have "hex_to_bytes (bytes_to_hex ?h) 32 = Some ?h"
    using hex_roundtrip [of ?h "[]"] by simp
  moreover have "bytes_to_hex salt \<noteq> []" using salt length_bytes_to_hex [of salt] by fastforce
  ultimately show ?thesis
    using salt by (simp add: c user_verify_credential_def char_at_def nth_append hash_chunks_def
        sha_stream_spec [OF assms(2)] ct_diff_zero_iff del: foldl.simps)
qed

subsection \<open>The invariant of the database\<close>

definition users_unique :: "user list \<Rightarrow> bool" where
  "users_unique us \<longleftrightarrow>
     (\<forall>i < length us. \<forall>j < length us. i \<noteq> j \<longrightarrow> is_active (us ! i) \<longrightarrow> is_active (us ! j) \<longrightarrow>
        uid (us ! i) \<noteq> uid (us ! j) \<and> username (us ! i) \<noteq> username (us ! j))"

definition groups_ok :: "group list \<Rightarrow> bool" where
  "groups_ok gs \<longleftrightarrow> length gs \<le> 32 \<and> distinct (map ggid gs) \<and>
     (\<forall>g \<in> set gs. distinct (members g) \<and> length (members g) \<le> 16)"

definition users_ok :: "user_db \<Rightarrow> bool" where
  "users_ok db \<longleftrightarrow> length (users db) \<le> 64 \<and> users_unique (users db) \<and> groups_ok (groups db)"

lemma users_unique_update:
  assumes "users_unique us"
    and "\<And>j. k < length us \<Longrightarrow> j < length us \<Longrightarrow> j \<noteq> k \<Longrightarrow> is_active v \<Longrightarrow> is_active (us ! j) \<Longrightarrow>
      uid (us ! j) \<noteq> uid v \<and> username (us ! j) \<noteq> username v"
  shows "users_unique (us[k := v])"
proof (cases "k < length us")
  case True
  show ?thesis
    unfolding users_unique_def length_list_update nth_list_update [OF True]
    using assms(1) [unfolded users_unique_def] assms(2) [OF True] by (auto dest: sym)
next
  case False
  with assms(1) show ?thesis by (simp add: list_update_beyond)
qed

lemma upd_user_ok [kernel_inv]:
  assumes "users_ok db"
    and f: "\<And>u. uid (f u) = uid u \<and> (is_active (f u) \<longrightarrow> is_active u \<and> username (f u) = username u)"
  shows "users_ok (upd_user db i f)"
proof -
  have u: "users_unique (users db)" using assms(1) by (simp add: users_ok_def)
  then have "users_unique ((users db)[i := f (users db ! i)])"
    using f [of "users db ! i"] by (intro users_unique_update) (auto simp: users_unique_def)
  then show ?thesis using assms(1) by (simp add: users_ok_def upd_user_def)
qed

lemma users_ok_fields [simp]:
  "users_ok (db\<lparr>prng := s\<rparr>) = users_ok db" "users_ok (db\<lparr>current_uid := c\<rparr>) = users_ok db"
  by (simp_all add: users_ok_def)

lemma active_by_name_prng [simp]: "active_by_name (db\<lparr>prng := s\<rparr>) = active_by_name db"
  by (simp add: fun_eq_iff active_by_name_def user_find_by_name_def cong: option.case_cong)

lemma user_create_ok [kernel_inv]: "users_ok db \<Longrightarrow> users_ok (snd (user_create db name i g admin))"
  by (auto simp: user_create_def users_ok_def users_unique_def nth_append new_user_def list_ex_iff
      less_Suc_eq split: option.split)

lemma user_delete_ok [kernel_inv]: "users_ok db \<Longrightarrow> users_ok (snd (user_delete db name))"
  by (auto simp: user_delete_def intro!: upd_user_ok split: option.split)

lemma user_set_ok [kernel_inv]:
  "users_ok db \<Longrightarrow> users_ok (snd (user_set_password db name c))"
  "users_ok db \<Longrightarrow> users_ok (snd (user_change_password junk db name pw))"
  "users_ok db \<Longrightarrow> users_ok (snd (user_set_admin db name a))"
  "users_ok db \<Longrightarrow> users_ok (snd (user_set_home db name h))"
  "users_ok db \<Longrightarrow> users_ok (snd (user_set_shell db name h))"
  by (auto simp: user_set_password_def user_change_password_def user_set_admin_def user_set_home_def
      user_set_shell_def split_beta intro!: upd_user_ok split: option.split)

lemma fail_login_keeps [simp]:
  "uid (fail_login now u) = uid u" "username (fail_login now u) = username u"
  "is_active (fail_login now u) = is_active u" "credential (fail_login now u) = credential u"
  by (simp_all add: fail_login_def Let_def)

lemma user_authenticate_ok [kernel_inv]: "users_ok db \<Longrightarrow> users_ok (snd (user_authenticate junk now db name pw))"
  by (auto simp: user_authenticate_def Let_def intro!: upd_user_ok split: option.split)

lemma user_rename_ok [kernel_inv]:
  assumes "users_ok db"
  shows "users_ok (snd (user_rename db i name))"
proof -
  have u: "users_unique (users db)" using assms by (simp add: users_ok_def)
  have "users_ok (upd_user db k (\<lambda>u. u\<lparr>username := nm\<rparr>))"
    if "user_find_by_uid db i = Some k" "user_find_by_name db (Some nm) = None" for k nm
  proof -
    have k: "k < length (users db)" "is_active (users db ! k)"
      using that(1) by (auto simp: user_find_by_uid_def dest: find_index_SomeD)
    have "users_unique ((users db)[k := (users db ! k)\<lparr>username := nm\<rparr>])"
      using u k that(2) by (intro users_unique_update) (auto simp: users_unique_def user_find_by_name_def)
    then show ?thesis using assms by (simp add: users_ok_def upd_user_def)
  qed
  then show ?thesis using assms by (auto simp: user_rename_def split: option.split)
qed

lemma group_create_ok [kernel_inv]: "users_ok db \<Longrightarrow> users_ok (snd (group_create db name g))"
  by (auto simp: group_create_def users_ok_def groups_ok_def list_ex_iff split: option.split)

lemma upd_group_ok:
  assumes "users_ok db" and "i < length (groups db)" and "ggid (f (groups db ! i)) = ggid (groups db ! i)"
    and "distinct (members (f (groups db ! i)))" and "length (members (f (groups db ! i))) \<le> 16"
  shows "users_ok (upd_group db i f)"
proof -
  have "map ggid ((groups db)[i := f (groups db ! i)]) = map ggid (groups db)"
    using assms(2, 3) by (simp add: map_update list_update_same_conv)
  then show ?thesis
    using assms set_update_subset_insert [of "groups db" i]
    by (auto simp: users_ok_def groups_ok_def upd_group_def simp del: map_update)
qed

lemma group_member_ok [kernel_inv]:
  assumes "users_ok db"
  shows "users_ok (snd (group_add_member db g u))" and "users_ok (snd (group_remove_member db g u))"
proof -
  have m: "i < length (groups db) \<and> distinct (members (groups db ! i)) \<and> length (members (groups db ! i)) \<le> 16"
    if "group_find_by_gid db g = Some i" for i
    using that assms by (auto simp: users_ok_def groups_ok_def group_find_by_gid_def dest!: find_index_SomeD)
  show "users_ok (snd (group_add_member db g u))"
    using assms m by (auto simp: group_add_member_def Let_def intro!: upd_group_ok split: option.split)
  show "users_ok (snd (group_remove_member db g u))"
    using assms m by (auto simp: group_remove_member_def Let_def distinct_remove_nth
        dest!: find_index_SomeD intro!: upd_group_ok split: option.split)
qed

datatype user_call =
    Create "string option" u32 u32 u8 | Delete "string option" | SetPassword "string option" "string option"
  | ChangePassword sha_ctx "string option" "string option" | SetAdmin "string option" u8
  | SetHome "string option" "string option" | SetShell "string option" "string option"
  | Rename u32 "string option" | Authenticate sha_ctx u32 "string option" "string option"
  | SetCurrent u32 | GroupCreate "string option" u32 | GroupAdd u32 u32 | GroupRemove u32 u32

fun user_exec :: "user_db \<Rightarrow> user_call \<Rightarrow> user_db" where
  "user_exec db (Create nm i g a) = snd (user_create db nm i g a)"
| "user_exec db (Delete nm) = snd (user_delete db nm)"
| "user_exec db (SetPassword nm c) = snd (user_set_password db nm c)"
| "user_exec db (ChangePassword junk nm pw) = snd (user_change_password junk db nm pw)"
| "user_exec db (SetAdmin nm a) = snd (user_set_admin db nm a)"
| "user_exec db (SetHome nm h) = snd (user_set_home db nm h)"
| "user_exec db (SetShell nm h) = snd (user_set_shell db nm h)"
| "user_exec db (Rename i nm) = snd (user_rename db i nm)"
| "user_exec db (Authenticate junk now nm pw) = snd (user_authenticate junk now db nm pw)"
| "user_exec db (SetCurrent i) = user_set_current db i"
| "user_exec db (GroupCreate nm g) = snd (group_create db nm g)"
| "user_exec db (GroupAdd g u) = snd (group_add_member db g u)"
| "user_exec db (GroupRemove g u) = snd (group_remove_member db g u)"

interpretation user_calls: call_system user_exec "\<lambda>_. True" users_ok
proof unfold_locales
  fix db c
  assume "users_ok db"
  then show "users_ok (user_exec db c)" by (cases c) (simp_all add: kernel_inv user_set_current_def)
qed

lemma user_create_then_upd:
  assumes "users_ok db" and "length (users db) \<le> k"
    and "\<And>u. uid (f u) = uid u \<and> username (f u) = username u"
  shows "users_ok (upd_user (snd (user_create db nm i g a)) k f) \<and>
    length (users (upd_user (snd (user_create db nm i g a)) k f)) \<le> Suc k"
proof -
  let ?db = "snd (user_create db nm i g a)"
  have ok: "users_ok ?db" by (rule user_create_ok [OF assms(1)])
  have "?db = db \<or> users ?db = users db @ [new_user (the nm) i g a]"
    by (auto simp: user_create_def split: option.split)
  then have l: "length (users ?db) \<le> Suc k" "k < length (users ?db) \<Longrightarrow> is_active (users ?db ! k)"
    using assms(2) by (auto simp: new_user_def nth_append)
  have "users_unique ((users ?db)[k := f (users ?db ! k)])"
    using ok l assms(3) [of "users ?db ! k"] by (intro users_unique_update) (auto simp: users_ok_def users_unique_def)
  then show ?thesis using ok l by (simp add: users_ok_def upd_user_def)
qed

lemma group_ops_users [simp]:
  "users (snd (group_create db nm g)) = users db"
  by (simp add: group_create_def split: option.split)

lemma user_init_ok: "users_ok (user_init junk s)"
proof -
  define db4 where "db4 = snd (group_create (snd (group_create (snd (group_create (snd (group_create
      \<lparr>users = [], groups = [], current_uid = 0, prng = s\<rparr> (Some ''root'') 0)) (Some ''admin'') 1))
      (Some ''users'') 100)) (Some ''nogroup'') 65534)"
  have "users_ok \<lparr>users = [], groups = [], current_uid = 0, prng = s\<rparr>"
    by (simp add: users_ok_def users_unique_def groups_ok_def)
  then have 4: "users_ok db4" "length (users db4) \<le> 0" unfolding db4_def by (intro group_create_ok) simp_all
  define db6 where "db6 = upd_user (snd (user_create db4 (Some ''sover'') 0 0 1)) 0
    (\<lambda>u. u\<lparr>home := ''/root'', shell := ''/bin/sh'', credential := [], is_active := True, failed_logins := 0, lock_until_tick := 0\<rparr>)"
  have 6: "users_ok db6 \<and> length (users db6) \<le> Suc 0"
    unfolding db6_def by (rule user_create_then_upd [OF 4]) simp
  define db7 where "db7 = snd (user_create db6 (Some ''admin'') 1 1 1)"
  obtain c s1 where c: "user_make_credential junk (prng db7) (Some ''admin'') (Some ''admin'') = (c, s1)" by fastforce
  define db8 where "db8 = (upd_user db7 1 (\<lambda>u. u\<lparr>home := ''/home/admin'', shell := ''/bin/sh'', credential := c,
      is_active := True, failed_logins := 0, lock_until_tick := 0\<rparr>))\<lparr>prng := s1\<rparr>"
  have "users_ok db8 \<and> length (users db8) \<le> Suc 1"
    using user_create_then_upd [of db6 1 "\<lambda>u. u\<lparr>home := ''/home/admin'', shell := ''/bin/sh'', credential := c,
      is_active := True, failed_logins := 0, lock_until_tick := 0\<rparr>"] 6 by (simp add: db8_def db7_def)
  then have "users_ok (upd_user (snd (user_create db8 (Some ''nobody'') 65534 65534 0)) 2 (\<lambda>u. u\<lparr>home := ''/nonexistent'',
      shell := ''/bin/false'', credential := [], is_active := False, failed_logins := 0, lock_until_tick := 0\<rparr>))"
    by (intro user_create_then_upd [THEN conjunct1]) auto
  then show ?thesis
    unfolding user_init_def Let_def db4_def [symmetric] db6_def [symmetric] db7_def [symmetric] c prod.case
      db8_def [symmetric]
    by (intro group_member_ok(1))
qed

subsection \<open>Failed logins\<close>



lemma find_index_update:
  assumes "find_index P xs = Some i" and "P v"
  shows "find_index P (xs[i := v]) = Some i"
proof -
  from find_index_SomeD [OF assms(1)] have i: "i < length xs" "\<forall>j<i. \<not> P (xs ! j)" by auto
  then show ?thesis using assms(2) by (intro find_index_SomeI) auto
qed

lemma active_by_name_upd:
  assumes "active_by_name db (Some nm) = Some i"
    and "username (f (users db ! i)) = username (users db ! i)" and "is_active (f (users db ! i)) = is_active (users db ! i)"
  shows "active_by_name (upd_user db i f) (Some nm) = Some i \<and> users (upd_user db i f) ! i = f (users db ! i)"
proof -
  have f: "find_index (\<lambda>u. is_active u \<and> username u = nm) (users db) = Some i"
    using assms(1) by (auto simp: active_by_name_def user_find_by_name_def split: option.splits if_splits)
  from find_index_SomeD [OF f] have i: "i < length (users db)" "is_active (users db ! i)" "username (users db ! i) = nm" by auto
  have "find_index (\<lambda>u. is_active u \<and> username u = nm) ((users db)[i := f (users db ! i)]) = Some i"
    using find_index_update [OF f, of "f (users db ! i)"] assms(2, 3) i by simp
  then show ?thesis using i assms(3) by (simp add: active_by_name_def user_find_by_name_def upd_user_def)
qed




subsection \<open>Properties\<close>

text \<open>C30: the account database stays consistent. After initialisation and any sequence of calls, no two
  active accounts share an identifier or a name, group identifiers are distinct, no group lists a
  member twice, and the tables stay within their sizes.\<close>
theorem users_stay_unique: "users_ok (run_calls user_exec (user_init junk s) cs)"
  by (rule user_calls.run_keeps) (simp_all add: user_init_ok list_all_iff)


definition demo_db :: user_db where
  "demo_db = \<lparr>users = [new_user ''bob'' 1000 100 0], groups = [], current_uid = 0, prng = 0xCAFEBABE12345678\<rparr>"



text \<open>a password that has just been set does not log in. \<open>user_change_password\<close> stores the hash of
  password, salt and name, \<open>user_authenticate\<close> compares with the hash of password and salt, so the login
  with the new password succeeds only if the two inputs collide, and otherwise counts as a failure.\<close>
theorem changed_password_rejected:
  assumes "user_change_password junk db (Some nm) (Some pw) = (0, db')"
    and "length (sdata junk) = 64" and "length (sdata junk') = 64" and "random_bytes 8 (prng db) = (salt, s1)"
  shows "fst (user_authenticate junk' now db' (Some nm) (Some pw)) =
    (if sha256_spec (str_bytes pw @ salt) = sha256_spec (str_bytes pw @ salt @ str_bytes nm) then 0 else -1)"
proof -
  obtain c s2 where c: "user_make_credential junk (prng db) (Some pw) (Some nm) = (c, s2)" by fastforce
  let ?f = "\<lambda>u. u\<lparr>credential := c, failed_logins := 0, lock_until_tick := 0\<rparr>"
  from assms(1) c obtain i where i: "active_by_name db (Some nm) = Some i" "db' = (upd_user db i ?f)\<lparr>prng := s2\<rparr>"
    by (auto simp: user_change_password_def split: option.splits if_splits)
  have u: "active_by_name (upd_user db i ?f) (Some nm) = Some i" "users (upd_user db i ?f) ! i = ?f (users db ! i)"
    using active_by_name_upd [OF i(1), of ?f] by simp_all
  have "active_by_name db' (Some nm) = Some i" "credential (users db' ! i) = c" "lock_until_tick (users db' ! i) = 0"
    using u by (simp_all add: i(2))
  moreover have "user_verify_credential junk' (Some c) (Some pw) = 0 \<longleftrightarrow>
      sha256_spec (str_bytes pw @ salt) = sha256_spec (str_bytes pw @ salt @ str_bytes nm)"
    using verify_made_credential [OF assms(2, 3, 4), of pw "Some nm" pw] c by simp
  ultimately show ?thesis by (simp add: user_authenticate_def Let_def)
qed

theorem changed_password_rejected_witness:
  "\<exists>db' salt. user_change_password demo_ctx demo_db (Some ''bob'') (Some ''pass_1'') = (0, db') \<and>
     fst (user_authenticate demo_ctx 7 db' (Some ''bob'') (Some ''pass_1'')) =
       (if sha256_spec (str_bytes ''pass_1'' @ salt) = sha256_spec (str_bytes ''pass_1'' @ salt @ str_bytes ''bob'')
        then 0 else -1)"
proof -
  obtain c s2 where "user_make_credential demo_ctx 0xCAFEBABE12345678 (Some ''pass_1'') (Some ''bob'') = (c, s2)" by fastforce
  then obtain db' where db': "user_change_password demo_ctx demo_db (Some ''bob'') (Some ''pass_1'') = (0, db')"
    by (simp add: user_change_password_def active_by_name_def user_find_by_name_def demo_db_def new_user_def
        user_password_meets_policy_def is_lower_def is_upper_def is_digit_def)
  obtain salt s1 where r: "random_bytes 8 (prng demo_db) = (salt, s1)" by fastforce
  have l: "length (sdata demo_ctx) = 64" by (simp add: demo_ctx_def)
  from changed_password_rejected [OF db' l l r, of 7] db' show ?thesis by blast
qed

end
