(* ===== verification/Permission.thy ===== *)
theory Permission
  imports Users
begin

text \<open>
  File permissions: the mode-bit checks and the rules on users of \<open>kernel/permission.c\<close>, and the access
  control lists of \<open>kernel/acl.c\<close>. The current user comes from the user database. \<open>ok\<close> tells whether
  \<open>kmalloc\<close> returned a block; \<open>resolve\<close> is the owner, group and mode of the inode that
  \<open>path_resolve\<close> finds for a path, \<open>None\<close> when it finds none.
\<close>

abbreviation "PERM_READ \<equiv> 4 :: u32"
abbreviation "PERM_WRITE \<equiv> 2 :: u32"
abbreviation "PERM_EXEC \<equiv> 1 :: u32"

subsection \<open>Access control lists\<close>

record acl_entry =
  euid :: u32
  egid :: u32
  eperms :: u8

text \<open>The entries are \<open>None\<close> for a NULL pointer, otherwise the \<open>entry_count\<close> entries in use.\<close>

record acl =
  owner_uid :: u32
  group_gid :: u32
  owner_perm :: u8
  group_perm :: u8
  other_perm :: u8
  entries :: "acl_entry list option"

definition acl_list :: "acl \<Rightarrow> acl_entry list" where
  "acl_list a = (case entries a of None \<Rightarrow> [] | Some es \<Rightarrow> es)"

definition acl_create :: acl where
  "acl_create = \<lparr>owner_uid = 0, group_gid = 0, owner_perm = 7, group_perm = 5, other_perm = 5, entries = None\<rparr>"

definition acl_init :: "bool \<Rightarrow> acl option" where
  "acl_init ok = (if \<not> ok then None else Some acl_create)"

definition acl_add_entry :: "bool \<Rightarrow> acl option \<Rightarrow> u32 \<Rightarrow> u32 \<Rightarrow> u16 \<Rightarrow> int \<times> acl option" where
  "acl_add_entry ok acl u g perms =
     (case acl of
        None \<Rightarrow> (-1, None)
      | Some a \<Rightarrow>
          if length (acl_list a) \<ge> 16 then (-1, Some a)
          else if entries a = None \<and> \<not> ok then (-1, Some a)
          else (0, Some (a\<lparr>entries := Some (acl_list a @ [\<lparr>euid = u, egid = g, eperms = ucast (perms AND 7)\<rparr>])\<rparr>)))"

definition acl_remove_entry :: "acl option \<Rightarrow> nat \<Rightarrow> int \<times> acl option" where
  "acl_remove_entry acl index =
     (case acl of
        None \<Rightarrow> (-1, None)
      | Some a \<Rightarrow>
          if index \<ge> length (acl_list a) then (-1, Some a)
          else (0, Some (a\<lparr>entries := Some (remove_nth index (acl_list a))\<rparr>)))"

definition entry_grants :: "u32 \<Rightarrow> u32 \<Rightarrow> u8 \<Rightarrow> acl_entry \<Rightarrow> bool" where
  "entry_grants u g perm e \<longleftrightarrow>
     (euid e = - 1 \<or> euid e = u) \<and> (egid e = - 1 \<or> egid e = g) \<and> perm AND eperms e = perm"

definition acl_check :: "acl option \<Rightarrow> u32 \<Rightarrow> u32 \<Rightarrow> u8 \<Rightarrow> bool" where
  "acl_check acl u g perm =
     (case acl of
        None \<Rightarrow> False
      | Some a \<Rightarrow>
          (let stored = (if u = owner_uid a then owner_perm a
                         else if g = group_gid a then group_perm a else other_perm a) in
           if perm AND stored = perm then True else list_ex (entry_grants u g perm) (acl_list a)))"

definition acl_check_access :: "acl option \<Rightarrow> u32 \<Rightarrow> u32 \<Rightarrow> u16 \<Rightarrow> bool" where
  "acl_check_access acl u g required = acl_check acl u g (ucast required)"

definition acl_clear :: "acl option \<Rightarrow> acl option" where
  "acl_clear acl =
     map_option (\<lambda>a. \<lparr>owner_uid = 0, group_gid = 0, owner_perm = 0, group_perm = 0, other_perm = 0, entries = None\<rparr>) acl"

subsection \<open>Mode bits\<close>

definition perm_umask_set :: "u32 \<Rightarrow> u32" where
  "perm_umask_set m = m AND 0xFFF"

definition perm_check :: "u32 \<Rightarrow> u32 \<Rightarrow> u16 \<Rightarrow> u32 \<Rightarrow> u32 \<Rightarrow> u32 \<Rightarrow> int" where
  "perm_check file_uid file_gid file_mode proc_uid proc_gid access =
     (if proc_uid = 0 then 0
      else let bits = (if proc_uid = file_uid then drop_bit 6 file_mode
                       else if proc_gid = file_gid then drop_bit 3 file_mode
                       else file_mode) AND 7
           in if ucast bits AND access = access then 0 else -1)"

definition perm_check_read :: "u16 \<Rightarrow> u32 \<Rightarrow> u32 \<Rightarrow> u32 \<Rightarrow> u32 \<Rightarrow> int" where
  "perm_check_read mode u g pu pg = perm_check u g mode pu pg PERM_READ"

definition perm_check_write :: "u16 \<Rightarrow> u32 \<Rightarrow> u32 \<Rightarrow> u32 \<Rightarrow> u32 \<Rightarrow> int" where
  "perm_check_write mode u g pu pg = perm_check u g mode pu pg PERM_WRITE"

definition perm_check_exec :: "u16 \<Rightarrow> u32 \<Rightarrow> u32 \<Rightarrow> u32 \<Rightarrow> u32 \<Rightarrow> int" where
  "perm_check_exec mode u g pu pg = perm_check u g mode pu pg PERM_EXEC"

text \<open>The identifiers of the current user, those of nobody when there is none.\<close>

definition current_ids :: "user_db \<Rightarrow> u32 \<times> u32" where
  "current_ids db =
     (case user_get_current db of None \<Rightarrow> (65534, 65534) | Some i \<Rightarrow> (uid (users db ! i), gid (users db ! i)))"

definition perm_check_current_read :: "user_db \<Rightarrow> u16 \<Rightarrow> u32 \<Rightarrow> u32 \<Rightarrow> int" where
  "perm_check_current_read db mode u g = (let (pu, pg) = current_ids db in perm_check u g mode pu pg PERM_READ)"

definition perm_check_current_write :: "user_db \<Rightarrow> u16 \<Rightarrow> u32 \<Rightarrow> u32 \<Rightarrow> int" where
  "perm_check_current_write db mode u g = (let (pu, pg) = current_ids db in perm_check u g mode pu pg PERM_WRITE)"

definition perm_check_current_exec :: "user_db \<Rightarrow> u16 \<Rightarrow> u32 \<Rightarrow> u32 \<Rightarrow> int" where
  "perm_check_current_exec db mode u g = (let (pu, pg) = current_ids db in perm_check u g mode pu pg PERM_EXEC)"

definition perm_check_extended :: "u32 \<Rightarrow> u32 \<Rightarrow> u16 \<Rightarrow> acl option \<Rightarrow> u32 \<Rightarrow> u32 \<Rightarrow> u32 \<Rightarrow> int" where
  "perm_check_extended file_uid file_gid file_mode acl proc_uid proc_gid access =
     (if proc_uid = 0 then 0
      else if perm_check file_uid file_gid file_mode proc_uid proc_gid access = 0 then 0
      else if acl \<noteq> None \<and> acl_check acl proc_uid proc_gid (ucast access) then 0
      else -1)"

definition perm_set_mode :: "u16 option \<Rightarrow> u16 \<Rightarrow> u32 \<Rightarrow> u32 \<Rightarrow> bool \<Rightarrow> int \<times> u16 option" where
  "perm_set_mode mode new_mode file_uid proc_uid adm =
     (case mode of
        None \<Rightarrow> (-1, None)
      | Some m \<Rightarrow>
          if proc_uid = 0 \<or> adm then (0, Some (new_mode AND 0xFFF))
          else if proc_uid = file_uid then (0, Some (new_mode AND 0xFFF))
          else (-1, Some m))"

subsection \<open>Rules on users and paths\<close>

definition perm_is_sover :: "user_db \<Rightarrow> bool" where
  "perm_is_sover db \<longleftrightarrow> user_get_current_uid db = 0"

definition perm_is_admin :: "user_db \<Rightarrow> bool" where
  "perm_is_admin db =
     (if user_get_current_uid db = 0 then True
      else case user_get_current db of None \<Rightarrow> False | Some i \<Rightarrow> is_admin (users db ! i) \<noteq> 0)"

fun path_starts_with :: "string \<Rightarrow> string \<Rightarrow> bool" where
  "path_starts_with path [] = (path = [] \<or> hd path = CHR ''/'')"
| "path_starts_with [] (c # cs) = False"
| "path_starts_with (p # path) (c # cs) = (if p \<noteq> c then False else path_starts_with path cs)"

definition perm_check_path :: "user_db \<Rightarrow> string option \<Rightarrow> u32 \<Rightarrow> int" where
  "perm_check_path db path required =
     (case path of
        None \<Rightarrow> -1
      | Some p \<Rightarrow>
          if perm_is_sover db then 0
          else if path_starts_with p ''/sys'' \<and> required AND PERM_WRITE \<noteq> 0 then -1
          else if path_starts_with p ''/dev'' \<and> required AND PERM_WRITE \<noteq> 0 \<and> \<not> perm_is_admin db then -1
          else 0)"

definition perm_get_level :: "user_db \<Rightarrow> nat" where
  "perm_get_level db =
     (case user_get_current db of
        None \<Rightarrow> 3
      | Some i \<Rightarrow>
          (let u = users db ! i in
           if uid u = 0 then 0 else if is_admin u \<noteq> 0 then 1 else if uid u = 65534 then 3 else 2))"

definition perm_level_name :: "nat \<Rightarrow> string" where
  "perm_level_name level =
     (if level = 0 then ''Sover'' else if level = 1 then ''Admin'' else if level = 2 then ''User''
      else if level = 3 then ''Nobody'' else ''Unknown'')"

definition perm_denied_reason :: "string option \<Rightarrow> u32 \<Rightarrow> string" where
  "perm_denied_reason path required =
     (let under = (\<lambda>pre. case path of None \<Rightarrow> False | Some p \<Rightarrow> path_starts_with p pre) in
      if under ''/sys'' \<and> required AND PERM_WRITE \<noteq> 0 then ''Permission denied: /sys is read-only (Sover only)''
      else if under ''/dev'' \<and> required AND PERM_WRITE \<noteq> 0
      then ''Permission denied: /dev write access requires Admin or Sover''
      else if required AND PERM_EXEC \<noteq> 0 then ''Permission denied: execute permission required''
      else if required AND PERM_WRITE \<noteq> 0 then ''Permission denied: write permission required''
      else if required AND PERM_READ \<noteq> 0 then ''Permission denied: read permission required''
      else ''Permission denied'')"

definition permission_check_file ::
    "(string \<Rightarrow> (u32 \<times> u32 \<times> u32) option) \<Rightarrow> user_db \<Rightarrow> string option \<Rightarrow> u32 \<Rightarrow> int" where
  "permission_check_file resolve db path required =
     (case path of
        None \<Rightarrow> -1
      | Some p \<Rightarrow>
          if perm_is_sover db then 0
          else if perm_check_path db path required \<noteq> 0 then -1
          else case resolve p of
                 None \<Rightarrow> -1
               | Some (iu, ig, mode) \<Rightarrow>
                   (let (pu, pg) = current_ids db in perm_check iu ig (ucast mode) pu pg required))"

definition permission_check_user :: "user_db \<Rightarrow> u32 \<Rightarrow> int" where
  "permission_check_user db target =
     (case user_get_current db of
        None \<Rightarrow> -1
      | Some i \<Rightarrow>
          (let u = users db ! i in
           if uid u = target then 0 else if uid u = 0 then 0
           else if is_admin u \<noteq> 0 \<and> target \<noteq> 0 then 0 else -1))"

definition permission_check_user_operation :: "user_db \<Rightarrow> u32 \<Rightarrow> bool \<Rightarrow> int" where
  "permission_check_user_operation db target is_admin_op =
     (case user_get_current db of
        None \<Rightarrow> -1
      | Some i \<Rightarrow>
          (let u = users db ! i in
           if uid u = 0 then 0
           else if is_admin_op \<and> is_admin u = 0 then -1
           else if target = 0 \<and> uid u \<noteq> 0 then -1
           else if is_admin u \<noteq> 0 then 0
           else if uid u = target \<and> \<not> is_admin_op then 0 else -1))"

definition permission_can_chmod :: "user_db \<Rightarrow> u32 \<Rightarrow> bool" where
  "permission_can_chmod db file_uid =
     (case user_get_current db of
        None \<Rightarrow> False
      | Some i \<Rightarrow> (let u = users db ! i in uid u = 0 \<or> is_admin u \<noteq> 0 \<or> uid u = file_uid))"

definition permission_can_chown :: "user_db \<Rightarrow> u32 \<Rightarrow> bool" where
  "permission_can_chown db file_uid =
     (case user_get_current db of
        None \<Rightarrow> False | Some i \<Rightarrow> (let u = users db ! i in uid u = 0 \<or> is_admin u \<noteq> 0))"

definition permission_can_create_user :: "user_db \<Rightarrow> bool" where
  "permission_can_create_user db = perm_is_admin db"

definition permission_can_delete_user :: "user_db \<Rightarrow> u32 \<Rightarrow> bool" where
  "permission_can_delete_user db target = (if target = 0 then False else perm_is_admin db)"

definition permission_can_modify_user :: "user_db \<Rightarrow> u32 \<Rightarrow> bool" where
  "permission_can_modify_user db target =
     (case user_get_current db of
        None \<Rightarrow> False
      | Some i \<Rightarrow> (let u = users db ! i in uid u = target \<or> uid u = 0 \<or> is_admin u \<noteq> 0 \<and> target \<noteq> 0))"

subsection \<open>Display\<close>

definition perm_triple :: "u16 \<Rightarrow> u16 \<Rightarrow> u16 \<Rightarrow> u16 \<Rightarrow> u16 \<Rightarrow> char \<Rightarrow> char \<Rightarrow> string" where
  "perm_triple mode r w x special both alone =
     [if mode AND r \<noteq> 0 then CHR ''r'' else CHR ''-'',
      if mode AND w \<noteq> 0 then CHR ''w'' else CHR ''-'',
      if mode AND special \<noteq> 0 then (if mode AND x \<noteq> 0 then both else alone)
      else (if mode AND x \<noteq> 0 then CHR ''x'' else CHR ''-'')]"

definition perm_mode_string :: "u16 \<Rightarrow> int \<Rightarrow> string" where
  "perm_mode_string mode buf_size =
     (if buf_size < 11 then ''----------''
      else (if mode AND 0x4000 \<noteq> 0 then CHR ''d'' else if mode AND 0xA000 \<noteq> 0 then CHR ''l'' else CHR ''-'')
           # perm_triple mode 0x100 0x80 0x40 0x800 (CHR ''s'') (CHR ''S'')
           @ perm_triple mode 0x20 0x10 8 0x400 (CHR ''s'') (CHR ''S'')
           @ perm_triple mode 4 2 1 0x200 (CHR ''t'') (CHR ''T''))"

text \<open>The digit loop, least significant digit first.\<close>

fun digits_rev :: "nat \<Rightarrow> string" where
  "digits_rev v = (if v = 0 then [] else char_of (48 + v mod 10) # digits_rev (v div 10))"

declare digits_rev.simps [simp del]

definition decimal :: "u32 \<Rightarrow> string" where
  "decimal n = (if n = 0 then ''0'' else rev (digits_rev (unat n)))"

text \<open>The name or the number of a user or group; \<open>None\<close> when the digits do not fit into the buffer, whose
  size the numeric branch does not test.\<close>

definition id_string :: "string option \<Rightarrow> u32 \<Rightarrow> int \<Rightarrow> string option" where
  "id_string name n buf_size =
     (if buf_size \<le> 0 then Some ''?''
      else case name of
             Some nm \<Rightarrow> Some (take (nat (buf_size - 1)) nm)
           | None \<Rightarrow> if int (length (decimal n)) < buf_size then Some (decimal n) else None)"

definition perm_uid_to_name :: "user_db \<Rightarrow> u32 \<Rightarrow> int \<Rightarrow> string option" where
  "perm_uid_to_name db n buf_size =
     id_string (map_option (\<lambda>i. username (users db ! i)) (user_find_by_uid db n)) n buf_size"

definition perm_gid_to_name :: "user_db \<Rightarrow> u32 \<Rightarrow> int \<Rightarrow> string option" where
  "perm_gid_to_name db n buf_size =
     id_string (map_option (\<lambda>i. gname (groups db ! i)) (group_find_by_gid db n)) n buf_size"

subsection \<open>Lemmas\<close>

lemma mask_bits16:
  fixes m :: u16
  shows "m AND 1 \<noteq> 0 \<longleftrightarrow> bit m 0" "m AND 2 \<noteq> 0 \<longleftrightarrow> bit m 1" "m AND 4 \<noteq> 0 \<longleftrightarrow> bit m 2" "m AND 8 \<noteq> 0 \<longleftrightarrow> bit m 3"
    "m AND 0x10 \<noteq> 0 \<longleftrightarrow> bit m 4" "m AND 0x20 \<noteq> 0 \<longleftrightarrow> bit m 5" "m AND 0x40 \<noteq> 0 \<longleftrightarrow> bit m 6" "m AND 0x80 \<noteq> 0 \<longleftrightarrow> bit m 7"
    "m AND 0x100 \<noteq> 0 \<longleftrightarrow> bit m 8" "m AND 0x200 \<noteq> 0 \<longleftrightarrow> bit m 9" "m AND 0x400 \<noteq> 0 \<longleftrightarrow> bit m 10" "m AND 0x800 \<noteq> 0 \<longleftrightarrow> bit m 11"
  using test_bit_mask [of 0 m] test_bit_mask [of 1 m] test_bit_mask [of 2 m] test_bit_mask [of 3 m]
    test_bit_mask [of 4 m] test_bit_mask [of 5 m] test_bit_mask [of 6 m] test_bit_mask [of 7 m]
    test_bit_mask [of 8 m] test_bit_mask [of 9 m] test_bit_mask [of 10 m] test_bit_mask [of 11 m]
  by simp_all

lemma perm_triple_eq_iff:
  assumes "distinct [CHR ''x'', CHR ''-'', both, alone]"
  shows "perm_triple m r w x sp both alone = perm_triple m' r w x sp both alone \<longleftrightarrow>
    (m AND r \<noteq> 0 \<longleftrightarrow> m' AND r \<noteq> 0) \<and> (m AND w \<noteq> 0 \<longleftrightarrow> m' AND w \<noteq> 0) \<and>
    (m AND x \<noteq> 0 \<longleftrightarrow> m' AND x \<noteq> 0) \<and> (m AND sp \<noteq> 0 \<longleftrightarrow> m' AND sp \<noteq> 0)"
  using assms by (auto simp: perm_triple_def split: if_splits)

lemma low_bits_eq_iff:
  fixes m m' :: u16
  shows "m AND 0xFFF = m' AND 0xFFF \<longleftrightarrow> (\<forall>n < 12. bit m n = bit m' n)"
proof -
  have e: "(0xFFF :: u16) = mask 12" by (simp add: mask_eq_exp_minus_1)
  have b: "bit (x AND mask 12) n \<longleftrightarrow> n < 12 \<and> bit x n" for x :: u16 and n
    by (auto simp: bit_simps)
  show ?thesis unfolding e
  proof
    assume "m AND mask 12 = m' AND mask 12"
    then have "bit (m AND mask 12) n = bit (m' AND mask 12) n" for n by simp
    then show "\<forall>n < 12. bit m n = bit m' n" unfolding b by blast
  next
    assume "\<forall>n < 12. bit m n = bit m' n"
    then show "m AND mask 12 = m' AND mask 12" by (intro bit_word_eqI) (auto simp: b)
  qed
qed

lemma all_less_12:
  "(\<forall>n < 12. P n) \<longleftrightarrow> P 0 \<and> P 1 \<and> P 2 \<and> P 3 \<and> P 4 \<and> P 5 \<and> P 6 \<and> P 7 \<and> P 8 \<and> P 9 \<and> P 10 \<and> P (11 :: nat)"
proof -
  have "(\<forall>n < 12. P n) \<longleftrightarrow> list_all P [0..<12]" by (auto simp: list_all_iff)
  then show ?thesis by (simp add: upt_rec numeral_eq_Suc)
qed

lemma length_perm_triple [simp]: "length (perm_triple m r w x sp b a) = 3"
  by (simp add: perm_triple_def)

subsection \<open>Properties\<close>

text \<open>C36: the symbolic mode shows every permission bit. Two modes print the same nine permission letters
  exactly when they agree on the twelve permission bits, set-user-id, set-group-id and sticky bit
  included.\<close>
theorem mode_string_faithful:
  assumes "11 \<le> n"
  shows "tl (perm_mode_string m n) = tl (perm_mode_string m' n) \<longleftrightarrow> m AND 0xFFF = m' AND 0xFFF"
proof -
  have d: "distinct [CHR ''x'', CHR ''-'', CHR ''s'', CHR ''S'']" "distinct [CHR ''x'', CHR ''-'', CHR ''t'', CHR ''T'']"
    by simp_all
  have "tl (perm_mode_string m n) = tl (perm_mode_string m' n) \<longleftrightarrow>
      perm_triple m 0x100 0x80 0x40 0x800 (CHR ''s'') (CHR ''S'') = perm_triple m' 0x100 0x80 0x40 0x800 (CHR ''s'') (CHR ''S'') \<and>
      perm_triple m 0x20 0x10 8 0x400 (CHR ''s'') (CHR ''S'') = perm_triple m' 0x20 0x10 8 0x400 (CHR ''s'') (CHR ''S'') \<and>
      perm_triple m 4 2 1 0x200 (CHR ''t'') (CHR ''T'') = perm_triple m' 4 2 1 0x200 (CHR ''t'') (CHR ''T'')"
    using assms by (simp add: perm_mode_string_def)
  then show ?thesis
    unfolding perm_triple_eq_iff [OF d(1)] perm_triple_eq_iff [OF d(2)] mask_bits16 low_bits_eq_iff all_less_12
    by argo
qed

theorem mode_string_faithful_witness: "tl (perm_mode_string 0x81ED 11) \<noteq> tl (perm_mode_string 0x89ED 11)"
  using mode_string_faithful [of 11 "0x81ED" "0x89ED"] by simp

text \<open>a regular file prints as a symbolic link: the mask for links, octal 120000, shares a bit with
  the type of a regular file, octal 100000.\<close>
theorem regular_file_shown_as_link:
  assumes "mode AND 0xF000 = 0x8000" and "11 \<le> n"
  shows "hd (perm_mode_string mode n) = CHR ''l''"
proof -
  have "bit (mode AND 0xF000) k = bit (0x8000 :: u16) k" for k using assms(1) by simp
  from this [of 14] this [of 15] have "\<not> bit mode 14" "bit mode 15" by (simp_all add: bit_simps)
  then have "mode AND 0x4000 = 0" "bit (mode AND 0xA000) 15"
    using test_bit_mask [of 14 mode] by (simp_all add: bit_simps)
  moreover from this(2) have "mode AND 0xA000 \<noteq> 0" by (metis bit_0_eq bot_apply bot_bool_def)
  ultimately show ?thesis using assms(2) by (simp add: perm_mode_string_def)
qed

theorem regular_file_shown_as_link_witness: "perm_mode_string 0x81A4 11 = ''lrw-r--r--''"
proof -
  have "hd (perm_mode_string 0x81A4 11) = CHR ''l''" by (rule regular_file_shown_as_link) simp_all
  then show ?thesis by (simp add: perm_mode_string_def perm_triple_def)
qed

text \<open>the write protection of \<open>/sys\<close> depends on the spelling of the path. For everyone but the user 0
  a write below \<open>/sys/\<close> is refused whatever the file's mode; the same file reached through \<open>//sys/\<close>
  is decided by its mode bits alone.\<close>
theorem sys_guard_by_spelling:
  assumes "current_uid db \<noteq> 0" and "required AND PERM_WRITE \<noteq> 0"
    and "resolve (''//sys/'' @ r) = Some (iu, ig, mode)" and "current_ids db = (pu, pg)"
  shows "permission_check_file resolve db (Some (''/sys/'' @ r)) required = -1 \<and>
    permission_check_file resolve db (Some (''//sys/'' @ r)) required = perm_check iu ig (ucast mode) pu pg required"
  using assms by (simp add: permission_check_file_def perm_check_path_def perm_is_sover_def user_get_current_uid_def)

theorem sys_guard_by_spelling_witness:
  "permission_check_file (\<lambda>_. Some (1000, 100, 0x1B6)) (demo_db\<lparr>current_uid := 1000\<rparr>) (Some ''//sys/power'') PERM_WRITE = 0"
proof -
  have ids: "current_ids (demo_db\<lparr>current_uid := 1000\<rparr>) = (1000, 100)"
    by (simp add: current_ids_def user_get_current_def user_find_by_uid_def demo_db_def new_user_def)
  have "current_uid (demo_db\<lparr>current_uid := 1000\<rparr>) \<noteq> 0" "PERM_WRITE AND PERM_WRITE \<noteq> 0" by simp_all
  from sys_guard_by_spelling [OF this _ ids, of "\<lambda>_. Some (1000, 100, 0x1B6)" "''power''" 1000 100 "0x1B6"] show ?thesis
    by (simp add: perm_check_def)
qed

end
