(* ===== verification/Authz.thy ===== *)
theory Authz
  imports Capability Permission
begin

text \<open>
  The layered authorization decision: mandatory access control labels (\<open>kernel/mac_label.c\<close>), the chain of
  security modules (\<open>kernel/security_hook.c\<close>) and the function that combines them with mode bits and
  capabilities (\<open>kernel/authz.c\<close>). The handlers of a security module are functions of its record; a
  pointer that may be NULL is an option.
\<close>

subsection \<open>Labels\<close>

record mac_label =
  lname :: string
  sensitivity :: u32
  categories :: u32

record mac_class =
  subjects :: "mac_label list"
  objects :: "mac_label list"

text \<open>The classes in use; each lists its labels in use.\<close>

record mac_policy =
  classes :: "mac_class list"
  denied :: u64
  granted :: u64

definition mac_label_init_static :: "string \<Rightarrow> u32 \<Rightarrow> u32 \<Rightarrow> mac_label" where
  "mac_label_init_static nm sens cats = \<lparr>lname = take 32 nm, sensitivity = sens, categories = cats\<rparr>"

definition mac_init :: mac_policy where
  "mac_init = \<lparr>classes = [], denied = 0, granted = 0\<rparr>"

definition mac_add_label :: "mac_policy option \<Rightarrow> string option \<Rightarrow> u32 \<Rightarrow> u32 \<Rightarrow> int \<times> mac_policy option" where
  "mac_add_label pol name sens cats =
     (case (pol, name) of
        (Some p, Some nm) \<Rightarrow>
          (let l = mac_label_init_static nm sens cats; fresh = \<lparr>subjects = [l], objects = [l]\<rparr> in
           if classes p = [] then (0, Some (p\<lparr>classes := [fresh]\<rparr>))
           else let c = last (classes p) in
                if length (subjects c) < 8
                then (0, Some (p\<lparr>classes := butlast (classes p) @
                        [\<lparr>subjects = subjects c @ [l],
                          objects = (if length (objects c) < 8 then objects c @ [l] else objects c)\<rparr>]\<rparr>))
                else if length (classes p) \<ge> 16 then (-1, Some p)
                else (0, Some (p\<lparr>classes := classes p @ [fresh]\<rparr>)))
      | _ \<Rightarrow> (-1, pol))"


definition mac_label_dominates :: "mac_label option \<Rightarrow> mac_label option \<Rightarrow> bool" where
  "mac_label_dominates a b =
     (case (a, b) of
        (Some x, Some y) \<Rightarrow>
          if sensitivity x < sensitivity y then False
          else if categories x AND categories y \<noteq> categories y then False
          else True
      | _ \<Rightarrow> False)"

text \<open>The verdict of a check with the counter it bumps.\<close>

definition mac_verdict :: "mac_policy \<Rightarrow> bool \<Rightarrow> bool \<times> mac_policy option" where
  "mac_verdict p allowed =
     (if allowed then (True, Some (p\<lparr>granted := granted p + 1\<rparr>)) else (False, Some (p\<lparr>denied := denied p + 1\<rparr>)))"



definition mac_check_access :: "mac_policy option \<Rightarrow> mac_label option \<Rightarrow> mac_label option \<Rightarrow> bool \<times> mac_policy option" where
  "mac_check_access pol s obj =
     (case (pol, s, obj) of
        (Some p, Some _, Some _) \<Rightarrow> mac_verdict p (mac_label_dominates s obj)
      | _ \<Rightarrow> (False, pol))"

subsection \<open>Security modules\<close>

text \<open>
  A module with its address and the handlers the framework calls; \<open>'i\<close> stands for what a \<open>void *\<close> inode
  points to, \<open>'t\<close> for a task. \<open>g_first\<close> is the list of registered modules.
\<close>

record ('i, 't) lsm_module =
  maddr :: u32
  mname :: "string option"
  enabled :: bool
  inode_permission :: "('i \<Rightarrow> u32 \<Rightarrow> u32 \<Rightarrow> int) option"
  task_alloc :: "('t \<Rightarrow> cred option \<Rightarrow> int) option"
  task_free :: "('t \<Rightarrow> int) option"
  mount :: "(string option \<Rightarrow> string option \<Rightarrow> int) option"
  cap_check :: "(cred option \<Rightarrow> int \<Rightarrow> int \<Rightarrow> int) option"

abbreviation "LSM_DENY \<equiv> -1 :: int"
abbreviation "LSM_GRANT \<equiv> 0 :: int"

definition find_module :: "('i, 't) lsm_module list \<Rightarrow> string \<Rightarrow> nat option" where
  "find_module ms nm = find_index (\<lambda>m. mname m = Some nm) ms"

definition lsm_register :: "('i, 't) lsm_module list \<Rightarrow> ('i, 't) lsm_module option \<Rightarrow> int \<times> ('i, 't) lsm_module list" where
  "lsm_register ms m =
     (case m of
        None \<Rightarrow> (-1, ms)
      | Some x \<Rightarrow>
          (case mname x of
             None \<Rightarrow> (-1, ms)
           | Some nm \<Rightarrow> if find_module ms nm \<noteq> None then (-1, ms) else (0, x # ms)))"

definition lsm_unregister :: "('i, 't) lsm_module list \<Rightarrow> u32 \<Rightarrow> int \<times> ('i, 't) lsm_module list" where
  "lsm_unregister ms a =
     (case find_index (\<lambda>m. maddr m = a) ms of None \<Rightarrow> (-1, ms) | Some i \<Rightarrow> (0, remove_nth i ms))"

definition lsm_set_enabled :: "bool \<Rightarrow> ('i, 't) lsm_module list \<Rightarrow> string \<Rightarrow> int \<times> ('i, 't) lsm_module list" where
  "lsm_set_enabled e ms nm =
     (case find_module ms nm of None \<Rightarrow> (-1, ms) | Some i \<Rightarrow> (0, ms[i := (ms ! i)\<lparr>enabled := e\<rparr>]))"

definition lsm_enable :: "('i, 't) lsm_module list \<Rightarrow> string \<Rightarrow> int \<times> ('i, 't) lsm_module list" where
  "lsm_enable = lsm_set_enabled True"

definition lsm_disable :: "('i, 't) lsm_module list \<Rightarrow> string \<Rightarrow> int \<times> ('i, 't) lsm_module list" where
  "lsm_disable = lsm_set_enabled False"

text \<open>The loop of the hooks: every enabled module with a handler is asked, one denial decides.\<close>

definition lsm_run :: "(('i, 't) lsm_module \<Rightarrow> int option) \<Rightarrow> ('i, 't) lsm_module list \<Rightarrow> int" where
  "lsm_run ask ms =
     foldl (\<lambda>decision m. if enabled m
                         then (case ask m of None \<Rightarrow> decision | Some d \<Rightarrow> if d = LSM_DENY then LSM_DENY else decision)
                         else decision) LSM_GRANT ms"

definition lsm_inode_permission_run :: "('i, 't) lsm_module list \<Rightarrow> 'i \<Rightarrow> u32 \<Rightarrow> u32 \<Rightarrow> int" where
  "lsm_inode_permission_run ms inode u req = lsm_run (\<lambda>m. map_option (\<lambda>h. h inode u req) (inode_permission m)) ms"

definition lsm_task_alloc_run :: "('i, 't) lsm_module list \<Rightarrow> 't \<Rightarrow> cred option \<Rightarrow> int" where
  "lsm_task_alloc_run ms task cr = lsm_run (\<lambda>m. map_option (\<lambda>h. h task cr) (task_alloc m)) ms"

text \<open>The results of the free handlers are discarded.\<close>

definition lsm_task_free_run :: "('i, 't) lsm_module list \<Rightarrow> 't \<Rightarrow> int" where
  "lsm_task_free_run ms task = LSM_GRANT"

definition lsm_cap_check_run :: "('i, 't) lsm_module list \<Rightarrow> cred option \<Rightarrow> int \<Rightarrow> int \<Rightarrow> int" where
  "lsm_cap_check_run ms cr c eff = lsm_run (\<lambda>m. map_option (\<lambda>h. h cr c eff) (cap_check m)) ms"

definition lsm_mount_run :: "('i, 't) lsm_module list \<Rightarrow> string option \<Rightarrow> string option \<Rightarrow> int" where
  "lsm_mount_run ms src target = lsm_run (\<lambda>m. map_option (\<lambda>h. h src target) (mount m)) ms"

subsection \<open>The combined decision\<close>

record authz_request =
  rcred :: "cred option"
  mac_subj :: "mac_label option"
  file_uid :: u32
  file_gid :: u32
  file_mode :: u16
  mac_obj :: "mac_label option"
  rpath :: "string option"
  cap_required :: int
  require_effective :: bool

text \<open>An audit record: the path, the user, the mode and the decision.\<close>

type_synonym audit = "string \<times> u32 \<times> u16 \<times> int"

definition authz_audit_log :: "authz_request \<Rightarrow> int \<Rightarrow> audit list" where
  "authz_audit_log r decision =
     (case rpath r of
        None \<Rightarrow> []
      | Some p \<Rightarrow> [(p, case rcred r of None \<Rightarrow> 0 | Some c \<Rightarrow> cuid c, file_mode r, decision)])"

definition authz_check_file :: "(authz_request, 't) lsm_module list \<Rightarrow> authz_request option \<Rightarrow> int \<times> audit list" where
  "authz_check_file ms req =
     (case req of
        None \<Rightarrow> (-1, [])
      | Some r \<Rightarrow>
          (case rcred r of
             None \<Rightarrow> (-1, [])
           | Some c \<Rightarrow>
               (let deny = (-1, authz_audit_log r (-1)); want = ucast (file_mode r AND 7) :: u32 in
                if cap_required r \<ge> 0 \<and> require_effective r \<and> cap_test_effective (Some c) (cap_required r) = 0 then deny
                else if perm_check (file_uid r) (file_gid r) (file_mode r) (cuid c) (cgid c) want \<noteq> 0 then deny
                else if mac_subj r \<noteq> None \<and> mac_obj r \<noteq> None \<and> \<not> fst (mac_check_access None (mac_subj r) (mac_obj r))
                then deny
                else if lsm_inode_permission_run ms r (cuid c) want \<noteq> 0 then deny
                else (0, authz_audit_log r 0))))"

definition authz_check_cap :: "(authz_request, 't) lsm_module list \<Rightarrow> cred option \<Rightarrow> int \<Rightarrow> int" where
  "authz_check_cap ms cr c =
     (if cr = None \<or> c < 0 then -1
      else if cap_test_effective cr c \<noteq> 0 then 0
      else if lsm_cap_check_run ms cr c 1 \<noteq> 0 then -1
      else -1)"

definition authz_check_kill :: "cred option \<Rightarrow> int" where
  "authz_check_kill cr = (if cr = None then -1 else if cap_test_effective cr CAP_KILL \<noteq> 0 then 0 else -1)"

definition authz_check_mount :: "(authz_request, 't) lsm_module list \<Rightarrow> cred option \<Rightarrow> string option \<Rightarrow> int" where
  "authz_check_mount ms cr target =
     (if cr = None then -1
      else if cap_test_effective cr CAP_SYS_ADMIN \<noteq> 0 then 0
      else if lsm_mount_run ms target target \<noteq> 0 then -1
      else -1)"

definition authz_check_bpf :: "cred option \<Rightarrow> int" where
  "authz_check_bpf cr = (if cr = None then -1 else if cap_test_effective cr CAP_BPF \<noteq> 0 then 0 else -1)"

definition request :: "cred option \<Rightarrow> string option \<Rightarrow> u32 \<Rightarrow> u16 \<Rightarrow> int \<Rightarrow> authz_request" where
  "request cr path fu mode c =
     \<lparr>rcred = cr, mac_subj = None, file_uid = fu, file_gid = 0, file_mode = mode, mac_obj = None, rpath = path,
      cap_required = c, require_effective = False\<rparr>"

definition authz_may_read ::
    "(authz_request, 't) lsm_module list \<Rightarrow> cred option \<Rightarrow> string option \<Rightarrow> u32 \<Rightarrow> u16 \<Rightarrow> int \<times> audit list" where
  "authz_may_read ms cr path fu mode = authz_check_file ms (Some (request cr path fu mode CAP_DAC_READ_SEARCH))"

definition authz_may_write ::
    "(authz_request, 't) lsm_module list \<Rightarrow> cred option \<Rightarrow> string option \<Rightarrow> u32 \<Rightarrow> u16 \<Rightarrow> int \<times> audit list" where
  "authz_may_write ms cr path fu mode = authz_check_file ms (Some (request cr path fu mode CAP_DAC_OVERRIDE))"

definition authz_may_exec ::
    "(authz_request, 't) lsm_module list \<Rightarrow> cred option \<Rightarrow> string option \<Rightarrow> u32 \<Rightarrow> u16 \<Rightarrow> int \<times> audit list" where
  "authz_may_exec ms cr path fu mode = authz_check_file ms (Some (request cr path fu mode (-1)))"

subsection \<open>Lemmas\<close>

lemma dominates_iff:
  "mac_label_dominates (Some x) (Some y) \<longleftrightarrow>
     sensitivity y \<le> sensitivity x \<and> (\<forall>n. bit (categories y) n \<longrightarrow> bit (categories x) n)"
  using AND_subset_iff [of "categories y" "categories x"]
  by (auto simp: mac_label_dominates_def not_less and.commute)

lemma dominates_refl: "mac_label_dominates (Some x) (Some x)"
  by (simp add: dominates_iff)





lemma lsm_run_spec:
  "lsm_run ask ms = (if \<exists>m \<in> set ms. enabled m \<and> ask m = Some LSM_DENY then LSM_DENY else LSM_GRANT)"
proof -
  let ?f = "\<lambda>decision m. if enabled m
     then (case ask m of None \<Rightarrow> decision | Some d \<Rightarrow> if d = LSM_DENY then LSM_DENY else decision) else decision"
  have "foldl ?f d ms = (if \<exists>m \<in> set ms. enabled m \<and> ask m = Some LSM_DENY then LSM_DENY else d)" for d
    by (induction ms arbitrary: d) (auto split: option.splits)
  then show ?thesis by (simp add: lsm_run_def)
qed

text \<open>The mode bits of the class others are asked for themselves.\<close>

lemma perm_check_own_bits:
  assumes "u \<noteq> fu" and "g \<noteq> fg"
  shows "perm_check fu fg mode u g (ucast (mode AND 7)) = 0"
  using assms by (simp add: perm_check_def Let_def)

subsection \<open>A sequence of reads and writes under the labels\<close>








subsection \<open>Properties\<close>


text \<open>a request with labels is never granted. The file check hands a NULL policy to the label
  check, which then refuses, whatever the labels, the credential and the modules.\<close>
theorem authz_labels_always_denied:
  assumes "mac_subj r = Some s" and "mac_obj r = Some x"
  shows "fst (authz_check_file ms (Some r)) = -1"
  using assms by (simp add: authz_check_file_def mac_check_access_def Let_def split: option.split)

definition demo_label :: mac_label where
  "demo_label = mac_label_init_static ''user'' 1 1"

theorem authz_labels_always_denied_witness:
  "mac_label_dominates (Some demo_label) (Some demo_label) \<and>
   fst (authz_check_file ([] :: (authz_request, nat) lsm_module list)
     (Some ((request (Some (cred_init 0 0)) None 0 0x1FF (-1))\<lparr>mac_subj := Some demo_label, mac_obj := Some demo_label\<rparr>))) = -1"
  by (intro conjI dominates_refl authz_labels_always_denied [where s = demo_label and x = demo_label]) simp_all

text \<open>the write check grants everybody else's files. The requested access is taken from the mode of the
  file instead of the operation, so for a user who is neither the owner nor in group 0 the mode bits of
  the class others are compared with themselves: without security modules the answer is yes for every
  mode, also for a file that only its owner may touch.\<close>
theorem authz_may_write_everything:
  assumes "cuid c \<noteq> fu" and "cgid c \<noteq> 0"
  shows "fst (authz_may_write [] (Some c) path fu mode) = 0"
  using assms
  by (simp add: authz_may_write_def authz_check_file_def request_def perm_check_own_bits Let_def
      lsm_inode_permission_run_def lsm_run_spec)

theorem authz_may_write_everything_witness:
  "fst (authz_may_write ([] :: (authz_request, nat) lsm_module list) (Some (cred_init 1000 100)) (Some ''/etc/shadow'') 0 0x180) = 0 \<and>
   perm_check_write 0x180 0 0 1000 100 = -1"
proof -
  have "cuid (cred_init 1000 100) \<noteq> 0" "cgid (cred_init 1000 100) \<noteq> 0"
    by (simp_all add: cred_init_def cap_init_user_def)
  from authz_may_write_everything [OF this] show ?thesis
    by (simp add: perm_check_write_def perm_check_def)
qed

end
