(* ===== verification/Path.thy ===== *)
theory Path
  imports Prelude
begin

text \<open>
  Path names, \<open>fs/path.c\<close>: normalisation, parent, base name and join on C strings, the path of a directory
  entry, and the walk that resolves a path across mount points and symbolic links. C strings are lists
  of characters without the closing NUL. The result of a routine that fills a buffer of \<open>sz\<close> bytes is
  \<open>Ok\<close> with the string, \<open>Err\<close> for the return value -1, or \<open>Fault\<close> for an access outside an array or to
  an unmapped address. Directory entries live at addresses; 0 is NULL.
\<close>

datatype 'a res = Ok 'a | Err | Fault

fun bind_res :: "'a res \<Rightarrow> ('a \<Rightarrow> 'b res) \<Rightarrow> 'b res" where
  "bind_res (Ok x) f = f x"
| "bind_res Err f = Err"
| "bind_res Fault f = Fault"

abbreviation slash :: char where
  "slash \<equiv> CHR ''/''"

abbreviation "PATH_MAX \<equiv> 4096 :: nat"
abbreviation "SYMLINK_MAX_FOLLOW \<equiv> 8 :: nat"

subsection \<open>Strings\<close>

text \<open>The components between runs of slashes.\<close>

function comps :: "string \<Rightarrow> string list" where
  "comps s =
     (let t = dropWhile (\<lambda>c. c = slash) s in
      if t = [] then [] else takeWhile (\<lambda>c. c \<noteq> slash) t # comps (dropWhile (\<lambda>c. c \<noteq> slash) t))"
  by pat_completeness auto

lemma comps_decreases:
  assumes "dropWhile (\<lambda>c. c = slash) s \<noteq> []"
  shows "length (dropWhile (\<lambda>c. c \<noteq> slash) (dropWhile (\<lambda>c. c = slash) s)) < length s"
proof -
  let ?t = "dropWhile (\<lambda>c. c = slash) s"
  have "hd ?t \<noteq> slash" using hd_dropWhile [OF assms] by simp
  then obtain c u where t: "?t = c # u" "c \<noteq> slash" using assms by (cases ?t) auto
  then have "length (dropWhile (\<lambda>c. c \<noteq> slash) ?t) \<le> length u" by (simp add: length_dropWhile_le)
  moreover have "length ?t \<le> length s" by (rule length_dropWhile_le)
  ultimately show ?thesis using t by simp
qed

termination comps
  by (relation "measure length") (simp_all add: comps_decreases)

declare comps.simps [simp del]

text \<open>One component: skipped, taken back, or pushed; the arrays have room for half of \<open>PATH_MAX\<close>.\<close>

definition push_comp :: "string list \<Rightarrow> string \<Rightarrow> string list option" where
  "push_comp cs c =
     (if c = ''.'' then Some cs
      else if c = ''..'' then Some (butlast cs)
      else if length cs < PATH_MAX div 2 then Some (cs @ [c]) else None)"

text \<open>Appending to the buffer while there is room for the closing NUL.\<close>

fun emit :: "nat \<Rightarrow> string \<Rightarrow> string \<Rightarrow> string res" where
  "emit sz out [] = Ok out"
| "emit sz out (c # cs) = (if length out + 1 \<ge> sz then Err else emit sz (out @ [c]) cs)"

fun emit_comps :: "nat \<Rightarrow> bool \<Rightarrow> string \<Rightarrow> string list \<Rightarrow> string res" where
  "emit_comps sz first out [] = Ok out"
| "emit_comps sz first out (c # cs) =
     bind_res (emit sz out (if first then c else slash # c)) (\<lambda>out'. emit_comps sz False out' cs)"

definition path_normalize :: "string \<Rightarrow> nat \<Rightarrow> string res" where
  "path_normalize path sz =
     (if sz = 0 then Err
      else let is_abs = (path \<noteq> [] \<and> hd path = slash) in
           case fold_opt push_comp [] (comps path) of
             None \<Rightarrow> Fault
           | Some cs \<Rightarrow>
               bind_res (emit_comps sz True (if is_abs then [slash] else []) cs)
                 (\<lambda>out. let out' = (if out = [] then ''.'' else out) in
                        if length out' < sz then Ok out' else Fault))"

definition strip_right :: "string \<Rightarrow> string" where
  "strip_right p = rev (dropWhile (\<lambda>c. c = slash) (rev p))"

definition root_or_err :: "nat \<Rightarrow> string res" where
  "root_or_err sz = (if sz < 2 then Err else Ok [slash])"

definition path_parent :: "string \<Rightarrow> nat \<Rightarrow> string res" where
  "path_parent path sz =
     (if sz = 0 then Err
      else let p1 = strip_right path in
           if p1 = [] then root_or_err sz
           else let p2 = strip_right (rev (dropWhile (\<lambda>c. c \<noteq> slash) (rev p1))) in
                if p2 = [] then root_or_err sz
                else if length p2 \<ge> sz then Err else Ok p2)"

definition path_basename :: "string \<Rightarrow> nat \<Rightarrow> string res" where
  "path_basename path sz =
     (if sz = 0 then Err
      else let p1 = strip_right path in
           if p1 = [] then root_or_err sz
           else let b = rev (takeWhile (\<lambda>c. c \<noteq> slash) (rev p1)) in
                if length b \<ge> sz then Err else Ok b)"

definition path_join :: "string \<Rightarrow> string \<Rightarrow> nat \<Rightarrow> string res" where
  "path_join dir name sz =
     (if sz = 0 then Err
      else let d = strip_right dir; n = dropWhile (\<lambda>c. c = slash) name in
           if length d + 1 + length n + 1 > sz then Err else Ok (d @ slash # n))"

subsection \<open>Directory entries\<close>

text \<open>The operations of an inode are function pointers: \<open>lookup\<close> returns the address of an entry or 0,
  \<open>readlink\<close> the target, or \<open>None\<close> for a negative result.\<close>

record inode =
  imode :: u32
  ilookup :: "(u32 \<Rightarrow> string \<Rightarrow> u32) option"
  ireadlink :: "(u32 \<Rightarrow> string option) option"

record dentry =
  dname :: string
  dparent :: u32
  dchild :: u32
  dsibling :: u32
  dinode :: "inode option"
  mount_point :: bool

record vfs =
  dentries :: "u32 \<Rightarrow> dentry option"
  root_dentry :: u32
  cwd_dentry :: u32
  mount_list :: "(u32 \<times> u32) list"

text \<open>The names from an entry up to the root; the loop does not end on a cycle of parents.\<close>

partial_function (option) ancestors :: "vfs \<Rightarrow> u32 \<Rightarrow> string list res option" where
  "ancestors fs p =
     (if p = 0 \<or> p = root_dentry fs then Some (Ok [])
      else case dentries fs p of
             None \<Rightarrow> Some Fault
           | Some d \<Rightarrow>
               Option.bind (ancestors fs (dparent d)) (\<lambda>r. Some (bind_res r (\<lambda>ns. Ok (dname d # ns)))))"

fun join_names :: "string list \<Rightarrow> string" where
  "join_names [] = []"
| "join_names [n] = n"
| "join_names (n # ns) = n @ slash # join_names ns"

text \<open>A character array read as a C string.\<close>

definition cstr :: "string \<Rightarrow> string" where
  "cstr s = takeWhile (\<lambda>c. c \<noteq> CHR 0x00) s"

text \<open>The names are written from the end of the buffer; its first byte, \<open>junk\<close>, stays as it was.\<close>

definition dentry_path :: "vfs \<Rightarrow> char \<Rightarrow> u32 \<Rightarrow> nat \<Rightarrow> string res option" where
  "dentry_path fs junk d sz =
     (if d = 0 \<or> sz = 0 then Some Err
      else if d = root_dentry fs then Some (root_or_err sz)
      else case ancestors fs d of
             None \<Rightarrow> None
           | Some r \<Rightarrow>
               Some (bind_res r (\<lambda>ns.
                 if 1 + (\<Sum>n\<leftarrow>ns. length n + 1) > sz then Err else Ok (cstr (junk # join_names (rev ns))))))"

subsection \<open>Resolution\<close>

definition cross_mount :: "vfs \<Rightarrow> dentry \<Rightarrow> u32 \<Rightarrow> u32" where
  "cross_mount fs d cur =
     (if mount_point d
      then (case find (\<lambda>m. fst m = cur) (mount_list fs) of Some m \<Rightarrow> snd m | None \<Rightarrow> cur) else cur)"

text \<open>The search among the children, at most \<open>n\<close> of them; 0 when none has the name.\<close>

fun search_children :: "vfs \<Rightarrow> nat \<Rightarrow> u32 \<Rightarrow> string \<Rightarrow> u32 res" where
  "search_children fs 0 child name = Ok 0"
| "search_children fs (Suc n) child name =
     (if child = 0 \<or> child < 0xC0000000 then Ok 0
      else case dentries fs child of
             None \<Rightarrow> Fault
           | Some d \<Rightarrow> if dname d = name then Ok child else search_children fs n (dsibling d) name)"

definition find_child :: "vfs \<Rightarrow> u32 \<Rightarrow> string \<Rightarrow> u32 res" where
  "find_child fs cur name =
     (case dentries fs cur of
        None \<Rightarrow> Fault
      | Some d \<Rightarrow>
          bind_res (search_children fs 512 (dchild d) name)
            (\<lambda>f. if f \<noteq> 0 then Ok f
                 else case dinode d of
                        None \<Rightarrow> Ok 0
                      | Some i \<Rightarrow> (case ilookup i of None \<Rightarrow> Ok 0 | Some lookup \<Rightarrow> Ok (lookup cur name))))"

text \<open>The path to go on with after a link at \<open>f\<close>: its target and the rest of the old path.\<close>

definition link_path :: "vfs \<Rightarrow> char \<Rightarrow> u32 \<Rightarrow> string \<Rightarrow> string \<Rightarrow> string res option" where
  "link_path fs junk parent target rest =
     (if target \<noteq> [] \<and> hd target = slash
      then Some (bind_res (path_join target rest PATH_MAX) (\<lambda>c. path_normalize c PATH_MAX))
      else case dentry_path fs junk (if parent \<noteq> 0 then parent else root_dentry fs) PATH_MAX of
             None \<Rightarrow> None
           | Some pr \<Rightarrow>
               Some (bind_res pr (\<lambda>pp. bind_res (path_join pp target PATH_MAX) (\<lambda>c.
                 bind_res (if rest \<noteq> [] then path_join c rest PATH_MAX else Ok c) (\<lambda>c'. path_normalize c' PATH_MAX)))))"

definition finish_walk :: "vfs \<Rightarrow> u32 \<Rightarrow> u32 res" where
  "finish_walk fs cur = (case dentries fs cur of None \<Rightarrow> Fault | Some d \<Rightarrow> Ok (cross_mount fs d cur))"

definition start_at :: "vfs \<Rightarrow> string \<Rightarrow> u32 \<times> string" where
  "start_at fs work =
     (if work \<noteq> [] \<and> hd work = slash then (root_dentry fs, tl work)
      else (if cwd_dentry fs \<noteq> 0 then cwd_dentry fs else root_dentry fs, work))"

text \<open>
  The walk from entry \<open>cur\<close> along \<open>s\<close> after \<open>depth\<close> links. The restart at a link is a new walk from
  the start of the new path. \<open>junk\<close> gives the stack byte under the path buffer at each link.
\<close>

partial_function (option) walk :: "vfs \<Rightarrow> (nat \<Rightarrow> char) \<Rightarrow> bool \<Rightarrow> nat \<Rightarrow> u32 \<Rightarrow> string \<Rightarrow> u32 res option" where
  "walk fs junk follow depth cur s =
     (let t = dropWhile (\<lambda>c. c = slash) s;
          name = takeWhile (\<lambda>c. c \<noteq> slash) t; rest = dropWhile (\<lambda>c. c \<noteq> slash) t in
      if t = [] then Some (finish_walk fs cur)
      else if length name \<ge> 256 then Some Err
      else case bind_res (finish_walk fs cur) (\<lambda>c. find_child fs c name) of
             Err \<Rightarrow> Some Err
           | Fault \<Rightarrow> Some Fault
           | Ok f \<Rightarrow>
               if f = 0 then Some Err
               else case dentries fs f of
                      None \<Rightarrow> Some Fault
                    | Some fd \<Rightarrow>
                        (case dinode fd of
                           None \<Rightarrow> walk fs junk follow depth f rest
                         | Some i \<Rightarrow>
                             if imode i AND 0x20 = 0 then walk fs junk follow depth f rest
                             else if rest = [] \<and> \<not> follow then Some (finish_walk fs f)
                             else if depth \<ge> SYMLINK_MAX_FOLLOW then Some Err
                             else case ireadlink i of
                                    None \<Rightarrow> Some Err
                                  | Some readlink \<Rightarrow>
                                      (case readlink f of
                                         None \<Rightarrow> Some Err
                                       | Some target \<Rightarrow>
                                           (case link_path fs (junk depth) (dparent fd) target rest of
                                              None \<Rightarrow> None
                                            | Some (Ok work) \<Rightarrow>
                                                walk fs junk follow (depth + 1) (fst (start_at fs work)) (snd (start_at fs work))
                                            | Some Err \<Rightarrow> Some Err
                                            | Some Fault \<Rightarrow> Some Fault))))"

definition path_resolve_internal :: "vfs \<Rightarrow> (nat \<Rightarrow> char) \<Rightarrow> string \<Rightarrow> bool \<Rightarrow> u32 res option" where
  "path_resolve_internal fs junk path follow =
     (case path_normalize path PATH_MAX of
        Err \<Rightarrow> Some Err
      | Fault \<Rightarrow> Some Fault
      | Ok work \<Rightarrow> walk fs junk follow 0 (fst (start_at fs work)) (snd (start_at fs work)))"

definition path_resolve :: "vfs \<Rightarrow> (nat \<Rightarrow> char) \<Rightarrow> string \<Rightarrow> u32 res option" where
  "path_resolve fs junk path = path_resolve_internal fs junk path True"

definition path_resolve_nofollow :: "vfs \<Rightarrow> (nat \<Rightarrow> char) \<Rightarrow> string \<Rightarrow> u32 res option" where
  "path_resolve_nofollow fs junk path = path_resolve_internal fs junk path False"

subsection \<open>Normal forms\<close>

definition good_comp :: "string \<Rightarrow> bool" where
  "good_comp c \<longleftrightarrow> c \<noteq> [] \<and> slash \<notin> set c \<and> c \<noteq> ''.'' \<and> c \<noteq> ''..''"

lemma comps_Nil [simp]: "comps [] = []"
  by (simp add: comps.simps)

lemma comps_slash [simp]: "comps (slash # s) = comps s"
  by (simp add: comps.simps [of "slash # s"] comps.simps [of s])

lemma comps_step:
  "dropWhile (\<lambda>c. c = slash) s = t \<Longrightarrow> t \<noteq> [] \<Longrightarrow>
     comps s = takeWhile (\<lambda>c. c \<noteq> slash) t # comps (dropWhile (\<lambda>c. c \<noteq> slash) t)"
  by (subst comps.simps) (simp only: Let_def if_False)

lemma comps_one:
  assumes "c \<noteq> []" and "slash \<notin> set c" and "r = [] \<or> hd r = slash"
  shows "comps (c @ r) = c # comps r"
proof -
  have all: "\<forall>x \<in> set c. x \<noteq> slash" using assms(2) by auto
  have "hd c \<noteq> slash" using all assms(1) by simp
  then have "dropWhile (\<lambda>x. x = slash) (c @ r) = c @ r" using assms(1) by (cases c) simp_all
  moreover have "takeWhile (\<lambda>x. x \<noteq> slash) (c @ r) = c"
    using all assms(3) by (cases r) (simp_all add: takeWhile_append2 takeWhile_eq_all_conv)
  moreover have "dropWhile (\<lambda>x. x \<noteq> slash) (c @ r) = r"
    using all assms(3) by (cases r) (simp_all add: dropWhile_append2 dropWhile_eq_Nil_conv)
  ultimately show ?thesis using assms(1) comps_step [of "c @ r" "c @ r"] by simp
qed

lemma comps_parts: "c \<in> set (comps s) \<Longrightarrow> c \<noteq> [] \<and> slash \<notin> set c"
proof (induction s rule: comps.induct)
  case (1 s)
  obtain t where t: "dropWhile (\<lambda>c. c = slash) s = t" by simp
  show ?case
  proof (cases "t = []")
    case True
    with 1(2) t show ?thesis by (subst (asm) comps.simps) simp
  next
    case False
    then have "hd t \<noteq> slash" using hd_dropWhile [of "\<lambda>c. c = slash" s] t by simp
    then have ne: "takeWhile (\<lambda>c. c \<noteq> slash) t \<noteq> []" using False by (cases t) auto
    from 1(2) comps_step [OF t False] consider "c = takeWhile (\<lambda>c. c \<noteq> slash) t"
      | "c \<in> set (comps (dropWhile (\<lambda>c. c \<noteq> slash) t))" by auto
    then show ?thesis
    proof cases
      case 1
      with ne show ?thesis by (auto dest: set_takeWhileD)
    next
      case 2
      with 1(1) [OF refl] t False show ?thesis by blast
    qed
  qed
qed

lemma comps_join: "\<forall>c \<in> set cs. good_comp c \<Longrightarrow> comps (join_names cs) = cs"
proof (induction cs rule: join_names.induct)
  case (2 n)
  then show ?case using comps_one [of n "[]"] by (simp add: good_comp_def)
next
  case (3 n m ns)
  then show ?case using comps_one [of n "slash # join_names (m # ns)"] by (simp add: good_comp_def)
qed simp

lemma push_good:
  "fold_opt push_comp ds cs = Some es \<Longrightarrow> \<forall>c \<in> set cs. c \<noteq> [] \<and> slash \<notin> set c \<Longrightarrow> \<forall>d \<in> set ds. good_comp d \<Longrightarrow>
     length ds \<le> 2048 \<Longrightarrow> (\<forall>e \<in> set es. good_comp e) \<and> length es \<le> 2048"
proof (induction cs arbitrary: ds)
  case (Cons c cs)
  from Cons.prems(1) obtain xs where xs: "push_comp ds c = Some xs" "fold_opt push_comp xs cs = Some es"
    by (auto split: option.splits)
  have "(\<forall>x \<in> set xs. good_comp x) \<and> length xs \<le> 2048"
  proof (cases "c = ''.'' \<or> c = ''..''")
    case True
    with xs(1) have "xs = ds \<or> xs = butlast ds" by (auto simp: push_comp_def split: if_splits)
    with Cons.prems(3, 4) show ?thesis by (auto dest: in_set_butlastD)
  next
    case False
    with xs(1) have "xs = ds @ [c]" "length ds < 2048" by (simp_all add: push_comp_def split: if_splits)
    moreover have "good_comp c" using False Cons.prems(2) by (simp add: good_comp_def)
    ultimately show ?thesis using Cons.prems(3) by simp
  qed
  with Cons.IH [OF xs(2)] Cons.prems(2) show ?case by simp
qed simp

lemma push_good_id:
  "\<forall>c \<in> set cs. good_comp c \<Longrightarrow> length ds + length cs \<le> 2048 \<Longrightarrow> fold_opt push_comp ds cs = Some (ds @ cs)"
  by (induction cs arbitrary: ds) (simp_all add: push_comp_def good_comp_def)

lemma emit_eq: "emit sz out cs = (if cs = [] \<or> length out + length cs < sz then Ok (out @ cs) else Err)"
  by (induction cs arbitrary: out) auto

lemma emit_comps_Ok:
  "emit_comps sz first out cs = Ok out' \<Longrightarrow>
     out' = out @ (if cs = [] then [] else (if first then [] else [slash]) @ join_names cs)"
proof (induction cs arbitrary: first out)
  case (Cons c cs)
  from Cons.prems obtain o1 where o1: "emit sz out (if first then c else slash # c) = Ok o1"
      "emit_comps sz False o1 cs = Ok out'"
    by (cases "emit sz out (if first then c else slash # c)") auto
  from Cons.IH [OF o1(2)] o1(1) show ?case by (cases cs) (auto simp: emit_eq split: if_splits)
qed simp

lemma hd_join: "cs \<noteq> [] \<Longrightarrow> \<forall>c \<in> set cs. good_comp c \<Longrightarrow> join_names cs \<noteq> [] \<and> hd (join_names cs) \<noteq> slash"
proof -
  assume "cs \<noteq> []" and good: "\<forall>c \<in> set cs. good_comp c"
  then obtain n r where cs: "cs = n # r" by (cases cs) simp_all
  with good have n: "n \<noteq> []" "slash \<notin> set n" by (simp_all add: good_comp_def)
  then have "hd n \<noteq> slash" using hd_in_set by metis
  moreover have "\<exists>u. join_names cs = n @ u" using cs by (cases r) simp_all
  ultimately show ?thesis using n by auto
qed

text \<open>The normal form of a path from its kind and its components.\<close>

definition normal_form :: "bool \<Rightarrow> string list \<Rightarrow> string" where
  "normal_form absolute cs = (if \<not> absolute \<and> cs = [] then ''.'' else (if absolute then [slash] else []) @ join_names cs)"

lemma path_normalize_Ok:
  assumes "path_normalize p sz = Ok q"
  obtains cs where "fold_opt push_comp [] (comps p) = Some cs" "\<forall>c \<in> set cs. good_comp c" "length cs \<le> 2048"
    "q = normal_form (p \<noteq> [] \<and> hd p = slash) cs"
    "emit_comps sz True (if p \<noteq> [] \<and> hd p = slash then [slash] else []) cs =
       Ok ((if p \<noteq> [] \<and> hd p = slash then [slash] else []) @ join_names cs)"
    "length q < sz"
proof -
  let ?a = "p \<noteq> [] \<and> hd p = slash" and ?pre = "if p \<noteq> [] \<and> hd p = slash then [slash] else []"
  from assms obtain cs where cs: "fold_opt push_comp [] (comps p) = Some cs"
    by (auto simp: path_normalize_def Let_def split: if_splits option.splits)
  with assms obtain o1 where o1: "emit_comps sz True ?pre cs = Ok o1" "q = (if o1 = [] then ''.'' else o1)" "length q < sz"
    by (cases "emit_comps sz True ?pre cs") (auto simp: path_normalize_def Let_def split: if_splits)
  have good: "\<forall>c \<in> set cs. good_comp c" "length cs \<le> 2048"
    using push_good [OF cs] comps_parts [of _ p] by auto
  have e: "o1 = ?pre @ join_names cs" using emit_comps_Ok [OF o1(1)] by auto
  then have "q = normal_form ?a cs"
    using o1(2) hd_join [OF _ good(1)] by (auto simp: normal_form_def)
  with that [OF cs good] o1 e show ?thesis by simp
qed

lemma comps_normal_form: "\<forall>c \<in> set cs. good_comp c \<Longrightarrow> absolute \<or> cs \<noteq> [] \<Longrightarrow> comps (normal_form absolute cs) = cs"
  by (auto simp: normal_form_def comps_join)

lemma comps_dot: "comps ''.'' = [''.'']"
  using comps_one [of "''.''" "[]"] by simp

subsection \<open>Termination of the walk\<close>

text \<open>The chains of parents are finite.\<close>

definition parents_ranked :: "vfs \<Rightarrow> (u32 \<Rightarrow> nat) \<Rightarrow> bool" where
  "parents_ranked fs rank \<longleftrightarrow>
     (\<forall>a d. dentries fs a = Some d \<longrightarrow> a \<noteq> root_dentry fs \<longrightarrow> dparent d \<noteq> 0 \<longrightarrow> rank (dparent d) < rank a)"

lemma ancestors_total: "parents_ranked fs rank \<Longrightarrow> \<exists>r. ancestors fs p = Some r"
proof (induction "rank p" arbitrary: p rule: less_induct)
  case less
  show ?case
  proof (cases "p = 0 \<or> p = root_dentry fs")
    case True
    then show ?thesis by (subst ancestors.simps) simp
  next
    case False
    show ?thesis
    proof (cases "dentries fs p")
      case None
      with False show ?thesis by (subst ancestors.simps) simp
    next
      case (Some d)
      have "\<exists>r. ancestors fs (dparent d) = Some r"
      proof (cases "dparent d = 0")
        case True
        then show ?thesis by (subst ancestors.simps) simp
      next
        case nz: False
        with less(2) False Some have "rank (dparent d) < rank p" by (simp add: parents_ranked_def)
        from less(1) [OF this less(2)] show ?thesis .
      qed
      with False Some show ?thesis by (subst ancestors.simps) auto
    qed
  qed
qed

lemma dentry_path_total: "parents_ranked fs rank \<Longrightarrow> dentry_path fs junk d sz \<noteq> None"
  using ancestors_total [of fs rank d] by (auto simp: dentry_path_def)

lemma link_path_total: "parents_ranked fs rank \<Longrightarrow> link_path fs junk parent target rest \<noteq> None"
  using dentry_path_total [of fs rank junk "if parent \<noteq> 0 then parent else root_dentry fs" PATH_MAX]
  by (auto simp: link_path_def split: option.split)

lemma walk_returns:
  assumes "parents_ranked fs rank"
  shows "walk fs junk follow depth cur s \<noteq> None"
proof (induction "9 - depth" arbitrary: depth follow cur s rule: less_induct)
  case outer: less
  show ?case
  proof (induction "length s" arbitrary: follow cur s rule: less_induct)
    case inner: less
    obtain t where t: "dropWhile (\<lambda>c. c = slash) s = t" by simp
    show ?case
    proof (cases "t = []")
      case True
      then show ?thesis by (subst walk.simps) (simp add: t Let_def)
    next
      case False
      with comps_decreases [of s] t have "length (dropWhile (\<lambda>c. c \<noteq> slash) t) < length s" by simp
      from inner [OF this] have nxt: "walk fs junk g depth f (dropWhile (\<lambda>c. c \<noteq> slash) t) \<noteq> None" for f g .
      have link: "walk fs junk g (Suc depth) c w \<noteq> None" if "\<not> depth \<ge> SYMLINK_MAX_FOLLOW" for c w g
        using outer [of "Suc depth"] that by simp
      show ?thesis
        using link_path_total [OF assms]
        by (subst walk.simps) (simp del: not_None_eq add: t Let_def False nxt link split: if_split res.split option.split)
    qed
  qed
qed

subsection \<open>Properties\<close>

lemma emit_comps_good:
  "cs \<noteq> [] \<Longrightarrow> \<forall>c \<in> set cs. good_comp c \<Longrightarrow>
     emit_comps sz first out cs =
       (if length out + length ((if first then [] else [slash]) @ join_names cs) < sz
        then Ok (out @ (if first then [] else [slash]) @ join_names cs) else Err)"
proof (induction cs arbitrary: first out rule: join_names.induct)
  case (2 n)
  then show ?case by (simp add: emit_eq good_comp_def)
next
  case (3 n m ns)
  have "n \<noteq> []" using 3(3) by (simp add: good_comp_def)
  then show ?case using 3(1) [of False] 3(3) by (simp add: emit_eq)
qed simp

text \<open>What normalisation computes, from the components that are left.\<close>

lemma path_normalize_eq:
  assumes "fold_opt push_comp [] (comps p) = Some cs"
  shows "path_normalize p sz =
    (let absolute = (p \<noteq> [] \<and> hd p = slash); q = normal_form absolute cs in
     if sz = 0 then Err else if length q < sz then Ok q else if cs = [] then Fault else Err)"
proof -
  have good: "\<forall>c \<in> set cs. good_comp c"
    using push_good [OF assms] comps_parts [of _ p] by auto
  show ?thesis
  proof (cases "cs = []")
    case True
    then show ?thesis by (simp add: path_normalize_def assms normal_form_def Let_def)
  next
    case False
    with hd_join [OF False good] show ?thesis
      by (simp add: path_normalize_def assms emit_comps_good [OF False good] normal_form_def Let_def)
  qed
qed

text \<open>C5: a normalised path is canonical. Whatever path goes in, the result is left unchanged by a second
  normalisation, keeps the kind of the path (absolute or relative), fits the buffer with its closing NUL,
  and has no component \<open>.\<close> or \<open>..\<close> and no empty one, unless it is the path \<open>.\<close> itself.\<close>
theorem path_normalize_canonical:
  assumes "path_normalize p sz = Ok q"
  shows "path_normalize q sz = Ok q \<and> (hd q = slash \<longleftrightarrow> p \<noteq> [] \<and> hd p = slash) \<and> q \<noteq> [] \<and> length q < sz \<and>
    (q = ''.'' \<or> q = (if hd q = slash then [slash] else []) @ join_names (comps q) \<and> (\<forall>c \<in> set (comps q). good_comp c))"
proof -
  let ?a = "p \<noteq> [] \<and> hd p = slash"
  from assms obtain cs where cs: "\<forall>c \<in> set cs. good_comp c" "length cs \<le> 2048" and q: "q = normal_form ?a cs"
    and len: "length q < sz" by (rule path_normalize_Ok)
  have sz: "sz \<noteq> 0" using len by simp
  have kind: "q \<noteq> [] \<and> (hd q = slash \<longleftrightarrow> ?a)"
    using q hd_join [OF _ cs(1)] by (cases "cs = []") (auto simp: normal_form_def)
  show ?thesis
  proof (cases "\<not> ?a \<and> cs = []")
    case True
    then have "q = ''.''" using q by (simp add: normal_form_def)
    moreover have "fold_opt push_comp [] (comps ''.'') = Some []" by (simp add: comps_dot push_comp_def)
    ultimately show ?thesis using kind len sz by (simp add: path_normalize_eq normal_form_def)
  next
    case False
    then have c: "comps q = cs" using comps_normal_form [OF cs(1), of ?a] q by blast
    have "fold_opt push_comp [] (comps q) = Some cs" using push_good_id [of cs "[]"] cs c by simp
    then have "path_normalize q sz = Ok q"
      using path_normalize_eq [of q cs sz] kind len sz q by (simp add: Let_def)
    moreover have "q = (if hd q = slash then [slash] else []) @ join_names (comps q)"
      using q c kind False by (auto simp: normal_form_def)
    ultimately show ?thesis using kind len cs(1) c by blast
  qed
qed

theorem path_normalize_canonical_witness:
  "path_normalize ''/a/./b//../c/'' 64 = Ok ''/a/c'' \<and> path_normalize ''/a/c'' 64 = Ok ''/a/c''"
proof -
  have "path_normalize ''/a/./b//../c/'' 64 = Ok ''/a/c''"
    by (simp add: path_normalize_def comps.simps push_comp_def Let_def)
  with path_normalize_canonical [OF this] show ?thesis by simp
qed

text \<open>a leading \<open>..\<close> of a relative path has no effect. Normalisation drops it, and so the resolution of
  \<open>../x\<close> is the resolution of \<open>x\<close> in the current directory, not in its parent.\<close>
theorem relative_dotdot_dropped:
  assumes "x = [] \<or> hd x \<noteq> slash"
  shows "path_normalize (''../'' @ x) sz = path_normalize x sz \<and>
    path_resolve fs junk (''../'' @ x) = path_resolve fs junk x"
proof -
  have "comps (''../'' @ x) = ''..'' # comps x" using comps_one [of "''..''" "slash # x"] by simp
  then have "path_normalize (''../'' @ x) n = path_normalize x n" for n
    using assms by (auto simp: path_normalize_def push_comp_def Let_def)
  then show ?thesis by (simp add: path_resolve_def path_resolve_internal_def)
qed

theorem relative_dotdot_dropped_witness:
  "path_normalize ''../etc'' 64 = Ok ''etc''"
proof -
  have "path_normalize ''etc'' 64 = Ok ''etc''" by (simp add: path_normalize_def comps.simps push_comp_def Let_def)
  then show ?thesis using relative_dotdot_dropped [of "''etc''" 64] by simp
qed

text \<open>C9: resolving a path always ends. When the chains of parents are finite, both resolvers return a
  result or an error on every path: links that lead to each other in a circle are cut off after eight.\<close>
theorem path_resolve_terminates:
  assumes "parents_ranked fs rank"
  shows "(\<exists>r. path_resolve fs junk p = Some r) \<and> (\<exists>r. path_resolve_nofollow fs junk p = Some r)"
proof -
  have "\<exists>r. path_resolve_internal fs junk p follow = Some r" for follow
    using walk_returns [OF assms] by (auto simp: path_resolve_internal_def split: res.split)
  then show ?thesis by (simp add: path_resolve_def path_resolve_nofollow_def)
qed

text \<open>A root directory with one link \<open>l\<close> that names itself.\<close>

definition loop_fs :: vfs where
  "loop_fs =
     \<lparr>dentries = (\<lambda>_. None)
        (0xC0001000 \<mapsto> \<lparr>dname = ''/'', dparent = 0, dchild = 0xC0002000, dsibling = 0, dinode = None, mount_point = False\<rparr>,
         0xC0002000 \<mapsto> \<lparr>dname = ''l'', dparent = 0xC0001000, dchild = 0, dsibling = 0,
            dinode = Some \<lparr>imode = 0x20, ilookup = None, ireadlink = Some (\<lambda>_. Some ''l'')\<rparr>, mount_point = False\<rparr>),
      root_dentry = 0xC0001000, cwd_dentry = 0, mount_list = []\<rparr>"

theorem path_resolve_terminates_witness:
  "\<exists>r. path_resolve loop_fs (\<lambda>_. CHR ''/'') ''/l/x'' = Some r"
proof -
  have "parents_ranked loop_fs (\<lambda>a. if a = 0xC0002000 then 1 else 0)" by (simp add: parents_ranked_def loop_fs_def)
  from path_resolve_terminates [OF this] show ?thesis by blast
qed

lemma length_join: "ns \<noteq> [] \<Longrightarrow> (\<Sum>n\<leftarrow>ns. length n + 1) = length (join_names (rev ns)) + 1"
proof -
  have "ms \<noteq> [] \<Longrightarrow> (\<Sum>n\<leftarrow>ms. length n + 1) = length (join_names ms) + 1" for ms
    by (induction ms rule: join_names.induct) simp_all
  from this [of "rev ns"] show "ns \<noteq> [] \<Longrightarrow> ?thesis" by (simp add: rev_map [symmetric] del: rev_map)
qed

lemma strip_right_id: "last p \<noteq> slash \<Longrightarrow> strip_right p = p"
  by (cases p rule: rev_cases) (simp_all add: strip_right_def)

lemma last_join: "cs \<noteq> [] \<Longrightarrow> \<forall>c \<in> set cs. good_comp c \<Longrightarrow> join_names cs \<noteq> [] \<and> last (join_names cs) \<noteq> slash"
proof (induction cs rule: join_names.induct)
  case (2 n)
  then have "n \<noteq> []" "slash \<notin> set n" by (simp_all add: good_comp_def)
  then show ?case using last_in_set [of n] by (metis join_names.simps(2))
qed auto

lemma set_join: "x \<in> set (join_names cs) \<Longrightarrow> x = slash \<or> (\<exists>c \<in> set cs. x \<in> set c)"
  by (induction cs rule: join_names.induct) auto

text \<open>the path of a directory starts with whatever byte the stack held. The path built for a relative
  link in a directory below the root has its first byte unwritten: where the byte happens to be a slash the
  link is resolved from its own directory, and where it is zero from the root directory.\<close>
theorem relative_link_first_byte:
  assumes "d \<noteq> 0" and "d \<noteq> root_dentry fs" and anc: "ancestors fs d = Some (Ok ns)"
    and names: "\<forall>n \<in> set ns. good_comp n \<and> CHR 0x00 \<notin> set n"
    and "hd target \<noteq> slash" and "target \<noteq> []" and size: "length (join_names (rev ns)) + length target + 3 \<le> PATH_MAX"
  shows "link_path fs slash d target [] = Some (path_normalize (slash # join_names (rev ns) @ slash # target) PATH_MAX) \<and>
    link_path fs (CHR 0x00) d target [] = Some (path_normalize (slash # target) PATH_MAX)"
proof -
  let ?j = "join_names (rev ns)"
  have ne: "ns \<noteq> []"
    using anc assms(1, 2) by (subst (asm) ancestors.simps) (auto split: option.splits bind_splits elim!: bind_res.elims)
  have last: "?j \<noteq> []" "last ?j \<noteq> slash" using last_join [of "rev ns"] ne names by simp_all
  have "\<forall>x \<in> set ?j. x \<noteq> CHR 0x00" using set_join [of _ "rev ns"] names by auto
  then have str: "takeWhile (\<lambda>c. c \<noteq> CHR 0x00) ?j = ?j" by (simp add: takeWhile_eq_all_conv)
  have "dentry_path fs c d PATH_MAX = Some (Ok (if c = CHR 0x00 then [] else c # ?j))" for c
    using assms(1, 2) size anc length_join [OF ne] str by (simp add: dentry_path_def cstr_def)
  moreover have "dropWhile (\<lambda>c. c = slash) target = target" using assms(5, 6) by (cases target) simp_all
  moreover have "strip_right (slash # ?j) = slash # ?j" using last by (intro strip_right_id) simp
  ultimately show ?thesis
    using assms(1, 5) size by (simp add: link_path_def path_join_def strip_right_def [of "[]"])
qed

text \<open>The directory \<open>/a\<close>.\<close>

definition dir_fs :: vfs where
  "dir_fs = loop_fs\<lparr>dentries := (dentries loop_fs)
     (0xC0003000 \<mapsto> \<lparr>dname = ''a'', dparent = 0xC0001000, dchild = 0, dsibling = 0, dinode = None, mount_point = False\<rparr>)\<rparr>"

theorem relative_link_first_byte_witness:
  "link_path dir_fs slash 0xC0003000 ''t'' [] = Some (Ok ''/a/t'') \<and> link_path dir_fs (CHR 0x00) 0xC0003000 ''t'' [] = Some (Ok ''/t'')"
proof -
  have root: "ancestors dir_fs 0xC0001000 = Some (Ok [])" by (subst ancestors.simps) (simp add: dir_fs_def loop_fs_def)
  have "dentries dir_fs 0xC0003000 =
      Some \<lparr>dname = ''a'', dparent = 0xC0001000, dchild = 0, dsibling = 0, dinode = None, mount_point = False\<rparr>"
    and "root_dentry dir_fs = 0xC0001000" by (simp_all add: dir_fs_def loop_fs_def)
  then have "ancestors dir_fs 0xC0003000 = Some (Ok [''a''])" by (subst ancestors.simps) (simp add: root)
  from relative_link_first_byte [OF _ _ this, of "''t''"] show ?thesis
    by (simp add: good_comp_def dir_fs_def loop_fs_def path_normalize_def comps.simps push_comp_def Let_def)
qed

end
