(* ===== verification/Flock.thy ===== *)
theory Flock
  imports Interfaces
begin

text \<open>
  File locks, \<open>fs/flock.c\<close>: a table of locks that are found by their descriptor number. Every function runs
  under the table's spinlock and is one step. \<open>pid\<close> is the process id of the caller, \<open>None\<close> when no process
  runs; \<open>ok\<close> tells whether \<open>kmalloc\<close> returned a block.
\<close>

record file_lock =
  lock_fd :: u32
  lock_type :: u32
  holder_count :: u32
  exclusive_pid :: u32

record flock_table =
  locks :: "file_lock list"
  lock_count :: u32

abbreviation "LOCK_SH \<equiv> 1 :: u32"
abbreviation "LOCK_EX \<equiv> 2 :: u32"
abbreviation "LOCK_UN \<equiv> 3 :: u32"
abbreviation "LOCK_NB \<equiv> 4 :: u32"
abbreviation "MAX_FILE_LOCKS \<equiv> 256 :: nat"

definition flock_init :: flock_table where
  "flock_init = \<lparr>locks = [], lock_count = 0\<rparr>"

definition flock_find :: "flock_table \<Rightarrow> u32 \<Rightarrow> file_lock option" where
  "flock_find s fd = find (\<lambda>l. lock_fd l = fd) (locks s)"

definition drop_lock :: "nat \<Rightarrow> flock_table \<Rightarrow> flock_table" where
  "drop_lock i s = s\<lparr>locks := remove_nth i (locks s), lock_count := lock_count s - 1\<rparr>"

definition put_lock :: "nat \<Rightarrow> file_lock \<Rightarrow> flock_table \<Rightarrow> flock_table" where
  "put_lock i l s = s\<lparr>locks := (locks s)[i := l]\<rparr>"

text \<open>A request for a descriptor that has the lock number \<open>i\<close> of the list.\<close>

definition acquire_held :: "u32 \<Rightarrow> u32 \<Rightarrow> nat \<Rightarrow> flock_table \<Rightarrow> int \<times> flock_table" where
  "acquire_held my_pid ty i s =
     (let l = locks s ! i in
      if ty = LOCK_UN
      then (0, if lock_type l = LOCK_SH
               then (let l' = l\<lparr>holder_count := holder_count l - 1\<rparr> in
                     if holder_count l' = 0 then drop_lock i s else put_lock i l' s)
               else if lock_type l = LOCK_EX \<and> exclusive_pid l = my_pid then drop_lock i s
               else s)
      else if ty = LOCK_SH
      then (if lock_type l = LOCK_EX \<and> exclusive_pid l \<noteq> my_pid then (-1, s)
            else (0, put_lock i (l\<lparr>holder_count := holder_count l + 1, lock_type := LOCK_SH\<rparr>) s))
      else if ty = LOCK_EX
      then (if lock_type l = LOCK_EX \<and> exclusive_pid l = my_pid then (0, s)
            else if lock_type l = LOCK_SH \<and> holder_count l > 1 then (-1, s)
            else (0, put_lock i (l\<lparr>lock_type := LOCK_EX, exclusive_pid := my_pid, holder_count := 1\<rparr>) s))
      else (-1, s))"

definition flock_acquire :: "bool \<Rightarrow> u32 option \<Rightarrow> flock_table \<Rightarrow> u32 \<Rightarrow> u32 \<Rightarrow> int \<times> flock_table" where
  "flock_acquire ok pid s fd operation =
     (let ty = operation AND NOT LOCK_NB in
      case pid of
        None \<Rightarrow> (-1, s)
      | Some my_pid \<Rightarrow>
          (case find_index (\<lambda>l. lock_fd l = fd) (locks s) of
             Some i \<Rightarrow> acquire_held my_pid ty i s
           | None \<Rightarrow>
               if ty = LOCK_UN then (0, s)
               else if unat (lock_count s) \<ge> MAX_FILE_LOCKS then (-1, s)
               else if \<not> ok then (-1, s)
               else (0, \<lparr>locks = \<lparr>lock_fd = fd, lock_type = ty, holder_count = 1,
                                   exclusive_pid = (if ty = LOCK_EX then my_pid else 0)\<rparr> # locks s,
                         lock_count = lock_count s + 1\<rparr>)))"

definition flock_syscall :: "bool \<Rightarrow> u32 option \<Rightarrow> flock_table \<Rightarrow> u32 \<Rightarrow> u32 \<Rightarrow> int \<times> flock_table" where
  "flock_syscall ok pid s fd operation = flock_acquire ok pid s fd operation"

text \<open>What closing a descriptor leaves of a lock; the number is that of the locks removed.\<close>

fun release_locks :: "u32 \<Rightarrow> u32 \<Rightarrow> file_lock list \<Rightarrow> file_lock list \<times> nat" where
  "release_locks my_pid fd [] = ([], 0)"
| "release_locks my_pid fd (l # ls) =
     (let (rest, n) = release_locks my_pid fd ls in
      if lock_fd l \<noteq> fd then (l # rest, n)
      else if lock_type l = LOCK_EX \<and> exclusive_pid l \<noteq> my_pid then (l # rest, n)
      else if lock_type l = LOCK_SH
      then (let l' = l\<lparr>holder_count := holder_count l - 1\<rparr> in if holder_count l' = 0 then (rest, Suc n) else (l' # rest, n))
      else (rest, Suc n))"

definition flock_release_fd :: "u32 option \<Rightarrow> flock_table \<Rightarrow> u32 \<Rightarrow> int \<times> flock_table" where
  "flock_release_fd pid s fd =
     (let (ls, n) = release_locks (case pid of None \<Rightarrow> 0 | Some p \<Rightarrow> p) fd (locks s)
      in (0, \<lparr>locks = ls, lock_count = lock_count s - of_nat n\<rparr>))"

definition flock_count :: "flock_table \<Rightarrow> u32" where
  "flock_count s = lock_count s"

subsection \<open>The table\<close>

definition flock_ok :: "flock_table \<Rightarrow> bool" where
  "flock_ok s \<longleftrightarrow> distinct (map lock_fd (locks s)) \<and> length (locks s) \<le> MAX_FILE_LOCKS \<and> lock_count s = of_nat (length (locks s))"

datatype flock_call = Flock bool "u32 option" u32 u32 | CloseFd "u32 option" u32

fun flock_exec :: "flock_table \<Rightarrow> flock_call \<Rightarrow> flock_table" where
  "flock_exec s (Flock ok pid fd operation) = snd (flock_syscall ok pid s fd operation)"
| "flock_exec s (CloseFd pid fd) = snd (flock_release_fd pid s fd)"

lemma drop_lock_ok:
  assumes "flock_ok s" and "i < length (locks s)"
  shows "flock_ok (drop_lock i s)"
proof -
  have "of_nat (length (locks s)) - 1 = (of_nat (length (locks s) - 1) :: u32)" using assms(2) by (simp add: of_nat_diff)
  then show ?thesis using assms by (auto simp: flock_ok_def drop_lock_def map_remove_nth distinct_remove_nth)
qed

lemma put_lock_ok: "flock_ok s \<Longrightarrow> i < length (locks s) \<Longrightarrow> lock_fd l = lock_fd (locks s ! i) \<Longrightarrow> flock_ok (put_lock i l s)"
proof -
  assume *: "flock_ok s" "i < length (locks s)" "lock_fd l = lock_fd (locks s ! i)"
  then have "map lock_fd ((locks s)[i := l]) = map lock_fd (locks s)" by (simp add: map_update list_update_same_conv)
  with * show ?thesis by (simp add: flock_ok_def put_lock_def del: map_update)
qed

lemma acquire_ok:
  assumes "flock_ok s"
  shows "flock_ok (snd (flock_acquire ok pid s fd operation))"
proof -
  have "flock_ok (snd (acquire_held p ty i s))" if "i < length (locks s)" for p ty i
    using assms that by (auto simp: acquire_held_def Let_def drop_lock_ok put_lock_ok)
  moreover have "unat (lock_count s) = length (locks s)"
    using assms by (simp add: flock_ok_def unat_of_nat)
  ultimately show ?thesis
    using assms by (auto simp: flock_acquire_def Let_def flock_ok_def split: option.split dest: find_index_SomeD)
qed

lemma release_locks_spec:
  "release_locks p fd ls = (rs, n) \<Longrightarrow>
     length rs + n = length ls \<and> set (map lock_fd rs) \<subseteq> set (map lock_fd ls) \<and> (distinct (map lock_fd ls) \<longrightarrow> distinct (map lock_fd rs))"
proof (induction ls arbitrary: rs n)
  case (Cons l ls)
  obtain r1 n1 where "release_locks p fd ls = (r1, n1)" by (cases "release_locks p fd ls")
  with Cons.IH [OF this] Cons.prems show ?case by (auto simp: Let_def image_subset_iff split: if_splits)
qed simp

interpretation flock_calls: call_system flock_exec "\<lambda>_. True" flock_ok
proof unfold_locales
  fix s c
  assume ok: "flock_ok s"
  show "flock_ok (flock_exec s c)"
  proof (cases c)
    case (Flock a pid fd operation)
    with ok show ?thesis by (simp add: flock_syscall_def acquire_ok)
  next
    case (CloseFd pid fd)
    obtain rs n where r: "release_locks (case pid of None \<Rightarrow> 0 | Some p \<Rightarrow> p) fd (locks s) = (rs, n)" by fastforce
    have "of_nat (length (locks s)) - of_nat n = (of_nat (length rs) :: u32)"
      using release_locks_spec [OF r] by (metis add_diff_cancel_right' of_nat_add)
    then show ?thesis
      using ok release_locks_spec [OF r] r by (auto simp: CloseFd flock_release_fd_def flock_ok_def)
  qed
qed

text \<open>C34: after any sequence of lock calls and closed descriptors there is at most one lock for a descriptor
  number, never more than 256 locks, and the counter is their number.\<close>
theorem flock_table_ok: "flock_ok (run_calls flock_exec flock_init cs)"
proof -
  have "flock_ok flock_init" by (simp add: flock_ok_def flock_init_def)
  then show ?thesis using flock_calls.run_keeps [of flock_init cs] by (simp add: list_all_iff)
qed

subsection \<open>Exclusion\<close>

text \<open>an exclusive lock is taken over by any other process that asks for it. While a process holds the
  descriptor exclusively a shared request of another one fails, but an exclusive request succeeds and makes the
  caller the owner; the first process can then no longer release the lock.\<close>
theorem flock_exclusive_stolen:
  assumes "find_index (\<lambda>l. lock_fd l = fd) (locks s) = Some i" and "lock_type (locks s ! i) = LOCK_EX"
    and "exclusive_pid (locks s ! i) = p" and "q \<noteq> p"
  shows "flock_syscall ok (Some q) s fd LOCK_SH = (-1, s) \<and>
    (\<exists>s'. flock_syscall ok (Some q) s fd LOCK_EX = (0, s') \<and> exclusive_pid (locks s' ! i) = q \<and>
      flock_syscall ok (Some p) s' fd LOCK_UN = (0, s'))"
proof -
  have i: "i < length (locks s)" using find_index_SomeD [OF assms(1)] by simp
  let ?s = "put_lock i ((locks s ! i)\<lparr>lock_type := LOCK_EX, exclusive_pid := q, holder_count := 1\<rparr>) s"
  have "find_index (\<lambda>l. lock_fd l = fd) (locks ?s) = Some i"
    using find_index_SomeD [OF assms(1)] i by (intro find_index_SomeI) (auto simp: put_lock_def nth_list_update)
  moreover have "flock_syscall ok (Some q) s fd LOCK_EX = (0, ?s)"
    using assms by (simp add: flock_syscall_def flock_acquire_def acquire_held_def Let_def)
  moreover have "locks ?s ! i = (locks s ! i)\<lparr>lock_type := LOCK_EX, exclusive_pid := q, holder_count := 1\<rparr>"
    using i by (simp add: put_lock_def)
  ultimately show ?thesis
    using assms by (simp add: flock_syscall_def flock_acquire_def acquire_held_def Let_def)
qed

theorem flock_exclusive_stolen_witness:
  "fst (flock_syscall True (Some 8) (snd (flock_syscall True (Some 7) flock_init 3 LOCK_EX)) 3 LOCK_EX) = 0"
proof -
  let ?s = "snd (flock_syscall True (Some 7) flock_init 3 LOCK_EX)"
  have "find_index (\<lambda>l. lock_fd l = 3) (locks ?s) = Some 0" "lock_type (locks ?s ! 0) = LOCK_EX" "exclusive_pid (locks ?s ! 0) = 7"
    by (simp_all add: flock_syscall_def flock_acquire_def flock_init_def)
  from flock_exclusive_stolen [OF this, of 8 True] show ?thesis by auto
qed

end
