(* ===== verification/Route.thy ===== *)
theory Route
  imports Interfaces
begin

text \<open>
  The routing table, \<open>net/route.c\<close>: eight tables of up to 64 routes with longest-prefix match, policy
  rules that select a table, and a cache of lookup results. The functions that change a table or the
  policy list run under the table lock; the lookups and the cache functions take no lock, and the model
  runs each of them as one step as well. An interface is its address, 0 for NULL; \<open>ok\<close> tells whether \<open>kmalloc\<close>
  returned a block.
\<close>

subsection \<open>State\<close>

record route_entry =
  rdest :: u32
  rmask :: u32
  rgateway :: u32
  riface :: u32
  rmetric :: u32
  rflags :: u32

record route_policy =
  priority :: u32
  match_type :: u32
  match_value :: u32
  match_mask :: u32
  table_id :: u32

text \<open>What a cache entry may point to: NULL, the static variables \<open>result\<close> of \<open>route_lookup_policy\<close> and
  \<open>cache_storage\<close> of \<open>route_lookup\<close>, or storage of a caller.\<close>

datatype route_ptr = NullRoute | ResultVar | CacheStorage | CallerRoute nat

record cache_entry =
  cdst :: u32
  csrc :: u32
  croute :: route_ptr
  last_used :: u32
  valid :: bool

record route_stats =
  lookups :: u32
  hits :: u32
  misses :: u32
  inserts :: u32
  deletes :: u32
  longest_prefix :: u32
  cache_hits :: u32
  cache_misses :: u32
  policy_matches :: u32

record route_sys =
  tables :: "nat \<Rightarrow> route_entry list"
  policies :: "route_policy list"
  cache :: "nat \<Rightarrow> cache_entry"
  cache_time :: u32
  rstats :: route_stats
  storage :: "route_ptr \<Rightarrow> route_entry"

record net_interface =
  nif_ip :: u32
  nif_mask :: u32
  nif_gateway :: u32
  nif_up :: bool
  nif_flags :: u32

abbreviation "ROUTE_FLAG_STATIC \<equiv> 0x01 :: u32"
abbreviation "ROUTE_FLAG_GATEWAY \<equiv> 0x02 :: u32"
abbreviation "ROUTE_FLAG_UP \<equiv> 0x04 :: u32"
abbreviation "ROUTE_FLAG_BLACKHOLE \<equiv> 0x08 :: u32"
abbreviation "ROUTE_TABLE_MAX_ID \<equiv> 8 :: nat"
abbreviation "ROUTE_TABLE_MAX \<equiv> 64 :: nat"
abbreviation "ROUTE_POLICY_MAX \<equiv> 32 :: nat"

definition zero_route :: route_entry where
  "zero_route = \<lparr>rdest = 0, rmask = 0, rgateway = 0, riface = 0, rmetric = 0, rflags = 0\<rparr>"

definition zero_cache :: cache_entry where
  "zero_cache = \<lparr>cdst = 0, csrc = 0, croute = NullRoute, last_used = 0, valid = False\<rparr>"

definition zero_rstats :: route_stats where
  "zero_rstats = \<lparr>lookups = 0, hits = 0, misses = 0, inserts = 0, deletes = 0, longest_prefix = 0,
     cache_hits = 0, cache_misses = 0, policy_matches = 0\<rparr>"

definition route_init :: "route_sys \<Rightarrow> route_sys" where
  "route_init s = s\<lparr>tables := (\<lambda>_. []), policies := [], cache := (\<lambda>_. zero_cache), cache_time := 0, rstats := zero_rstats\<rparr>"

subsection \<open>Cache\<close>

definition route_cache_hash :: "u32 \<Rightarrow> u32 \<Rightarrow> nat" where
  "route_cache_hash dst src = unat ((dst XOR src XOR drop_bit 16 dst XOR drop_bit 16 src) mod 256)"

definition route_cache_lookup :: "route_sys \<Rightarrow> u32 \<Rightarrow> u32 \<Rightarrow> route_ptr \<times> route_sys" where
  "route_cache_lookup s dst src =
     (let idx = route_cache_hash dst src; e = cache s idx in
      if valid e \<and> cdst e = dst \<and> csrc e = src \<and> croute e \<noteq> NullRoute
      then (croute e,
            s\<lparr>cache := (cache s)(idx := e\<lparr>last_used := cache_time s + 1\<rparr>), cache_time := cache_time s + 1,
              rstats := (rstats s)\<lparr>cache_hits := cache_hits (rstats s) + 1\<rparr>\<rparr>)
      else (NullRoute, s\<lparr>rstats := (rstats s)\<lparr>cache_misses := cache_misses (rstats s) + 1\<rparr>\<rparr>))"

definition route_cache_insert :: "route_sys \<Rightarrow> u32 \<Rightarrow> u32 \<Rightarrow> route_ptr \<Rightarrow> route_sys" where
  "route_cache_insert s dst src route =
     (if route = NullRoute then s
      else let t = cache_time s + 1 in
           s\<lparr>cache := (cache s)(route_cache_hash dst src :=
               \<lparr>cdst = dst, csrc = src, croute = route, last_used = t, valid = True\<rparr>), cache_time := t\<rparr>)"

definition route_cache_flush :: "route_sys \<Rightarrow> route_sys" where
  "route_cache_flush s = s\<lparr>cache := (\<lambda>_. zero_cache), cache_time := 0\<rparr>"

subsection \<open>Tables\<close>

definition same_prefix :: "u32 \<Rightarrow> u32 \<Rightarrow> route_entry \<Rightarrow> bool" where
  "same_prefix dest netmask e \<longleftrightarrow> rdest e = dest \<and> rmask e = netmask"

definition upd_table :: "route_sys \<Rightarrow> nat \<Rightarrow> route_entry list \<Rightarrow> (route_stats \<Rightarrow> route_stats) \<Rightarrow> route_sys" where
  "upd_table s k es f = s\<lparr>tables := (tables s)(k := es), rstats := f (rstats s)\<rparr>"

definition route_add_to_table ::
    "route_sys \<Rightarrow> u32 \<Rightarrow> u32 \<Rightarrow> u32 \<Rightarrow> u32 \<Rightarrow> u32 \<Rightarrow> u32 \<Rightarrow> u32 \<Rightarrow> int \<times> route_sys" where
  "route_add_to_table s tid dest netmask gw iface metric flags =
     (if unat tid \<ge> ROUTE_TABLE_MAX_ID then (-1, s)
      else let tbl = tables s (unat tid); count_insert = (\<lambda>st. st\<lparr>inserts := inserts st + 1\<rparr>) in
           case find_index (same_prefix dest netmask) tbl of
             Some i \<Rightarrow>
               (0, upd_table s (unat tid)
                     (tbl[i := (tbl ! i)\<lparr>rgateway := gw, riface := iface, rmetric := metric, rflags := flags\<rparr>]) count_insert)
           | None \<Rightarrow>
               if length tbl \<ge> ROUTE_TABLE_MAX then (-1, s)
               else (0, upd_table s (unat tid)
                      (tbl @ [\<lparr>rdest = dest, rmask = netmask, rgateway = gw, riface = iface, rmetric = metric, rflags = flags\<rparr>])
                      count_insert))"

definition route_delete_from_table :: "route_sys \<Rightarrow> u32 \<Rightarrow> u32 \<Rightarrow> u32 \<Rightarrow> int \<times> route_sys" where
  "route_delete_from_table s tid dest netmask =
     (if unat tid \<ge> ROUTE_TABLE_MAX_ID then (-1, s)
      else let tbl = tables s (unat tid) in
           case find_index (same_prefix dest netmask) tbl of
             None \<Rightarrow> (-1, s)
           | Some i \<Rightarrow> (0, upd_table s (unat tid) (remove_nth i tbl) (\<lambda>st. st\<lparr>deletes := deletes st + 1\<rparr>)))"

text \<open>The loop that counts the leading ones of a mask.\<close>

function lead_ones :: "u32 \<Rightarrow> nat" where
  "lead_ones m = (if m AND 0x80000000 \<noteq> 0 then Suc (lead_ones (push_bit 1 m)) else 0)"
  by pat_completeness auto

lemma shift_drops_bit:
  fixes m :: u32
  assumes "m AND 0x80000000 \<noteq> 0"
  shows "card {i. bit (push_bit 1 m) i} < card {i. bit m i}"
proof -
  have top: "bit m 31" using assms test_bit_mask [of 31 m] by simp
  have fin: "finite {i. bit m i}" by (rule finite_subset [of _ "{..<32}"]) (auto dest: bit_imp_le_length)
  have "{i. bit (push_bit 1 m) i} = Suc ` ({i. bit m i} - {31})"
  proof (intro set_eqI iffI)
    fix i assume "i \<in> {i. bit (push_bit 1 m) i}"
    then have "1 \<le> i \<and> i < 32 \<and> bit m (i - 1)" unfolding mem_Collect_eq bit_push_bit_iff by simp
    then show "i \<in> Suc ` ({i. bit m i} - {31})" by (intro image_eqI [of _ _ "i - 1"]) auto
  next
    fix i assume "i \<in> Suc ` ({i. bit m i} - {31})"
    then obtain j where "i = Suc j" "bit m j" "j \<noteq> 31" by auto
    moreover from this have "j < 32" using bit_imp_le_length [of m j] by simp
    ultimately show "i \<in> {i. bit (push_bit 1 m) i}" unfolding mem_Collect_eq bit_push_bit_iff by simp
  qed
  then have "card {i. bit (push_bit 1 m) i} = card ({i. bit m i} - {31})" by (simp only: card_image inj_Suc inj_on_subset [OF inj_Suc] subset_UNIV)
  also have "\<dots> < card {i. bit m i}" using top fin by (intro psubset_card_mono) auto
  finally show ?thesis .
qed

termination lead_ones
  by (relation "measure (\<lambda>m. card {i. bit m i})") (rule wf_measure, unfold in_measure, rule shift_drops_bit)

declare lead_ones.simps [simp del]

definition route_matches :: "u32 \<Rightarrow> route_entry \<Rightarrow> bool" where
  "route_matches dst e \<longleftrightarrow> rflags e AND ROUTE_FLAG_UP \<noteq> 0 \<and> dst AND rmask e = rdest e AND rmask e"

text \<open>One turn of the lookup loop on the best route so far, \<open>None\<close> while nothing was found.\<close>

definition better_route :: "u32 \<Rightarrow> route_entry option \<Rightarrow> route_entry \<Rightarrow> route_entry option" where
  "better_route dst best e =
     (if \<not> route_matches dst e then best
      else case best of
             None \<Rightarrow> Some e
           | Some b \<Rightarrow>
               if lead_ones (rmask e) > lead_ones (rmask b) \<or>
                  lead_ones (rmask e) = lead_ones (rmask b) \<and> rmetric e < rmetric b
               then Some e else best)"

definition route_lookup_table :: "route_sys \<Rightarrow> u32 \<Rightarrow> u32 \<Rightarrow> route_entry" where
  "route_lookup_table s tid dst =
     (if unat tid \<ge> ROUTE_TABLE_MAX_ID then zero_route
      else case foldl (better_route dst) None (tables s (unat tid)) of None \<Rightarrow> zero_route | Some e \<Rightarrow> e)"

definition route_add :: "route_sys \<Rightarrow> u32 \<Rightarrow> u32 \<Rightarrow> u32 \<Rightarrow> u32 \<Rightarrow> u32 \<Rightarrow> u32 \<Rightarrow> int \<times> route_sys" where
  "route_add s = route_add_to_table s 0"

definition route_delete :: "route_sys \<Rightarrow> u32 \<Rightarrow> u32 \<Rightarrow> int \<times> route_sys" where
  "route_delete s = route_delete_from_table s 0"

definition route_purge_dynamic :: "route_sys \<Rightarrow> route_sys" where
  "route_purge_dynamic s =
     (let keep = filter (\<lambda>e. rflags e AND ROUTE_FLAG_STATIC \<noteq> 0) (tables s 0) in
      upd_table s 0 keep (\<lambda>st. st\<lparr>deletes := deletes st + of_nat (length (tables s 0) - length keep)\<rparr>))"

subsection \<open>Policies\<close>

definition route_add_policy :: "bool \<Rightarrow> route_sys \<Rightarrow> u32 \<Rightarrow> u32 \<Rightarrow> u32 \<Rightarrow> u32 \<Rightarrow> u32 \<Rightarrow> int \<times> route_sys" where
  "route_add_policy ok s prio mtype mvalue mmask tid =
     (let np = \<lparr>priority = prio, match_type = mtype, match_value = mvalue, match_mask = mmask, table_id = tid\<rparr>;
          ps = policies s in
      if length ps \<ge> ROUTE_POLICY_MAX \<or> unat tid \<ge> ROUTE_TABLE_MAX_ID then (-1, s)
      else case find_index (\<lambda>p. priority p = prio) ps of
             Some i \<Rightarrow> (0, s\<lparr>policies := ps[i := np]\<rparr>)
           | None \<Rightarrow>
               if \<not> ok then (-1, s)
               else (0, s\<lparr>policies := takeWhile (\<lambda>p. priority p < prio) ps @ np # dropWhile (\<lambda>p. priority p < prio) ps\<rparr>))"

definition route_del_policy :: "route_sys \<Rightarrow> u32 \<Rightarrow> int \<times> route_sys" where
  "route_del_policy s prio =
     (case find_index (\<lambda>p. priority p = prio) (policies s) of
        None \<Rightarrow> (-1, s) | Some i \<Rightarrow> (0, s\<lparr>policies := remove_nth i (policies s)\<rparr>))"

definition policy_matches_packet :: "u32 \<Rightarrow> u32 \<Rightarrow> u32 \<Rightarrow> u32 \<Rightarrow> route_policy \<Rightarrow> bool" where
  "policy_matches_packet src dst tos fwmark p =
     (let eq = (\<lambda>x. x AND match_mask p = match_value p AND match_mask p) in
      if match_type p = 1 then eq src
      else if match_type p = 2 then eq dst
      else if match_type p = 3 then eq tos
      else if match_type p = 4 then eq fwmark
      else if match_type p = 5 then src = match_value p
      else False)"

fun lookup_policies :: "route_sys \<Rightarrow> u32 \<Rightarrow> u32 \<Rightarrow> u32 \<Rightarrow> u32 \<Rightarrow> route_policy list \<Rightarrow> route_ptr \<times> route_sys" where
  "lookup_policies s src dst tos fwmark [] = (NullRoute, s)"
| "lookup_policies s src dst tos fwmark (p # ps) =
     (if policy_matches_packet src dst tos fwmark p \<and> unat (table_id p) < ROUTE_TABLE_MAX_ID
      then (let r = route_lookup_table s (table_id p) dst; s1 = s\<lparr>storage := (storage s)(ResultVar := r)\<rparr> in
            if riface r \<noteq> 0
            then (ResultVar, s1\<lparr>rstats := (rstats s1)\<lparr>policy_matches := policy_matches (rstats s1) + 1\<rparr>\<rparr>)
            else lookup_policies s1 src dst tos fwmark ps)
      else lookup_policies s src dst tos fwmark ps)"

definition route_lookup_policy :: "route_sys \<Rightarrow> u32 \<Rightarrow> u32 \<Rightarrow> u32 \<Rightarrow> u32 \<Rightarrow> route_ptr \<times> route_sys" where
  "route_lookup_policy s src dst tos fwmark = lookup_policies s src dst tos fwmark (policies s)"

subsection \<open>Lookup\<close>

definition bump :: "(route_stats \<Rightarrow> route_stats) \<Rightarrow> route_sys \<Rightarrow> route_sys" where
  "bump f s = s\<lparr>rstats := f (rstats s)\<rparr>"

definition route_lookup :: "route_sys \<Rightarrow> u32 \<Rightarrow> route_entry \<times> route_sys" where
  "route_lookup s0 dst =
     (let (c, s1) = route_cache_lookup (bump (\<lambda>st. st\<lparr>lookups := lookups st + 1\<rparr>) s0) dst 0 in
      if c \<noteq> NullRoute then (storage s1 c, s1)
      else let (q, s2) = route_lookup_policy s1 0 dst 0 0 in
           if q \<noteq> NullRoute \<and> riface (storage s2 q) \<noteq> 0
           then (let s3 = bump (\<lambda>st. st\<lparr>hits := hits st + 1\<rparr>) (route_cache_insert s2 dst 0 q) in (storage s3 q, s3))
           else let best = route_lookup_table s2 0 dst in
                if riface best \<noteq> 0
                then (let pref = of_nat (lead_ones (rmask best));
                          s3 = bump (\<lambda>st. st\<lparr>hits := hits st + 1,
                                 longest_prefix := (if pref > longest_prefix st then pref else longest_prefix st)\<rparr>) s2;
                          s4 = s3\<lparr>storage := (storage s3)(CacheStorage := best)\<rparr>
                      in (best, route_cache_insert s4 dst 0 CacheStorage))
                else (best, bump (\<lambda>st. st\<lparr>misses := misses st + 1\<rparr>) s2))"

text \<open>The interface and next hop of a destination; \<open>None\<close> is the return value -1.\<close>

definition route_resolve ::
    "(u32 \<Rightarrow> net_interface) \<Rightarrow> route_sys \<Rightarrow> u32 \<Rightarrow> (u32 \<times> u32) option \<times> route_sys" where
  "route_resolve ifs s dst =
     (let (r, s1) = route_lookup s dst in
      if riface r = 0 then (None, s1)
      else if \<not> nif_up (ifs (riface r)) \<or> nif_flags (ifs (riface r)) AND 1 = 0 then (None, s1)
      else if rflags r AND ROUTE_FLAG_BLACKHOLE \<noteq> 0 then (None, s1)
      else (Some (riface r, if rgateway r \<noteq> 0 then rgateway r else dst), s1))"

definition route_get_all :: "route_sys \<Rightarrow> route_entry list" where
  "route_get_all s = tables s 0"

definition route_get_stats :: "route_sys \<Rightarrow> route_stats" where
  "route_get_stats s = rstats s"

definition route_install_iface_defaults :: "(u32 \<Rightarrow> net_interface) \<Rightarrow> route_sys \<Rightarrow> u32 \<Rightarrow> int \<times> route_sys" where
  "route_install_iface_defaults ifs s iface =
     (if iface = 0 then (-1, s)
      else let i = ifs iface; (r1, s1) = route_add s (nif_ip i AND nif_mask i) (nif_mask i) 0 iface 0 ROUTE_FLAG_UP in
           if r1 \<noteq> 0 then (-1, s1)
           else if nif_gateway i \<noteq> 0
           then (let (r2, s2) = route_add s1 0 0 (nif_gateway i) iface 1 (ROUTE_FLAG_UP OR ROUTE_FLAG_GATEWAY) in
                 if r2 \<noteq> 0 then (-1, s2) else (0, s2))
           else (0, s1))"

subsection \<open>Well-formed states\<close>

definition table_ok :: "route_entry list \<Rightarrow> bool" where
  "table_ok es \<longleftrightarrow> length es \<le> ROUTE_TABLE_MAX \<and> distinct (map (\<lambda>e. (rdest e, rmask e)) es)"

definition policies_ok :: "route_policy list \<Rightarrow> bool" where
  "policies_ok ps \<longleftrightarrow> length ps \<le> ROUTE_POLICY_MAX \<and> sorted_wrt (<) (map priority ps) \<and>
     (\<forall>p \<in> set ps. unat (table_id p) < ROUTE_TABLE_MAX_ID)"

definition cache_ok :: "(nat \<Rightarrow> cache_entry) \<Rightarrow> bool" where
  "cache_ok c \<longleftrightarrow> (\<forall>i. valid (c i) \<longrightarrow> croute (c i) \<noteq> NullRoute \<and> i = route_cache_hash (cdst (c i)) (csrc (c i)))"

definition route_ok :: "route_sys \<Rightarrow> bool" where
  "route_ok s \<longleftrightarrow> (\<forall>k. table_ok (tables s k)) \<and> policies_ok (policies s) \<and> cache_ok (cache s)"

lemma table_ok_add:
  assumes "table_ok es" and "\<forall>e \<in> set es. \<not> same_prefix dest netmask e" and "length es < ROUTE_TABLE_MAX"
    and "rdest e = dest" and "rmask e = netmask"
  shows "table_ok (es @ [e])"
  using assms by (auto simp: table_ok_def same_prefix_def)

lemma table_ok_update:
  assumes "table_ok es" and "i < length es" and "rdest e = rdest (es ! i)" and "rmask e = rmask (es ! i)"
  shows "table_ok (es[i := e])"
proof -
  have "map (\<lambda>e. (rdest e, rmask e)) (es[i := e]) = map (\<lambda>e. (rdest e, rmask e)) es"
    using assms(2-4) by (simp add: map_update list_update_same_conv)
  with assms(1) show ?thesis by (simp add: table_ok_def)
qed

lemma table_ok_remove: "table_ok es \<Longrightarrow> i < length es \<Longrightarrow> table_ok (remove_nth i es)"
  by (auto simp: table_ok_def map_remove_nth distinct_remove_nth)

lemma table_ok_filter: "table_ok es \<Longrightarrow> table_ok (filter P es)"
  by (auto simp: table_ok_def distinct_map_filter intro: le_trans [OF length_filter_le])

lemma sorted_wrt_insert_at:
  "sorted_wrt R (xs @ ys) \<Longrightarrow> \<forall>x \<in> set xs. R x z \<Longrightarrow> \<forall>y \<in> set ys. R z y \<Longrightarrow> sorted_wrt R (xs @ z # ys)"
  by (simp add: sorted_wrt_append)

lemma policies_ok_insert:
  assumes "policies_ok ps" and "length ps < ROUTE_POLICY_MAX" and "\<forall>p \<in> set ps. priority p \<noteq> priority np"
    and "unat (table_id np) < ROUTE_TABLE_MAX_ID"
  shows "policies_ok (takeWhile (\<lambda>p. priority p < priority np) ps @ np # dropWhile (\<lambda>p. priority p < priority np) ps)"
proof -
  define xs where "xs = takeWhile (\<lambda>p. priority p < priority np) ps"
  define ys where "ys = dropWhile (\<lambda>p. priority p < priority np) ps"
  have ps: "ps = xs @ ys" by (simp add: xs_def ys_def)
  have sorted: "sorted_wrt (\<lambda>p q. priority p < priority q) (xs @ ys)"
    using assms(1) by (simp add: policies_ok_def sorted_wrt_map flip: ps)
  have xs: "\<forall>p \<in> set xs. priority p < priority np" by (auto simp: xs_def dest: set_takeWhileD)
  have ys: "\<forall>p \<in> set ys. priority np < priority p"
  proof (cases ys)
    case (Cons q qs)
    then have "\<not> priority q < priority np"
      using hd_dropWhile [of "\<lambda>p. priority p < priority np" ps] by (simp add: ys_def)
    moreover have "priority q \<noteq> priority np" using assms(3) ps Cons by simp
    ultimately have "priority np < priority q" by simp
    moreover have "\<forall>p \<in> set qs. priority q < priority p" using sorted Cons by (simp add: sorted_wrt_append)
    ultimately show ?thesis using Cons by auto
  qed simp
  have "sorted_wrt (<) (map priority (xs @ np # ys))"
    unfolding sorted_wrt_map by (rule sorted_wrt_insert_at [OF sorted xs ys])
  then show ?thesis
    using assms(1, 2, 4) unfolding xs_def [symmetric] ys_def [symmetric] by (auto simp: policies_ok_def ps)
qed

lemma policies_ok_update:
  assumes "policies_ok ps" and "i < length ps" and "priority np = priority (ps ! i)" and "unat (table_id np) < ROUTE_TABLE_MAX_ID"
  shows "policies_ok (ps[i := np])"
proof -
  have "map priority (ps[i := np]) = map priority ps" using assms(2, 3) by (simp add: map_update list_update_same_conv)
  moreover have "set (ps[i := np]) \<subseteq> insert np (set ps)" by (rule set_update_subset_insert)
  ultimately show ?thesis using assms(1, 4) by (auto simp: policies_ok_def)
qed

lemma policies_ok_remove:
  assumes "policies_ok ps" and "i < length ps"
  shows "policies_ok (remove_nth i ps)"
proof -
  have "sorted_wrt (\<lambda>p q. priority p < priority q) (take i ps @ ps ! i # drop (Suc i) ps)"
    using assms remove_nth_split [OF assms(2)] by (simp add: policies_ok_def sorted_wrt_map)
  then have "sorted_wrt (\<lambda>p q. priority p < priority q) (remove_nth i ps)"
    by (simp add: remove_nth_def sorted_wrt_append)
  with assms set_remove_nth [of i ps] show ?thesis by (auto simp: policies_ok_def sorted_wrt_map)
qed

text \<open>The calls of the component; \<open>ifs\<close> are the interfaces.\<close>

datatype route_call =
    AddToTable u32 u32 u32 u32 u32 u32 u32
  | DeleteFromTable u32 u32 u32
  | PurgeDynamic
  | AddPolicy bool u32 u32 u32 u32 u32
  | DelPolicy u32
  | LookupPolicy u32 u32 u32 u32
  | Lookup u32
  | Resolve u32
  | InstallDefaults u32
  | CacheLookup u32 u32
  | CacheInsert u32 u32 route_ptr
  | CacheFlush

fun route_exec :: "(u32 \<Rightarrow> net_interface) \<Rightarrow> route_sys \<Rightarrow> route_call \<Rightarrow> route_sys" where
  "route_exec ifs s (AddToTable t d m g i w f) = snd (route_add_to_table s t d m g i w f)"
| "route_exec ifs s (DeleteFromTable t d m) = snd (route_delete_from_table s t d m)"
| "route_exec ifs s PurgeDynamic = route_purge_dynamic s"
| "route_exec ifs s (AddPolicy ok p t v m k) = snd (route_add_policy ok s p t v m k)"
| "route_exec ifs s (DelPolicy p) = snd (route_del_policy s p)"
| "route_exec ifs s (LookupPolicy src dst tos fw) = snd (route_lookup_policy s src dst tos fw)"
| "route_exec ifs s (Lookup dst) = snd (route_lookup s dst)"
| "route_exec ifs s (Resolve dst) = snd (route_resolve ifs s dst)"
| "route_exec ifs s (InstallDefaults i) = snd (route_install_iface_defaults ifs s i)"
| "route_exec ifs s (CacheLookup dst src) = snd (route_cache_lookup s dst src)"
| "route_exec ifs s (CacheInsert dst src r) = route_cache_insert s dst src r"
| "route_exec ifs s CacheFlush = route_cache_flush s"

lemma route_ok_table:
  "route_ok s \<Longrightarrow> table_ok es \<Longrightarrow> route_ok (upd_table s k es f)"
  by (simp add: route_ok_def upd_table_def)

lemma add_to_table_ok:
  assumes "route_ok s"
  shows "route_ok (snd (route_add_to_table s t d m g i w f))"
proof -
  have "table_ok (tables s (unat t))" using assms by (simp add: route_ok_def)
  with assms show ?thesis
    by (auto simp: route_add_to_table_def Let_def split: option.split
        intro!: route_ok_table table_ok_add table_ok_update dest: find_index_SomeD)
qed

lemma delete_from_table_ok:
  assumes "route_ok s"
  shows "route_ok (snd (route_delete_from_table s t d m))"
proof -
  have "table_ok (tables s (unat t))" using assms by (simp add: route_ok_def)
  with assms show ?thesis
    by (auto simp: route_delete_from_table_def Let_def split: option.split
        intro!: route_ok_table table_ok_remove dest: find_index_SomeD)
qed

lemma add_policy_ok:
  assumes "route_ok s"
  shows "route_ok (snd (route_add_policy ok s p t v m k))"
proof -
  let ?np = "\<lparr>priority = p, match_type = t, match_value = v, match_mask = m, table_id = k\<rparr>"
  have ok: "policies_ok (policies s)" using assms by (simp add: route_ok_def)
  show ?thesis
    using assms policies_ok_insert [OF ok, of ?np] policies_ok_update [OF ok, of _ ?np]
    by (auto simp: route_add_policy_def Let_def route_ok_def split: option.split dest: find_index_SomeD)
qed

lemma del_policy_ok: "route_ok s \<Longrightarrow> route_ok (snd (route_del_policy s p))"
  by (auto simp: route_del_policy_def route_ok_def policies_ok_remove split: option.split dest: find_index_SomeD)

lemma cache_lookup_ok: "route_ok s \<Longrightarrow> route_ok (snd (route_cache_lookup s dst src))"
  by (auto simp: route_cache_lookup_def Let_def route_ok_def cache_ok_def)

lemma cache_insert_ok: "route_ok s \<Longrightarrow> route_ok (route_cache_insert s dst src r)"
  by (auto simp: route_cache_insert_def Let_def route_ok_def cache_ok_def)

lemma bump_ok [simp]: "route_ok (bump f s) \<longleftrightarrow> route_ok s"
  by (simp add: bump_def route_ok_def)

lemma storage_ok [simp]: "route_ok (s\<lparr>storage := m\<rparr>) \<longleftrightarrow> route_ok s"
  by (simp add: route_ok_def)

lemma rstats_ok [simp]: "route_ok (s\<lparr>rstats := st\<rparr>) \<longleftrightarrow> route_ok s"
  by (simp add: route_ok_def)

lemma lookup_policies_ok: "route_ok s \<Longrightarrow> route_ok (snd (lookup_policies s src dst tos fw ps))"
  by (induction s src dst tos fw ps rule: lookup_policies.induct) (simp_all add: Let_def)

lemma lookup_ok: "route_ok s \<Longrightarrow> route_ok (snd (route_lookup s dst))"
  by (simp add: route_lookup_def route_lookup_policy_def Let_def case_prod_unfold cache_lookup_ok lookup_policies_ok
      cache_insert_ok)

lemma install_defaults_ok: "route_ok s \<Longrightarrow> route_ok (snd (route_install_iface_defaults ifs s i))"
  by (simp add: route_install_iface_defaults_def route_add_def Let_def case_prod_unfold add_to_table_ok)

interpretation route_calls: call_system "route_exec ifs" "\<lambda>_. True" route_ok for ifs
proof unfold_locales
  fix s c
  assume ok: "route_ok s"
  then have "route_ok (route_purge_dynamic s)"
    by (auto simp: route_purge_dynamic_def Let_def route_ok_def intro!: route_ok_table [unfolded route_ok_def] table_ok_filter)
  moreover have "route_ok (route_cache_flush s)" using ok by (simp add: route_cache_flush_def route_ok_def cache_ok_def zero_cache_def)
  moreover have "route_ok (snd (route_resolve ifs s d))" for d
    using lookup_ok [OF ok, of d] by (cases "route_lookup s d") (simp add: route_resolve_def)
  ultimately show "route_ok (route_exec ifs s c)"
    using ok by (cases c) (simp_all add: add_to_table_ok delete_from_table_ok add_policy_ok del_policy_ok cache_lookup_ok
      cache_insert_ok lookup_policies_ok route_lookup_policy_def lookup_ok install_defaults_ok)
qed

text \<open>C10: the tables stay well formed. After initialisation and any sequence of calls every table has at
  most 64 routes and never two for the same prefix, the policies are sorted by a strictly increasing
  priority, at most 32 and each selects an existing table, and every valid cache entry is in the slot of
  its own addresses and has a route.\<close>
theorem route_state_ok:
  "route_ok (run_calls (route_exec ifs) (route_init s) cs)"
proof -
  have "route_ok (route_init s)"
    by (simp add: route_init_def route_ok_def table_ok_def policies_ok_def cache_ok_def zero_cache_def)
  then show ?thesis using route_calls.run_keeps [of "route_init s" cs ifs] by (simp add: list_all_iff)
qed

subsection \<open>Longest prefix match\<close>





text \<open>Two subnets on two interfaces.\<close>

definition two_routes :: route_sys where
  "two_routes =
     \<lparr>tables = (\<lambda>_. [])(0 :=
        [\<lparr>rdest = 0x0A000000, rmask = 0xFF000000, rgateway = 0, riface = 0xC0001000, rmetric = 0, rflags = ROUTE_FLAG_UP\<rparr>,
         \<lparr>rdest = 0xC0A80000, rmask = 0xFFFF0000, rgateway = 0, riface = 0xC0002000, rmetric = 0, rflags = ROUTE_FLAG_UP\<rparr>]),
      policies = [], cache = (\<lambda>_. zero_cache), cache_time = 0, rstats = zero_rstats, storage = (\<lambda>_. zero_route)\<rparr>"



subsection \<open>The shared cache entry\<close>

text \<open>A lookup that neither the cache nor a policy answers.\<close>

lemma route_lookup_miss:
  assumes "policies s = []" and "\<not> (valid (cache s (route_cache_hash dst 0)) \<and> cdst (cache s (route_cache_hash dst 0)) = dst)"
    and "riface (route_lookup_table s 0 dst) \<noteq> 0" and "route_lookup s dst = (r, s')"
  shows "r = route_lookup_table s 0 dst \<and> storage s' CacheStorage = r \<and> tables s' = tables s \<and> policies s' = [] \<and>
    cache s' = (cache s)(route_cache_hash dst 0 :=
      \<lparr>cdst = dst, csrc = 0, croute = CacheStorage, last_used = cache_time s + 1, valid = True\<rparr>)"
proof -
  have "route_lookup_table (t\<lparr>rstats := x\<rparr>) k d = route_lookup_table t k d" for t x k d
    by (simp add: route_lookup_table_def)
  then show ?thesis
    using assms by (auto simp: route_lookup_def route_cache_lookup_def route_lookup_policy_def route_cache_insert_def bump_def Let_def)
qed

text \<open>cached routes overwrite each other. All cache entries of main-table routes point to one static
  variable: after a lookup of a second destination the cached answer for the first is the route of the
  second.\<close>
theorem route_cache_shared:
  assumes "policies s = []" and "route_cache_hash d1 0 \<noteq> route_cache_hash d2 0"
    and "\<not> valid (cache s (route_cache_hash d1 0))" and "\<not> valid (cache s (route_cache_hash d2 0))"
    and "riface (route_lookup_table s 0 d1) \<noteq> 0" and "riface (route_lookup_table s 0 d2) \<noteq> 0"
    and one: "route_lookup s d1 = (r1, s1)" and two: "route_lookup s1 d2 = (r2, s2)" and three: "route_lookup s2 d1 = (r3, s3)"
  shows "r1 = route_lookup_table s 0 d1 \<and> r2 = route_lookup_table s 0 d2 \<and> r3 = r2"
proof -
  note 1 = route_lookup_miss [OF assms(1) _ assms(5) one]
  have same: "route_lookup_table s1 0 d2 = route_lookup_table s 0 d2" using 1 assms(3) by (simp add: route_lookup_table_def)
  have "route_lookup_table s1 0 d2 = r2 \<and> storage s2 CacheStorage = r2 \<and>
      cache s2 (route_cache_hash d1 0) = \<lparr>cdst = d1, csrc = 0, croute = CacheStorage, last_used = cache_time s + 1, valid = True\<rparr>"
    using route_lookup_miss [of s1 d2 r2 s2] 1 assms(2-4, 6) same two by simp
  then show ?thesis
    using 1 same assms(3) three by (auto simp: route_lookup_def route_cache_lookup_def bump_def Let_def)
qed

theorem route_cache_shared_witness:
  "riface (fst (route_lookup two_routes 0x0A000001)) = 0xC0001000 \<and>
   riface (fst (route_lookup (snd (route_lookup (snd (route_lookup two_routes 0x0A000001)) 0xC0A80002)) 0x0A000001)) = 0xC0002000"
proof -
  have t: "riface (route_lookup_table two_routes 0 0x0A000001) = 0xC0001000"
    "riface (route_lookup_table two_routes 0 0xC0A80002) = 0xC0002000"
    by (simp_all add: route_lookup_table_def two_routes_def better_route_def route_matches_def)
  have h: "policies two_routes = []" "route_cache_hash 0x0A000001 0 \<noteq> route_cache_hash 0xC0A80002 0" "\<not> valid (cache two_routes k)" for k
    by (simp_all add: two_routes_def route_cache_hash_def zero_cache_def)
  obtain r1 s1 r2 s2 r3 s3 where "route_lookup two_routes 0x0A000001 = (r1, s1)" "route_lookup s1 0xC0A80002 = (r2, s2)"
    "route_lookup s2 0x0A000001 = (r3, s3)" by (meson surj_pair)
  with route_cache_shared [OF h(1, 2) h(3) h(3) _ _ this] t show ?thesis by simp
qed

end
