(* ===== verification/Slip.thy ===== *)
theory Slip
  imports Prelude
begin

text \<open>
  Packets over a serial line, \<open>net/slip.c\<close>. The port is hardware: what is sent is the list of bytes written
  to it, and a receiver sees the list of bytes that are ready. The receive buffer has 2048 bytes.
\<close>

record slip =
  slip_rx_buf :: "u8 list"
  slip_rx_escaped :: bool
  slip_initialized :: bool

abbreviation "SLIP_END \<equiv> 0xC0 :: u8"
abbreviation "SLIP_ESC \<equiv> 0xDB :: u8"
abbreviation "SLIP_ESC_END \<equiv> 0xDC :: u8"
abbreviation "SLIP_ESC_ESC \<equiv> 0xDD :: u8"
abbreviation "SLIP_BUF_SIZE \<equiv> 2048 :: nat"

text \<open>Initialisation, with the writes to the ports of the serial chip.\<close>

definition slip_init :: "slip \<Rightarrow> slip \<times> (u16 \<times> u8) list" where
  "slip_init s =
     (s\<lparr>slip_rx_buf := [], slip_rx_escaped := False, slip_initialized := True\<rparr>,
      [(0x3F9, 0x00), (0x3FB, 0x80), (0x3F8, 0x01), (0x3F9, 0x00), (0x3FB, 0x03), (0x3FA, 0xC7), (0x3FC, 0x0B)])"

definition slip_escape :: "u8 \<Rightarrow> u8 list" where
  "slip_escape b =
     (if b = SLIP_END then [SLIP_ESC, SLIP_ESC_END] else if b = SLIP_ESC then [SLIP_ESC, SLIP_ESC_ESC] else [b])"

text \<open>The result and the bytes written; \<open>None\<close> is a NULL buffer.\<close>

definition slip_send :: "slip \<Rightarrow> u8 list option \<Rightarrow> int \<times> u8 list" where
  "slip_send s buf =
     (case buf of
        None \<Rightarrow> (-1, [])
      | Some p \<Rightarrow> if p = [] \<or> \<not> slip_initialized s then (-1, [])
                  else (int (length p), SLIP_END # concat (map slip_escape p) @ [SLIP_END]))"

text \<open>The receive loop over the bytes that are ready: a finished packet, the state, and the bytes not yet read.\<close>

fun slip_recv_loop :: "slip \<Rightarrow> u8 list \<Rightarrow> u8 list option \<times> slip \<times> u8 list" where
  "slip_recv_loop s [] = (None, s, [])"
| "slip_recv_loop s (c # cs) =
     (if c = SLIP_END
      then (if length (slip_rx_buf s) > 0 then (Some (slip_rx_buf s), s\<lparr>slip_rx_buf := [], slip_rx_escaped := False\<rparr>, cs)
            else slip_recv_loop (s\<lparr>slip_rx_escaped := False\<rparr>) cs)
      else if c = SLIP_ESC then slip_recv_loop (s\<lparr>slip_rx_escaped := True\<rparr>) cs
      else let c' = (if slip_rx_escaped s
                     then (if c = SLIP_ESC_END then SLIP_END else if c = SLIP_ESC_ESC then SLIP_ESC else c) else c);
               s1 = s\<lparr>slip_rx_escaped := False\<rparr> in
           slip_recv_loop (if length (slip_rx_buf s1) < SLIP_BUF_SIZE then s1\<lparr>slip_rx_buf := slip_rx_buf s1 @ [c']\<rparr> else s1) cs)"

text \<open>The result, the bytes copied to the caller, the state and the bytes not yet read.\<close>

definition slip_recv :: "slip \<Rightarrow> bool \<Rightarrow> nat \<Rightarrow> u8 list \<Rightarrow> int \<times> u8 list \<times> slip \<times> u8 list" where
  "slip_recv s buf_null maxlen line =
     (if buf_null \<or> maxlen = 0 \<or> \<not> slip_initialized s then (-1, [], s, line)
      else case slip_recv_loop s line of
             (Some p, s', rest) \<Rightarrow> (int (length (take maxlen p)), take maxlen p, s', rest)
           | (None, s', rest) \<Rightarrow> (0, [], s', rest))"

text \<open>Between two bytes of a packet nothing is escaped; what does not fit is dropped.\<close>

lemma recv_escaped:
  "\<not> slip_rx_escaped s \<Longrightarrow> length (slip_rx_buf s) \<le> SLIP_BUF_SIZE \<Longrightarrow>
     slip_recv_loop s (slip_escape b @ cs) = slip_recv_loop (s\<lparr>slip_rx_buf := take SLIP_BUF_SIZE (slip_rx_buf s @ [b])\<rparr>) cs"
  by (cases s) (auto simp: slip_escape_def Let_def)

lemma recv_body:
  "\<not> slip_rx_escaped s \<Longrightarrow> length (slip_rx_buf s) \<le> SLIP_BUF_SIZE \<Longrightarrow>
     slip_recv_loop s (concat (map slip_escape p) @ cs) = slip_recv_loop (s\<lparr>slip_rx_buf := take SLIP_BUF_SIZE (slip_rx_buf s @ p)\<rparr>) cs"
proof (induction p arbitrary: s)
  case (Cons b p)
  have "take n (take n (xs @ [b]) @ p) = take n (xs @ b # p)" for n xs by (simp add: take_Cons' min_def)
  moreover have "slip_recv_loop s (concat (map slip_escape (b # p)) @ cs) =
      slip_recv_loop (s\<lparr>slip_rx_buf := take SLIP_BUF_SIZE (slip_rx_buf s @ [b])\<rparr>) (concat (map slip_escape p) @ cs)"
    using recv_escaped [OF Cons.prems, of b "concat (map slip_escape p) @ cs"] by (simp del: take_append)
  ultimately show ?case
    using Cons.IH [of "s\<lparr>slip_rx_buf := take SLIP_BUF_SIZE (slip_rx_buf s @ [b])\<rparr>"] Cons.prems by (simp del: take_append)
qed simp

lemma recv_packet:
  assumes "slip_rx_buf s = []" and "slip_initialized s" and "p \<noteq> []" and "0 < n"
  shows "slip_recv s False n (snd (slip_send s (Some p)) @ cs) =
    (int (length (take (min n SLIP_BUF_SIZE) p)), take (min n SLIP_BUF_SIZE) p, s\<lparr>slip_rx_buf := [], slip_rx_escaped := False\<rparr>, cs)"
proof -
  have "slip_recv_loop s (snd (slip_send s (Some p)) @ cs) =
      slip_recv_loop (s\<lparr>slip_rx_escaped := False, slip_rx_buf := take SLIP_BUF_SIZE p\<rparr>) (SLIP_END # cs)"
    using assms recv_body [of "s\<lparr>slip_rx_escaped := False\<rparr>" p "SLIP_END # cs"] by (simp add: slip_send_def)
  then show ?thesis using assms by (simp add: slip_recv_def)
qed

fun slip_recv_all :: "nat \<Rightarrow> slip \<Rightarrow> nat \<Rightarrow> u8 list \<Rightarrow> u8 list list" where
  "slip_recv_all 0 s n line = []"
| "slip_recv_all (Suc k) s n line = (case slip_recv s False n line of (r, p, s', rest) \<Rightarrow> p # slip_recv_all k s' n rest)"

text \<open>C20: packets sent over the line arrive as they were sent. For every sequence of non-empty packets the
  receiver, called once for each, returns their contents in order, each cut to the buffer of 2048 bytes
  and to the size the caller gave, whatever bytes they contain.\<close>
theorem slip_roundtrip:
  assumes "slip_rx_buf s = []" and "slip_initialized s" and "[] \<notin> set ps" and "0 < n"
  shows "slip_recv_all (length ps) s n (concat (map (\<lambda>p. snd (slip_send s (Some p))) ps)) = map (take (min n SLIP_BUF_SIZE)) ps"
  using assms
proof (induction ps arbitrary: s)
  case (Cons p ps)
  let ?s = "s\<lparr>slip_rx_buf := [], slip_rx_escaped := False\<rparr>"
  have "slip_send ?s = slip_send s" by (simp add: slip_send_def fun_eq_iff split: option.split)
  moreover have "p \<noteq> []" using Cons.prems(3) by auto
  ultimately show ?case using Cons.IH [of ?s] recv_packet [of s p n] Cons.prems by simp
qed simp

theorem slip_roundtrip_witness:
  "slip_recv_all (Suc (Suc 0)) (fst (slip_init \<lparr>slip_rx_buf = [1], slip_rx_escaped = True, slip_initialized = False\<rparr>)) 64
     ([0xC0, 1, 0xDB, 0xDC, 0xC0] @ [0xC0, 0xDB, 0xDD, 7, 0xC0]) = [[1, 0xC0], [0xDB, 7]]"
proof -
  let ?s = "fst (slip_init \<lparr>slip_rx_buf = [1], slip_rx_escaped = True, slip_initialized = False\<rparr>)"
  have "slip_rx_buf ?s = []" "slip_initialized ?s" by (simp_all add: slip_init_def)
  from slip_roundtrip [OF this, of "[[1, 0xC0], [0xDB, 7]]" 64] show ?thesis
    by (simp add: slip_init_def slip_send_def slip_escape_def del: slip_recv_all.simps)
qed

end
