(* ===== verification/RbHeap.thy ===== *)
theory RbHeap
  imports Interfaces "HOL-Library.While_Combinator"
begin

text \<open>
  Red-black trees of linked nodes, for the two copies of the algorithm in the system,
  \<open>lib/rbtree.c\<close> and \<open>kernel/sched_cfs.c\<close>. Memory maps addresses to nodes, 0 is NULL. The rotations are here,
  together with the trees and contexts that describe the memory, the balance of a tree, and the contract
  of the loop that restores it after an insertion. A loop over nodes is \<^const>\<open>while_option\<close>: \<open>None\<close> when it does
  not end.
\<close>

subsection \<open>Nodes and rotations\<close>

record rb_node =
  rb_parent :: u32
  rb_left :: u32
  rb_right :: u32
  rb_color :: u32

type_synonym 'a rb_mem = "u32 \<Rightarrow> 'a rb_node_scheme"

abbreviation "RB_RED \<equiv> 0 :: u32"
abbreviation "RB_BLACK \<equiv> 1 :: u32"

definition set_parent :: "'a rb_mem \<Rightarrow> u32 \<Rightarrow> u32 \<Rightarrow> 'a rb_mem" where
  "set_parent h a v = h(a := (h a)\<lparr>rb_parent := v\<rparr>)"

definition set_left :: "'a rb_mem \<Rightarrow> u32 \<Rightarrow> u32 \<Rightarrow> 'a rb_mem" where
  "set_left h a v = h(a := (h a)\<lparr>rb_left := v\<rparr>)"

definition set_right :: "'a rb_mem \<Rightarrow> u32 \<Rightarrow> u32 \<Rightarrow> 'a rb_mem" where
  "set_right h a v = h(a := (h a)\<lparr>rb_right := v\<rparr>)"

definition set_color :: "'a rb_mem \<Rightarrow> u32 \<Rightarrow> u32 \<Rightarrow> 'a rb_mem" where
  "set_color h a v = h(a := (h a)\<lparr>rb_color := v\<rparr>)"

lemmas set_defs = set_parent_def set_left_def set_right_def set_color_def

lemma set_fields [simp]:
  "rb_parent (set_parent h a v b) = (if b = a then v else rb_parent (h b))"
  "rb_left (set_parent h a v b) = rb_left (h b)"
  "rb_right (set_parent h a v b) = rb_right (h b)"
  "rb_color (set_parent h a v b) = rb_color (h b)"
  "rb_parent (set_left h a v b) = rb_parent (h b)"
  "rb_left (set_left h a v b) = (if b = a then v else rb_left (h b))"
  "rb_right (set_left h a v b) = rb_right (h b)"
  "rb_color (set_left h a v b) = rb_color (h b)"
  "rb_parent (set_right h a v b) = rb_parent (h b)"
  "rb_left (set_right h a v b) = rb_left (h b)"
  "rb_right (set_right h a v b) = (if b = a then v else rb_right (h b))"
  "rb_color (set_right h a v b) = rb_color (h b)"
  "rb_parent (set_color h a v b) = rb_parent (h b)"
  "rb_left (set_color h a v b) = rb_left (h b)"
  "rb_right (set_color h a v b) = rb_right (h b)"
  "rb_color (set_color h a v b) = (if b = a then v else rb_color (h b))"
  by (simp_all add: set_defs)

lemma set_more [simp]:
  "rb_node.more (set_parent h a v b) = rb_node.more (h b)"
  "rb_node.more (set_left h a v b) = rb_node.more (h b)"
  "rb_node.more (set_right h a v b) = rb_node.more (h b)"
  "rb_node.more (set_color h a v b) = rb_node.more (h b)"
  by (simp_all add: set_defs)

definition rot_left :: "'a rb_mem \<times> u32 \<Rightarrow> u32 \<Rightarrow> 'a rb_mem \<times> u32" where
  "rot_left hr x =
     (let (h, root) = hr;
          y = rb_right (h x);
          h1 = set_right h x (rb_left (h y));
          h2 = (if rb_left (h1 y) \<noteq> 0 then set_parent h1 (rb_left (h1 y)) x else h1);
          h3 = set_parent h2 y (rb_parent (h2 x));
          p = rb_parent (h3 x);
          (h4, root') = (if p = 0 then (h3, y)
                         else if x = rb_left (h3 p) then (set_left h3 p y, root)
                         else (set_right h3 p y, root))
      in (set_parent (set_left h4 y x) x y, root'))"

definition rot_right :: "'a rb_mem \<times> u32 \<Rightarrow> u32 \<Rightarrow> 'a rb_mem \<times> u32" where
  "rot_right hr x =
     (let (h, root) = hr;
          y = rb_left (h x);
          h1 = set_left h x (rb_right (h y));
          h2 = (if rb_right (h1 y) \<noteq> 0 then set_parent h1 (rb_right (h1 y)) x else h1);
          h3 = set_parent h2 y (rb_parent (h2 x));
          p = rb_parent (h3 x);
          (h4, root') = (if p = 0 then (h3, y)
                         else if x = rb_right (h3 p) then (set_right h3 p y, root)
                         else (set_left h3 p y, root))
      in (set_parent (set_right h4 y x) x y, root'))"

subsection \<open>Trees and contexts in memory\<close>

datatype rbt = E | T rbt u32 u32 rbt

datatype frame = FL u32 u32 rbt | FR rbt u32 u32

fun addr :: "rbt \<Rightarrow> u32" where
  "addr E = 0"
| "addr (T l a c r) = a"

fun faddr :: "frame \<Rightarrow> u32" where
  "faddr (FL a c r) = a"
| "faddr (FR l a c) = a"

fun fcolor :: "frame \<Rightarrow> u32" where
  "fcolor (FL a c r) = c"
| "fcolor (FR l a c) = c"

fun caddr :: "frame list \<Rightarrow> u32" where
  "caddr [] = 0"
| "caddr (f # fs) = faddr f"

fun nodes :: "rbt \<Rightarrow> u32 list" where
  "nodes E = []"
| "nodes (T l a c r) = nodes l @ a # nodes r"

fun wrap :: "rbt \<Rightarrow> frame \<Rightarrow> rbt" where
  "wrap t (FL a c r) = T t a c r"
| "wrap t (FR l a c) = T l a c t"

fun plug :: "rbt \<Rightarrow> frame list \<Rightarrow> rbt" where
  "plug t [] = t"
| "plug t (f # fs) = plug (wrap t f) fs"

text \<open>The nodes to the left and to the right of the hole.\<close>

fun nodes_l :: "frame list \<Rightarrow> u32 list" where
  "nodes_l [] = []"
| "nodes_l (FL a c r # fs) = nodes_l fs"
| "nodes_l (FR l a c # fs) = nodes_l fs @ nodes l @ [a]"

fun nodes_r :: "frame list \<Rightarrow> u32 list" where
  "nodes_r [] = []"
| "nodes_r (FL a c r # fs) = a # nodes r @ nodes_r fs"
| "nodes_r (FR l a c # fs) = nodes_r fs"

lemma nodes_plug: "nodes (plug t fs) = nodes_l fs @ nodes t @ nodes_r fs"
proof (induction fs arbitrary: t)
  case (Cons f fs)
  then show ?case by (cases f) simp_all
qed simp

fun tree_at :: "'a rb_mem \<Rightarrow> u32 \<Rightarrow> rbt \<Rightarrow> bool" where
  "tree_at h p E \<longleftrightarrow> True"
| "tree_at h p (T l a c r) \<longleftrightarrow>
     a \<noteq> 0 \<and> rb_parent (h a) = p \<and> rb_left (h a) = addr l \<and> rb_right (h a) = addr r \<and> rb_color (h a) = c \<and>
     tree_at h a l \<and> tree_at h a r"

fun ctx_at :: "'a rb_mem \<Rightarrow> u32 \<Rightarrow> u32 \<Rightarrow> frame list \<Rightarrow> bool" where
  "ctx_at h root q [] \<longleftrightarrow> root = q"
| "ctx_at h root q (FL a c r # fs) \<longleftrightarrow>
     a \<noteq> 0 \<and> rb_parent (h a) = caddr fs \<and> rb_left (h a) = q \<and> rb_right (h a) = addr r \<and> rb_color (h a) = c \<and>
     tree_at h a r \<and> ctx_at h root a fs"
| "ctx_at h root q (FR l a c # fs) \<longleftrightarrow>
     a \<noteq> 0 \<and> rb_parent (h a) = caddr fs \<and> rb_left (h a) = addr l \<and> rb_right (h a) = q \<and> rb_color (h a) = c \<and>
     tree_at h a l \<and> ctx_at h root a fs"

definition zip_at :: "'a rb_mem \<Rightarrow> u32 \<Rightarrow> rbt \<Rightarrow> frame list \<Rightarrow> bool" where
  "zip_at h root t fs \<longleftrightarrow>
     tree_at h (caddr fs) t \<and> ctx_at h root (addr t) fs \<and> distinct (nodes_l fs @ nodes t @ nodes_r fs)"

abbreviation fnodes :: "frame list \<Rightarrow> u32 set" where
  "fnodes fs \<equiv> set (nodes_l fs) \<union> set (nodes_r fs)"

lemma addr_wrap [simp]: "addr (wrap t f) = faddr f"
  by (cases f) simp_all

lemma zip_at_unzip: "zip_at h root t fs \<longleftrightarrow> zip_at h root (plug t fs) []"
proof -
  have "tree_at h (caddr fs) t \<and> ctx_at h root (addr t) fs \<longleftrightarrow> tree_at h 0 (plug t fs) \<and> root = addr (plug t fs)"
  proof (induction fs arbitrary: t)
    case (Cons f fs)
    show ?case using Cons.IH [of "wrap t f", symmetric] by (cases f) auto
  qed auto
  then show ?thesis by (auto simp: zip_at_def nodes_plug)
qed

lemma addr_in_nodes: "addr t \<noteq> 0 \<Longrightarrow> addr t \<in> set (nodes t)"
  by (cases t) simp_all

lemma addr_zero: "tree_at h p t \<Longrightarrow> addr t = 0 \<longleftrightarrow> t = E"
  by (cases t) simp_all

lemma nodes_nonzero: "tree_at h p t \<Longrightarrow> 0 \<notin> set (nodes t)"
  by (induction t arbitrary: p) auto

lemma parent_nonzero: "tree_at h p t \<Longrightarrow> p \<noteq> 0 \<Longrightarrow> a \<in> set (nodes t) \<Longrightarrow> rb_parent (h a) \<noteq> 0"
  by (induction t arbitrary: p) auto

lemma ctx_nonzero: "ctx_at h root q fs \<Longrightarrow> 0 \<notin> fnodes fs"
  by (induction h root q fs rule: ctx_at.induct) (auto dest: nodes_nonzero)

lemma caddr_in: "fs \<noteq> [] \<Longrightarrow> caddr fs \<in> fnodes fs"
  by (cases fs; cases "hd fs") auto

lemma tree_at_cong: "(\<And>a. a \<in> set (nodes t) \<Longrightarrow> h' a = h a) \<Longrightarrow> tree_at h' p t \<longleftrightarrow> tree_at h p t"
  by (induction t arbitrary: p) auto

lemma ctx_at_cong: "(\<And>a. a \<in> fnodes fs \<Longrightarrow> h' a = h a) \<Longrightarrow> ctx_at h' root q fs \<longleftrightarrow> ctx_at h root q fs"
proof (induction fs arbitrary: q)
  case (Cons f fs)
  then show ?case by (cases f) (auto cong: tree_at_cong)
qed simp

lemma tree_at_upd [simp]: "a \<notin> set (nodes t) \<Longrightarrow> tree_at (h(a := n)) p t \<longleftrightarrow> tree_at h p t"
  by (rule tree_at_cong) auto

lemma ctx_at_upd [simp]: "a \<notin> set (nodes_l fs) \<Longrightarrow> a \<notin> set (nodes_r fs) \<Longrightarrow> ctx_at (h(a := n)) root q fs \<longleftrightarrow> ctx_at h root q fs"
  by (rule ctx_at_cong) auto

lemma addr_not_in: "a \<notin> set (nodes t) \<Longrightarrow> a \<noteq> 0 \<Longrightarrow> addr t \<noteq> a"
  by (cases t) auto

lemma tree_reparent:
  assumes "tree_at h p t" and "distinct (nodes t)" and "\<And>a. a \<in> set (nodes t) \<Longrightarrow> a \<noteq> addr t \<Longrightarrow> h' a = h a"
    and "t \<noteq> E \<Longrightarrow> h' (addr t) = (h (addr t))\<lparr>rb_parent := q\<rparr>"
  shows "tree_at h' q t"
proof (cases t)
  case (T l a c r)
  with assms(2, 3) have "h' b = h b" if "b \<in> set (nodes l) \<union> set (nodes r)" for b using that by auto
  then have "tree_at h' a l = tree_at h a l" "tree_at h' a r = tree_at h a r" by (auto intro!: tree_at_cong)
  with T assms(1, 4) show ?thesis by simp
qed simp

lemma ctx_relink:
  assumes "ctx_at h root q fs" and "distinct (nodes_l fs @ nodes_r fs)" and "q \<noteq> 0" and "q \<notin> fnodes fs"
    and "\<And>a. a \<in> fnodes fs \<Longrightarrow> a \<noteq> caddr fs \<Longrightarrow> h' a = h a"
    and "fs \<noteq> [] \<Longrightarrow> h' (caddr fs) = (if rb_left (h (caddr fs)) = q then (h (caddr fs))\<lparr>rb_left := q'\<rparr> else (h (caddr fs))\<lparr>rb_right := q'\<rparr>)"
  shows "ctx_at h' (if fs = [] then q' else root) q' fs"
proof (cases fs)
  case Nil
  then show ?thesis by simp
next
  case (Cons f gs)
  show ?thesis
  proof (cases f)
    case (FL a c r)
    have "h' b = h b" if "b \<in> set (nodes r) \<union> fnodes gs" for b
      using that assms(2, 5) Cons FL by auto
    then have "tree_at h' a r = tree_at h a r" "ctx_at h' root a gs = ctx_at h root a gs"
      by (auto intro!: tree_at_cong ctx_at_cong)
    with assms(1, 6) Cons FL show ?thesis by simp
  next
    case (FR l a c)
    have "h' b = h b" if "b \<in> set (nodes l) \<union> fnodes gs" for b
      using that assms(2, 5) Cons FR by auto
    then have "tree_at h' a l = tree_at h a l" "ctx_at h' root a gs = ctx_at h root a gs"
      by (auto intro!: tree_at_cong ctx_at_cong)
    moreover have "addr l \<noteq> q" using addr_not_in [of q l] assms(3, 4) Cons FR by auto
    ultimately show ?thesis using assms(1, 6) Cons FR by simp
  qed
qed

text \<open>The memory after a rotation, cell by cell.\<close>

definition rotated :: "'a rb_mem \<Rightarrow> u32 \<Rightarrow> 'a rb_node_scheme \<Rightarrow> u32 \<Rightarrow> 'a rb_node_scheme \<Rightarrow> u32 \<Rightarrow> u32 \<Rightarrow> 'a rb_mem" where
  "rotated h x nx y ny b p a =
     (if a = x then nx else if a = y then ny
      else if b \<noteq> 0 \<and> a = b then (h b)\<lparr>rb_parent := x\<rparr>
      else if p \<noteq> 0 \<and> a = p then (if rb_left (h p) = x then (h p)\<lparr>rb_left := y\<rparr> else (h p)\<lparr>rb_right := y\<rparr>)
      else h a)"

lemma rot_left_eval:
  assumes "rb_right (h x) = y" and "rb_left (h y) = b" and "rb_parent (h x) = p"
    and "x \<noteq> y" "b \<noteq> x" "b \<noteq> y" "p \<noteq> x" "p \<noteq> y" "p \<noteq> 0 \<Longrightarrow> p \<noteq> b"
  shows "rot_left (h, root) x =
    (rotated h x ((h x)\<lparr>rb_right := b, rb_parent := y\<rparr>) y ((h y)\<lparr>rb_left := x, rb_parent := p\<rparr>) b p, if p = 0 then y else root)"
proof (cases "p = 0")
  case True
  then have "rot_left (h, root) x = (set_parent (set_left (set_parent (if b \<noteq> 0 then set_parent (set_right h x b) b x else set_right h x b) y 0) y x) x y, y)"
    using assms(1-8) by (cases "b = 0") (simp_all add: rot_left_def Let_def)
  with True assms(4-6) show ?thesis by (auto simp: set_defs rotated_def fun_eq_iff)
next
  case False
  then have "rot_left (h, root) x = (set_parent (set_left
      ((if rb_left (h p) = x then set_left else set_right) (set_parent (if b \<noteq> 0 then set_parent (set_right h x b) b x else set_right h x b) y p) p y) y x) x y, root)"
    using assms by (cases "b = 0"; cases "rb_left (h p) = x") (simp_all add: rot_left_def Let_def)
  with False assms(4-9) show ?thesis by (auto simp: set_defs rotated_def fun_eq_iff)
qed

lemma rot_right_eval:
  assumes "rb_left (h x) = y" and "rb_right (h y) = b" and "rb_parent (h x) = p"
    and "x \<noteq> y" "b \<noteq> x" "b \<noteq> y" "p \<noteq> x" "p \<noteq> y" "p \<noteq> 0 \<Longrightarrow> p \<noteq> b"
    and "p \<noteq> 0 \<Longrightarrow> rb_left (h p) = x \<longleftrightarrow> rb_right (h p) \<noteq> x"
  shows "rot_right (h, root) x =
    (rotated h x ((h x)\<lparr>rb_left := b, rb_parent := y\<rparr>) y ((h y)\<lparr>rb_right := x, rb_parent := p\<rparr>) b p, if p = 0 then y else root)"
proof (cases "p = 0")
  case True
  then have "rot_right (h, root) x = (set_parent (set_right (set_parent (if b \<noteq> 0 then set_parent (set_left h x b) b x else set_left h x b) y 0) y x) x y, y)"
    using assms(1-8) by (cases "b = 0") (simp_all add: rot_right_def Let_def)
  with True assms(4-6) show ?thesis by (auto simp: set_defs rotated_def fun_eq_iff)
next
  case False
  then have "rot_right (h, root) x = (set_parent (set_right
      ((if rb_left (h p) = x then set_left else set_right) (set_parent (if b \<noteq> 0 then set_parent (set_left h x b) b x else set_left h x b) y p) p y) y x) x y, root)"
    using assms by (cases "b = 0"; cases "rb_right (h p) = x") (simp_all add: rot_right_def Let_def)
  with False assms(4-9) show ?thesis by (auto simp: set_defs rotated_def fun_eq_iff)
qed

text \<open>What a rotation keeps around the two nodes: the trees on both sides, the middle tree with its new
  parent, and the context with its new child.\<close>

lemma rotated_at:
  "rotated h x nx y ny b p x = nx"
  "x \<noteq> y \<Longrightarrow> rotated h x nx y ny b p y = ny"
  "b \<noteq> x \<Longrightarrow> b \<noteq> y \<Longrightarrow> b \<noteq> 0 \<Longrightarrow> rotated h x nx y ny b p b = (h b)\<lparr>rb_parent := x\<rparr>"
  "p \<noteq> x \<Longrightarrow> p \<noteq> y \<Longrightarrow> p \<noteq> b \<Longrightarrow> p \<noteq> 0 \<Longrightarrow> rotated h x nx y ny b p p =
     (if rb_left (h p) = x then (h p)\<lparr>rb_left := y\<rparr> else (h p)\<lparr>rb_right := y\<rparr>)"
  "a \<noteq> x \<Longrightarrow> a \<noteq> y \<Longrightarrow> b = 0 \<or> a \<noteq> b \<Longrightarrow> p = 0 \<or> a \<noteq> p \<Longrightarrow> rotated h x nx y ny b p a = h a"
  by (auto simp: rotated_def)

lemma rotated_parts:
  assumes "zip_at h root t fs" and "set (nodes t) = insert x (insert y (set (nodes l) \<union> set (nodes m) \<union> set (nodes r)))"
    and "distinct (x # y # nodes l @ nodes m @ nodes r)" and "addr t = x"
    and "tree_at h u l" and "tree_at h v m" and "tree_at h w r"
  shows "tree_at (rotated h x nx y ny (addr m) (caddr fs)) u l \<and> tree_at (rotated h x nx y ny (addr m) (caddr fs)) w r \<and>
    tree_at (rotated h x nx y ny (addr m) (caddr fs)) x m \<and>
    ctx_at (rotated h x nx y ny (addr m) (caddr fs)) (if caddr fs = 0 then y else root) y fs"
proof -
  let ?h = "rotated h x nx y ny (addr m) (caddr fs)"
  have ctx: "ctx_at h root x fs" and d: "distinct (nodes_l fs @ nodes t @ nodes_r fs)" and tr: "tree_at h (caddr fs) t"
    using assms(1, 4) by (simp_all add: zip_at_def)
  have disj: "fnodes fs \<inter> set (nodes t) = {}" using d by auto
  have c: "caddr fs = 0 \<or> caddr fs \<in> fnodes fs" using caddr_in [of fs] by (cases "fs = []") simp_all
  have m: "addr m = 0 \<or> addr m \<in> set (nodes m)" using addr_in_nodes by blast
  have x: "x \<noteq> 0" "x \<notin> fnodes fs" using nodes_nonzero [OF tr] assms(2) disj by auto
  have "?h a = h a" if "a \<in> set (nodes l) \<union> set (nodes r)" for a
    using that c m disj assms(2, 3) by (intro rotated_at(5)) auto
  then have "tree_at ?h u l = tree_at h u l" "tree_at ?h w r = tree_at h w r" by (auto intro!: tree_at_cong)
  moreover have "tree_at ?h x m"
  proof (rule tree_reparent [OF assms(6)])
    show "distinct (nodes m)" using assms(3) by simp
    show "?h a = h a" if "a \<in> set (nodes m)" "a \<noteq> addr m" for a
      using that c disj assms(2, 3) by (intro rotated_at(5)) auto
    show "?h (addr m) = (h (addr m))\<lparr>rb_parent := x\<rparr>" if "m \<noteq> E"
      using that m assms(3) addr_zero [OF assms(6)] by (intro rotated_at(3)) auto
  qed
  moreover have "ctx_at ?h (if fs = [] then y else root) y fs"
  proof (rule ctx_relink [OF ctx _ x])
    show "distinct (nodes_l fs @ nodes_r fs)" using d by auto
    show "?h a = h a" if "a \<in> fnodes fs" "a \<noteq> caddr fs" for a
      using that disj m assms(2) by (intro rotated_at(5)) auto
    show "?h (caddr fs) = (if rb_left (h (caddr fs)) = x then (h (caddr fs))\<lparr>rb_left := y\<rparr> else (h (caddr fs))\<lparr>rb_right := y\<rparr>)"
      if "fs \<noteq> []" using caddr_in [OF that] disj m assms(2) ctx_nonzero [OF ctx] by (intro rotated_at(4)) auto
  qed
  moreover have "fs = [] \<longleftrightarrow> caddr fs = 0" using caddr_in [of fs] ctx_nonzero [OF ctx] by (cases "fs = []") auto
  ultimately show ?thesis using assms(5, 7) by simp
qed

lemma rot_left_zip:
  assumes "zip_at h root (T l x c (T m y d r)) fs"
  shows "zip_at (fst (rot_left (h, root) x)) (snd (rot_left (h, root) x)) (T (T l x c m) y d r) fs"
proof -
  let ?t = "(T l x c (T m y d r))" and ?nx = "(h x)\<lparr>rb_right := addr m, rb_parent := y\<rparr>"
    and ?ny = "(h y)\<lparr>rb_left := x, rb_parent := caddr fs\<rparr>"
  have t: "tree_at h (caddr fs) ?t" and dist: "distinct (nodes_l fs @ nodes ?t @ nodes_r fs)" using assms by (simp_all add: zip_at_def)
  have parts: "tree_at h x l" "tree_at h y m" "tree_at h y r" using t by simp_all
  have c: "caddr fs = 0 \<or> caddr fs \<in> fnodes fs" using caddr_in [of fs] by (cases "fs = []") simp_all
  have m: "addr m = 0 \<or> addr m \<in> set (nodes m)" using addr_in_nodes by blast
  have sep: "x \<noteq> y" "x \<notin> set (nodes m)" "y \<notin> set (nodes m)" "x \<notin> fnodes fs" "y \<notin> fnodes fs" "set (nodes m) \<inter> fnodes fs = {}"
    using dist by auto
  have nz: "x \<noteq> 0" "y \<noteq> 0" using t by simp_all
  have ne: "addr m \<noteq> x" "addr m \<noteq> y" "caddr fs \<noteq> x" "caddr fs \<noteq> y" using sep m c nz by metis+
  have cm: "caddr fs \<noteq> addr m" if "caddr fs \<noteq> 0" using that sep(6) m c by fastforce
  have eval: "rot_left (h, root) x = (rotated h x ?nx y ?ny (addr m) (caddr fs), if caddr fs = 0 then y else root)"
    using t by (intro rot_left_eval sep(1) ne cm) simp_all
  have "tree_at (rotated h x ?nx y ?ny (addr m) (caddr fs)) x l \<and> tree_at (rotated h x ?nx y ?ny (addr m) (caddr fs)) y r \<and>
      tree_at (rotated h x ?nx y ?ny (addr m) (caddr fs)) x m \<and>
      ctx_at (rotated h x ?nx y ?ny (addr m) (caddr fs)) (if caddr fs = 0 then y else root) y fs"
    by (rule rotated_parts [OF assms _ _ _ parts]) (use dist in auto)
  then show ?thesis using t dist sep(1) by (simp add: eval zip_at_def rotated_at)
qed

lemma ctx_sides:
  assumes "zip_at h root t fs" and "addr t \<noteq> 0" and "fs \<noteq> []"
  shows "rb_left (h (caddr fs)) = addr t \<longleftrightarrow> rb_right (h (caddr fs)) \<noteq> addr t"
proof -
  have t: "addr t \<in> set (nodes t)" using assms(2) by (rule addr_in_nodes)
  obtain f gs where fs: "fs = f # gs" using assms(3) by (cases fs) simp_all
  show ?thesis
  proof (cases f)
    case (FL a c r)
    then have "addr r \<noteq> addr t" using assms t fs addr_not_in [of "addr t" r] by (auto simp: zip_at_def)
    with assms fs FL show ?thesis by (auto simp: zip_at_def)
  next
    case (FR l a c)
    then have "addr l \<noteq> addr t" using assms t fs addr_not_in [of "addr t" l] by (auto simp: zip_at_def)
    with assms fs FR show ?thesis by (auto simp: zip_at_def)
  qed
qed

lemma rot_right_zip:
  assumes "zip_at h root (T (T l y d m) x c r) fs"
  shows "zip_at (fst (rot_right (h, root) x)) (snd (rot_right (h, root) x)) (T l y d (T m x c r)) fs"
proof -
  let ?t = "(T (T l y d m) x c r)" and ?nx = "(h x)\<lparr>rb_left := addr m, rb_parent := y\<rparr>"
    and ?ny = "(h y)\<lparr>rb_right := x, rb_parent := caddr fs\<rparr>"
  have t: "tree_at h (caddr fs) ?t" and dist: "distinct (nodes_l fs @ nodes ?t @ nodes_r fs)" using assms by (simp_all add: zip_at_def)
  have parts: "tree_at h y l" "tree_at h y m" "tree_at h x r" using t by simp_all
  have c: "caddr fs = 0 \<or> caddr fs \<in> fnodes fs" using caddr_in [of fs] by (cases "fs = []") simp_all
  have m: "addr m = 0 \<or> addr m \<in> set (nodes m)" using addr_in_nodes by blast
  have sep: "x \<noteq> y" "x \<notin> set (nodes m)" "y \<notin> set (nodes m)" "x \<notin> fnodes fs" "y \<notin> fnodes fs" "set (nodes m) \<inter> fnodes fs = {}"
    using dist by auto
  have nz: "x \<noteq> 0" "y \<noteq> 0" using t by simp_all
  have ne: "addr m \<noteq> x" "addr m \<noteq> y" "caddr fs \<noteq> x" "caddr fs \<noteq> y" using sep m c nz by metis+
  have cm: "caddr fs \<noteq> addr m" if "caddr fs \<noteq> 0" using that sep(6) m c by fastforce
  have "rb_left (h (caddr fs)) = x \<longleftrightarrow> rb_right (h (caddr fs)) \<noteq> x" if "caddr fs \<noteq> 0"
    using ctx_sides [OF assms] that nz by (cases fs) simp_all
  then have eval: "rot_right (h, root) x = (rotated h x ?nx y ?ny (addr m) (caddr fs), if caddr fs = 0 then y else root)"
    using t by (intro rot_right_eval sep(1) ne cm) simp_all
  have "tree_at (rotated h x ?nx y ?ny (addr m) (caddr fs)) y l \<and> tree_at (rotated h x ?nx y ?ny (addr m) (caddr fs)) x r \<and>
      tree_at (rotated h x ?nx y ?ny (addr m) (caddr fs)) x m \<and>
      ctx_at (rotated h x ?nx y ?ny (addr m) (caddr fs)) (if caddr fs = 0 then y else root) y fs"
    by (rule rotated_parts [OF assms _ _ _ parts]) (use dist in auto)
  then show ?thesis using t dist sep(1) by (simp add: eval zip_at_def rotated_at)
qed

lemma rot_more [simp]:
  "rb_node.more (fst (rot_left (h, root) x) a) = rb_node.more (h a)"
  "rb_node.more (fst (rot_right (h, root) x) a) = rb_node.more (h a)"
  by (simp_all add: rot_left_def rot_right_def Let_def)

lemma zip_move: "zip_at h root t (f # fs) \<longleftrightarrow> zip_at h root (wrap t f) fs"
  using zip_at_unzip [of h root t "f # fs"] zip_at_unzip [of h root "wrap t f" fs] by simp

lemma zip_color:
  assumes "zip_at h root (T l a c r) fs"
  shows "zip_at (set_color h a v) root (T l a v r) fs"
  using assms by (auto simp: zip_at_def set_color_def)

lemma zip_color_frame:
  "zip_at h root t (FL a c r # fs) \<Longrightarrow> zip_at (set_color h a v) root t (FL a v r # fs)"
  "zip_at h root t (FR l a c # fs) \<Longrightarrow> zip_at (set_color h a v) root t (FR l a v # fs)"
  by (simp_all add: zip_move zip_color)

subsection \<open>Balance\<close>

fun rcolor :: "rbt \<Rightarrow> u32" where
  "rcolor E = RB_BLACK"
| "rcolor (T l a c r) = c"

fun paint :: "u32 \<Rightarrow> rbt \<Rightarrow> rbt" where
  "paint v E = E"
| "paint v (T l a c r) = T l a v r"

fun bheight :: "rbt \<Rightarrow> nat" where
  "bheight E = 0"
| "bheight (T l a c r) = (if c = RB_RED then bheight l else Suc (bheight l))"

text \<open>No red node has a red child, and all paths have the same number of black nodes.\<close>

fun balanced :: "rbt \<Rightarrow> bool" where
  "balanced E \<longleftrightarrow> True"
| "balanced (T l a c r) \<longleftrightarrow>
     (c = RB_RED \<longrightarrow> rcolor l \<noteq> RB_RED \<and> rcolor r \<noteq> RB_RED) \<and> bheight l = bheight r \<and> balanced l \<and> balanced r"

abbreviation red_top :: "frame list \<Rightarrow> bool" where
  "red_top fs \<equiv> fs \<noteq> [] \<and> fcolor (hd fs) = RB_RED"

text \<open>The same for a context whose hole has black height \<open>n\<close>; a red frame is never the topmost.\<close>

fun ctx_ok :: "nat \<Rightarrow> frame list \<Rightarrow> bool" where
  "ctx_ok n [] \<longleftrightarrow> True"
| "ctx_ok n (FL a c s # fs) \<longleftrightarrow>
     balanced s \<and> bheight s = n \<and> (c = RB_RED \<longrightarrow> rcolor s \<noteq> RB_RED \<and> fs \<noteq> [] \<and> \<not> red_top fs) \<and>
     ctx_ok (if c = RB_RED then n else Suc n) fs"
| "ctx_ok n (FR s a c # fs) \<longleftrightarrow>
     balanced s \<and> bheight s = n \<and> (c = RB_RED \<longrightarrow> rcolor s \<noteq> RB_RED \<and> fs \<noteq> [] \<and> \<not> red_top fs) \<and>
     ctx_ok (if c = RB_RED then n else Suc n) fs"

lemma plug_balanced:
  "balanced t \<Longrightarrow> ctx_ok (bheight t) fs \<Longrightarrow> rcolor t = RB_RED \<longrightarrow> \<not> red_top fs \<Longrightarrow> balanced (plug t fs)"
proof (induction fs arbitrary: t)
  case (Cons f fs)
  then show ?case by (cases f) (auto split: if_splits)
qed simp

text \<open>The state of the loop: a red node that may have a red parent, everything else in order.\<close>

definition red_focus :: "rbt \<Rightarrow> frame list \<Rightarrow> bool" where
  "red_focus t fs \<longleftrightarrow> t \<noteq> E \<and> rcolor t = RB_RED \<and> balanced t \<and> ctx_ok (bheight t) fs"

text \<open>One turn of the loop on a tree and its context.\<close>

fun fix_step :: "rbt \<Rightarrow> frame list \<Rightarrow> rbt \<times> frame list" where
  "fix_step t (FL p c s # FL g d u # fs) =
     (if rcolor u = RB_RED then (T (T t p RB_BLACK s) g RB_RED (paint RB_BLACK u), fs)
      else (t, FL p RB_BLACK (T s g RB_RED u) # fs))"
| "fix_step (T l n e r) (FR s p c # FL g d u # fs) =
     (if rcolor u = RB_RED then (T (T s p RB_BLACK (T l n e r)) g RB_RED (paint RB_BLACK u), fs)
      else (T s p c l, FL n RB_BLACK (T r g RB_RED u) # fs))"
| "fix_step t (FR s p c # FR u g d # fs) =
     (if rcolor u = RB_RED then (T (paint RB_BLACK u) g RB_RED (T s p RB_BLACK t), fs)
      else (t, FR (T u g RB_RED s) p RB_BLACK # fs))"
| "fix_step (T l n e r) (FL p c s # FR u g d # fs) =
     (if rcolor u = RB_RED then (T (paint RB_BLACK u) g RB_RED (T (T l n e r) p RB_BLACK s), fs)
      else (T r p c s, FR (T u g RB_RED l) n RB_BLACK # fs))"
| "fix_step t fs = (t, fs)"

lemma paint_black [simp]:
  "balanced t \<Longrightarrow> rcolor t = RB_RED \<Longrightarrow> balanced (paint RB_BLACK t) \<and> bheight (paint RB_BLACK t) = Suc (bheight t)"
  "nodes (paint v t) = nodes t"
  "rcolor (paint RB_BLACK t) = RB_BLACK"
  by (cases t; simp)+

lemma fix_step_red_focus:
  assumes "red_focus t fs" and "red_top fs" and "fix_step t fs = (t', fs')"
  shows "red_focus t' fs' \<and> length fs' < length fs \<and> nodes (plug t' fs') = nodes (plug t fs)"
proof -
  obtain l n r where t: "t = T l n RB_RED r" using assms(1) by (cases t) (auto simp: red_focus_def)
  obtain f1 f2 gs where fs: "fs = f1 # f2 # gs"
    using assms(1, 2) by (cases fs; cases "hd fs"; cases "tl fs") (auto simp: red_focus_def)
  show ?thesis
    using assms t unfolding fs red_focus_def
    by (cases f1; cases f2) (auto simp: nodes_plug split: if_splits)
qed

text \<open>Height and number of nodes of a balanced tree.\<close>

fun height :: "rbt \<Rightarrow> nat" where
  "height E = 0"
| "height (T l a c r) = Suc (max (height l) (height r))"

lemma bheight_size: "balanced t \<Longrightarrow> 2 ^ bheight t \<le> length (nodes t) + 1"
  by (induction t) auto

lemma height_bheight: "balanced t \<Longrightarrow> height t \<le> 2 * bheight t + (if rcolor t = RB_RED then 1 else 0)"
  by (induction t) (auto split: if_splits)

lemma height_log:
  assumes "balanced t" and "rcolor t \<noteq> RB_RED"
  shows "2 ^ (height t div 2) \<le> length (nodes t) + 1"
proof -
  have "height t div 2 \<le> bheight t" using height_bheight [OF assms(1)] assms(2) by simp
  then have "(2::nat) ^ (height t div 2) \<le> 2 ^ bheight t" by (rule power_increasing) simp
  with bheight_size [OF assms(1)] show ?thesis by linarith
qed

subsection \<open>The memory during one turn of the loop\<close>

lemma set_color_swap: "a \<noteq> b \<Longrightarrow> set_color (set_color h a v) b w = set_color (set_color h b w) a v"
  by (simp add: set_color_def fun_upd_twist)

lemma zip_paint: "zip_at h root u fs \<Longrightarrow> u \<noteq> E \<Longrightarrow> zip_at (set_color h (addr u) v) root (paint v u) fs"
  by (cases u) (simp_all add: zip_color)

lemma recolor_left:
  assumes "zip_at h root (T t p c s) (FL g d u # fs)" and "u \<noteq> E"
  shows "zip_at (set_color (set_color (set_color h (addr u) RB_BLACK) p RB_BLACK) g RB_RED) root
    (T (T t p RB_BLACK s) g RB_RED (paint RB_BLACK u)) fs"
proof -
  have "zip_at h root u (FR (T t p c s) g d # fs)" using assms(1) by (simp add: zip_move)
  from zip_paint [OF this assms(2), of RB_BLACK]
  have "zip_at (set_color h (addr u) RB_BLACK) root (T t p c s) (FL g d (paint RB_BLACK u) # fs)" by (simp add: zip_move)
  from zip_color [OF this, of RB_BLACK] zip_color show ?thesis by (simp add: zip_move)
qed

lemma recolor_right:
  assumes "zip_at h root (T s p c t) (FR u g d # fs)" and "u \<noteq> E"
  shows "zip_at (set_color (set_color (set_color h (addr u) RB_BLACK) p RB_BLACK) g RB_RED) root
    (T (paint RB_BLACK u) g RB_RED (T s p RB_BLACK t)) fs"
proof -
  have "zip_at h root u (FL g d (T s p c t) # fs)" using assms(1) by (simp add: zip_move)
  from zip_paint [OF this assms(2), of RB_BLACK]
  have "zip_at (set_color h (addr u) RB_BLACK) root (T s p c t) (FR (paint RB_BLACK u) g d # fs)" by (simp add: zip_move)
  from zip_color [OF this, of RB_BLACK] zip_color show ?thesis by (simp add: zip_move)
qed

lemma finish_left:
  assumes "zip_at h root (T t p c s) (FL g d u # fs)"
    and "rot_right (set_color (set_color h p RB_BLACK) g RB_RED, root) g = (h', root')"
  shows "zip_at h' root' t (FL p RB_BLACK (T s g RB_RED u) # fs)"
proof -
  have "zip_at (set_color (set_color h p RB_BLACK) g RB_RED) root (T (T t p RB_BLACK s) g RB_RED u) fs"
    using zip_color [OF assms(1), of RB_BLACK] zip_color by (simp add: zip_move)
  from rot_right_zip [OF this] assms(2) show ?thesis by (simp add: zip_move)
qed

lemma finish_right:
  assumes "zip_at h root (T s p c t) (FR u g d # fs)"
    and "rot_left (set_color (set_color h p RB_BLACK) g RB_RED, root) g = (h', root')"
  shows "zip_at h' root' t (FR (T u g RB_RED s) p RB_BLACK # fs)"
proof -
  have "zip_at (set_color (set_color h p RB_BLACK) g RB_RED) root (T u g RB_RED (T s p RB_BLACK t)) fs"
    using zip_color [OF assms(1), of RB_BLACK] zip_color by (simp add: zip_move)
  from rot_left_zip [OF this] assms(2) show ?thesis by (simp add: zip_move)
qed

lemma zip_top:
  assumes "zip_at h root (T l n e r) fs"
  shows "n \<noteq> 0" "rb_left (h n) = addr l" "rb_right (h n) = addr r" "rb_parent (h n) = caddr fs" "rb_color (h n) = e"
    "n \<noteq> addr l" "n \<noteq> addr r" "l \<noteq> E \<Longrightarrow> addr l \<noteq> addr r" "r \<noteq> E \<Longrightarrow> addr l \<noteq> addr r"
  using assms addr_in_nodes [of l] addr_in_nodes [of r] addr_zero [of h n l] addr_zero [of h n r]
  by (auto simp: zip_at_def)

lemma zip_red:
  assumes "zip_at h root (T l n e r) fs"
  shows "addr l \<noteq> 0 \<and> rb_color (h (addr l)) = RB_RED \<longleftrightarrow> rcolor l = RB_RED"
    "addr r \<noteq> 0 \<and> rb_color (h (addr r)) = RB_RED \<longleftrightarrow> rcolor r = RB_RED"
  using assms by (cases l; cases r; simp add: zip_at_def)+

subsection \<open>Descent to the place of a key\<close>

text \<open>The way down from a tree with the keys \<open>key\<close> to the empty place for \<open>k\<close>, right of equal keys.\<close>

fun way :: "(u32 \<Rightarrow> u64) \<Rightarrow> u64 \<Rightarrow> rbt \<Rightarrow> frame list \<Rightarrow> frame list" where
  "way key k E fs = fs"
| "way key k (T l a c r) fs = (if k < key a then way key k l (FL a c r # fs) else way key k r (FR l a c # fs))"

lemma plug_way [simp]: "plug E (way key k t fs) = plug t fs"
  by (induction t arbitrary: fs) simp_all

lemma way_ok:
  "balanced t \<Longrightarrow> ctx_ok (bheight t) fs \<Longrightarrow> rcolor t = RB_RED \<longrightarrow> fs \<noteq> [] \<and> \<not> red_top fs \<Longrightarrow> ctx_ok 0 (way key k t fs)"
proof (induction t arbitrary: fs)
  case (T l a c r)
  have "ctx_ok (bheight l) (FL a c r # fs)" "ctx_ok (bheight r) (FR l a c # fs)"
    using T.prems by (auto split: if_splits)
  with T.IH T.prems show ?case by auto
qed simp

lemma way_sides:
  "sorted (map key (nodes t)) \<Longrightarrow> \<forall>a \<in> set (nodes_l fs). key a \<le> k \<Longrightarrow> \<forall>a \<in> set (nodes_r fs). k < key a \<Longrightarrow>
     (\<forall>a \<in> set (nodes_l (way key k t fs)). key a \<le> k) \<and> (\<forall>a \<in> set (nodes_r (way key k t fs)). k < key a)"
proof (induction t arbitrary: fs)
  case (T l a c r)
  have ord: "\<forall>b \<in> set (nodes l). key b \<le> key a" "\<forall>b \<in> set (nodes r). key a \<le> key b" "sorted (map key (nodes l))" "sorted (map key (nodes r))"
    using T.prems(1) by (auto simp: sorted_append)
  show ?case
  proof (cases "k < key a")
    case True
    have "\<forall>b \<in> set (nodes r). k < key b" using ord(2) order.strict_trans2 [OF True] by blast
    then have "\<forall>b \<in> set (nodes_r (FL a c r # fs)). k < key b" using True T.prems(3) by auto
    from T.IH(1) [OF ord(3) _ this] T.prems(2) True show ?thesis by simp
  next
    case False
    then have le: "key a \<le> k" by (rule leI)
    have "\<forall>b \<in> set (nodes l). key b \<le> k" using ord(1) order_trans [OF _ le] by blast
    then have "\<forall>b \<in> set (nodes_l (FR l a c # fs)). key b \<le> k" using le T.prems(2) by auto
    from T.IH(2) [OF ord(4) this] T.prems(3) False show ?thesis by simp
  qed
qed simp

text \<open>The list of nodes in order with \<open>n\<close> put in after the keys up to \<open>k\<close>.\<close>

definition insort_after :: "(u32 \<Rightarrow> u64) \<Rightarrow> u64 \<Rightarrow> u32 \<Rightarrow> u32 list \<Rightarrow> u32 list" where
  "insort_after key k n ns = takeWhile (\<lambda>a. key a \<le> k) ns @ n # dropWhile (\<lambda>a. key a \<le> k) ns"

lemma insort_after_split:
  assumes "\<forall>a \<in> set xs. key a \<le> k" and "\<forall>a \<in> set ys. k < key a"
  shows "insort_after key k n (xs @ ys) = xs @ n # ys"
proof -
  have "ys = [] \<or> \<not> key (hd ys) \<le> k" using assms(2) by (cases ys) (simp_all add: not_le)
  then have y: "takeWhile (\<lambda>a. key a \<le> k) ys = []" "dropWhile (\<lambda>a. key a \<le> k) ys = ys" by (cases ys; simp)+
  have "takeWhile (\<lambda>a. key a \<le> k) (xs @ ys) = xs @ takeWhile (\<lambda>a. key a \<le> k) ys"
    by (rule takeWhile_append2) (use assms(1) in blast)
  moreover have "dropWhile (\<lambda>a. key a \<le> k) (xs @ ys) = dropWhile (\<lambda>a. key a \<le> k) ys"
    by (rule dropWhile_append2) (use assms(1) in blast)
  ultimately show ?thesis by (simp add: insort_after_def y)
qed

lemma nodes_way:
  assumes "sorted (map key (nodes t))"
  shows "nodes (plug (T E n c E) (way key k t [])) = insort_after key k n (nodes t)"
proof -
  have "nodes t = nodes_l (way key k t []) @ nodes_r (way key k t [])"
    using nodes_plug [of E "way key k t []"] by simp
  then show ?thesis using way_sides [OF assms, of "[]"] insort_after_split by (simp add: nodes_plug)
qed

lemma sorted_insort_after:
  assumes "sorted (map key ns)" and "key n = k"
  shows "sorted (map key (insort_after key k n ns))"
proof -
  define xs ys where "xs = takeWhile (\<lambda>a. key a \<le> k) ns" and "ys = dropWhile (\<lambda>a. key a \<le> k) ns"
  have ns: "ns = xs @ ys" by (simp add: xs_def ys_def)
  then have sxy: "sorted (map key xs)" "sorted (map key ys)" "\<forall>a \<in> set xs. \<forall>b \<in> set ys. key a \<le> key b"
    using assms(1) by (auto simp: sorted_append)
  have x: "\<forall>a \<in> set xs. key a \<le> k" by (auto simp: xs_def dest: set_takeWhileD)
  have y: "\<forall>a \<in> set ys. k \<le> key a"
  proof (cases ys)
    case (Cons b bs)
    then have "\<not> key b \<le> k" using hd_dropWhile [of "\<lambda>a. key a \<le> k" ns] by (simp add: ys_def)
    then have "k \<le> key b" by (rule order.strict_implies_order [OF not_le_imp_less])
    with Cons sxy(2) show ?thesis using order_trans by auto
  qed simp
  have "insort_after key k n ns = xs @ n # ys" by (simp add: insort_after_def xs_def ys_def)
  with sxy x y assms(2) show ?thesis by (simp add: sorted_append)
qed

text \<open>The loop that goes down: the current node and the last one passed.\<close>

lemma descend_loop:
  assumes "zip_at h root t fs"
  shows "while_option (\<lambda>(cur, parent). cur \<noteq> 0)
      (\<lambda>(cur, parent). (if k < key cur then rb_left (h cur) else rb_right (h cur), cur)) (addr t, caddr fs) =
    Some (0, caddr (way key k t fs))"
  using assms
proof (induction t arbitrary: fs)
  case (T l a c r)
  have down: "zip_at h root l (FL a c r # fs)" "zip_at h root r (FR l a c # fs)" using T.prems by (simp_all add: zip_move)
  note top = zip_top [OF T.prems]
  from T.IH(1) [OF down(1)] T.IH(2) [OF down(2)] top show ?case by (subst while_option_unfold) simp
qed (simp add: while_option_unfold)

fun turned :: "(u32 \<Rightarrow> u64) \<Rightarrow> u64 \<Rightarrow> frame list \<Rightarrow> bool" where
  "turned key k [] \<longleftrightarrow> True"
| "turned key k (FL a c r # fs) \<longleftrightarrow> k < key a"
| "turned key k (FR l a c # fs) \<longleftrightarrow> \<not> k < key a"

lemma turned_way: "turned key k fs \<Longrightarrow> turned key k (way key k t fs)"
  by (induction t arbitrary: fs) simp_all

text \<open>A new node at an empty place.\<close>

lemma zip_insert:
  assumes "zip_at h root E fs" and "n \<noteq> 0" and "n \<notin> fnodes fs"
    and "rb_parent nn = caddr fs" "rb_left nn = 0" "rb_right nn = 0" "rb_color nn = c"
    and "\<And>a. a \<noteq> n \<Longrightarrow> fs = [] \<or> a \<noteq> caddr fs \<Longrightarrow> h' a = h a" and "h' n = nn"
    and "\<And>a d r gs. fs = FL a d r # gs \<Longrightarrow> h' a = (h a)\<lparr>rb_left := n\<rparr>"
    and "\<And>l a d gs. fs = FR l a d # gs \<Longrightarrow> h' a = (h a)\<lparr>rb_right := n\<rparr>"
  shows "zip_at h' (if fs = [] then n else root) (T E n c E) fs"
proof -
  have d: "distinct (nodes_l fs @ nodes_r fs)" and ctx: "ctx_at h root 0 fs" using assms(1) by (simp_all add: zip_at_def)
  have "ctx_at h' (if fs = [] then n else root) n fs"
  proof (cases fs)
    case (Cons f gs)
    show ?thesis
    proof (cases f)
      case (FL a e r)
      have "h' b = h b" if "b \<in> set (nodes r) \<union> fnodes gs" for b
        using that d assms(3) assms(8) [of b] Cons FL by auto
      then have "tree_at h' a r = tree_at h a r" "ctx_at h' root a gs = ctx_at h root a gs" by (auto intro!: tree_at_cong ctx_at_cong)
      with ctx assms(10) Cons FL show ?thesis by simp
    next
      case (FR l a e)
      have "h' b = h b" if "b \<in> set (nodes l) \<union> fnodes gs" for b
        using that d assms(3) assms(8) [of b] Cons FR by auto
      then have "tree_at h' a l = tree_at h a l" "ctx_at h' root a gs = ctx_at h root a gs" by (auto intro!: tree_at_cong ctx_at_cong)
      with ctx assms(11) Cons FR show ?thesis by simp
    qed
  qed simp
  then show ?thesis using d assms(2-7, 9) by (auto simp: zip_at_def)
qed

lemma balanced_paint: "balanced t \<Longrightarrow> balanced (paint RB_BLACK t)"
  by (cases t) simp_all

lemma new_red_focus:
  "balanced t \<Longrightarrow> rcolor t \<noteq> RB_RED \<Longrightarrow> red_focus (T E n RB_RED E) (way key k t [])"
  using way_ok [of t "[]" key k] by (simp add: red_focus_def)

lemma split_unique: "distinct (xs @ a # ys) \<Longrightarrow> xs @ a # ys = us @ a # vs \<Longrightarrow> xs = us \<and> ys = vs"
  by (auto simp: append_eq_append_conv2 Cons_eq_append_conv append_eq_Cons_conv)

lemma focus_on: "a \<in> set (nodes t) \<Longrightarrow> \<exists>l c r fs. t = plug (T l a c r) fs"
proof (induction t)
  case (T l b c r)
  have up: "\<exists>m d s fs. u = plug (T m a d s) fs \<Longrightarrow> \<exists>m d s fs. wrap u f = plug (T m a d s) fs" for u f
  proof -
    assume "\<exists>m d s fs. u = plug (T m a d s) fs"
    then obtain m d s fs where "u = plug (T m a d s) fs" by blast
    moreover have "plug v (fs @ [f]) = wrap (plug v fs) f" for v by (induction fs arbitrary: v) simp_all
    ultimately show ?thesis by metis
  qed
  from T.prems consider "a = b" | "a \<in> set (nodes l)" | "a \<in> set (nodes r)" by auto
  then show ?case
  proof cases
    case 1
    then show ?thesis by (metis plug.simps(1))
  next
    case 2
    then show ?thesis using up [OF T.IH(1), of "FL b c r"] by simp
  next
    case 3
    then show ?thesis using up [OF T.IH(2), of "FR l b c"] by simp
  qed
qed simp

lemma root_in: "fs \<noteq> [] \<Longrightarrow> addr (plug t fs) \<in> fnodes fs"
proof (induction fs arbitrary: t)
  case (Cons f fs)
  have "fnodes fs \<subseteq> fnodes (f # fs)" "faddr f \<in> fnodes (f # fs)" by (cases f; auto)+
  with Cons.IH [of "wrap t f"] show ?case by (cases "fs = []") auto
qed simp

lemma zip_root:
  assumes "zip_at h root t fs" and "fs \<noteq> []" and "t \<noteq> E"
  shows "root \<noteq> addr t"
proof -
  have "root = addr (plug t fs)" using assms(1) zip_at_unzip [of h root t fs] by (simp add: zip_at_def)
  moreover have "addr t \<in> set (nodes t)" using assms(3) by (cases t) simp_all
  ultimately show ?thesis using root_in [OF assms(2), of t] assms(1) by (auto simp: zip_at_def)
qed

lemma height_way: "length (way key k t fs) \<le> height t + length fs"
proof (induction t arbitrary: fs)
  case (T l a c r)
  from T.IH(1) [of "FL a c r # fs"] T.IH(2) [of "FR l a c # fs"] show ?case by auto
qed simp

text \<open>Search for a key.\<close>

fun lookup :: "(u32 \<Rightarrow> u64) \<Rightarrow> u64 \<Rightarrow> rbt \<Rightarrow> u32" where
  "lookup key k E = 0"
| "lookup key k (T l a c r) = (if k = key a then a else if k < key a then lookup key k l else lookup key k r)"

lemma lookup_sorted:
  assumes "sorted (map key (nodes t))" and "0 \<notin> set (nodes t)"
  shows "(if k \<in> key ` set (nodes t) then lookup key k t \<in> set (nodes t) \<and> key (lookup key k t) = k else lookup key k t = 0)"
  using assms
proof (induction t)
  case (T l a c r)
  have ord: "\<forall>b \<in> set (nodes l). key b \<le> key a" "\<forall>b \<in> set (nodes r). key a \<le> key b" "sorted (map key (nodes l))"
    "sorted (map key (nodes r))" "0 \<notin> set (nodes l)" "0 \<notin> set (nodes r)" using T.prems by (auto simp: sorted_append)
  note IH = T.IH(1) [OF ord(3, 5)] T.IH(2) [OF ord(4, 6)]
  consider "k = key a" | "k < key a" "k \<notin> key ` set (nodes r)" | "key a < k" "k \<notin> key ` set (nodes l)"
    using ord(1, 2) by (metis image_iff leD linorder_neqE)
  then show ?case
  proof cases
    case 1
    then show ?thesis by simp
  next
    case 2
    then have "k \<in> key ` set (nodes (T l a c r)) \<longleftrightarrow> k \<in> key ` set (nodes l)" by auto
    with 2 IH(1) show ?thesis by (auto split: if_splits)
  next
    case 3
    then have "k \<in> key ` set (nodes (T l a c r)) \<longleftrightarrow> k \<in> key ` set (nodes r)" "\<not> k < key a" by auto
    with 3 IH(2) show ?thesis by (auto split: if_splits)
  qed
qed simp

lemma while_option_turns:
  "(\<And>i. i < m \<Longrightarrow> b ((c ^^ i) s)) \<Longrightarrow> \<not> b ((c ^^ m) s) \<Longrightarrow> while_option b c s = Some ((c ^^ m) s)"
proof (induction m arbitrary: s)
  case 0
  then show ?case by (simp add: while_option_unfold)
next
  case (Suc m)
  have "b s" using Suc.prems(1) [of 0] by simp
  moreover have "while_option b c (c s) = Some ((c ^^ m) (c s))"
    using Suc.prems Suc.prems(1) [of "Suc i" for i] by (intro Suc.IH) (simp_all add: funpow_swap1)
  ultimately show ?case by (subst while_option_unfold) (simp add: funpow_swap1)
qed

lemma while_option_never: "I s \<Longrightarrow> (\<And>s. I s \<Longrightarrow> b s \<and> I (c s)) \<Longrightarrow> while_option b c s = None"
  using while_option_rule [of I b c s] while_option_stop [of b c s] by (metis not_None_eq)

text \<open>The number of turns of the search loop is at most the height.\<close>

lemma lookup_turns:
  assumes "tree_at h p t" and f: "\<And>cur. f cur = (if k < key cur then rb_left (h cur) else rb_right (h cur))"
  shows "\<exists>m \<le> height t. (f ^^ m) (addr t) = lookup key k t \<and> (\<forall>i < m. (f ^^ i) (addr t) \<noteq> 0 \<and> k \<noteq> key ((f ^^ i) (addr t)))"
  using assms(1)
proof (induction t arbitrary: p)
  case (T l a c r)
  show ?case
  proof (cases "k = key a")
    case True
    then show ?thesis by (intro exI [of _ 0]) simp
  next
    case False
    define u where "u = (if k < key a then l else r)"
    have step: "f a = addr u" "lookup key k (T l a c r) = lookup key k u" "height u < height (T l a c r)" "a \<noteq> 0"
      using T.prems False by (auto simp: u_def f)
    obtain m where m: "m \<le> height u" "(f ^^ m) (addr u) = lookup key k u"
        "\<forall>i < m. (f ^^ i) (addr u) \<noteq> 0 \<and> k \<noteq> key ((f ^^ i) (addr u))"
      using T.IH(1) [of a] T.IH(2) [of a] T.prems unfolding u_def by (cases "k < key a") auto
    have shift: "(f ^^ Suc i) a = (f ^^ i) (addr u)" for i by (simp add: funpow_swap1 step(1))
    have "(f ^^ i) a \<noteq> 0 \<and> k \<noteq> key ((f ^^ i) a)" if "i < Suc m" for i
      using that m(3) shift step(4) False by (cases i) (simp_all del: funpow.simps(2))
    moreover have "(f ^^ Suc m) a = lookup key k (T l a c r)" using shift m(2) step(2) by (simp only:)
    moreover have "Suc m \<le> height (T l a c r)" using m(1) step(3) by linarith
    ultimately show ?thesis unfolding addr.simps by blast
  qed
qed simp

text \<open>The least and the greatest node, and the neighbours in order.\<close>

definition first_of :: "u32 list \<Rightarrow> u32" where
  "first_of ns = (case ns of [] \<Rightarrow> 0 | a # _ \<Rightarrow> a)"

lemma first_of_simps [simp]:
  "first_of [] = 0" "first_of (a # ns) = a" "ns \<noteq> [] \<Longrightarrow> first_of (ns @ ms) = first_of ns"
  by (auto simp: first_of_def split: list.split)

lemma nodes_Nil [simp]: "nodes t = [] \<longleftrightarrow> t = E"
  by (cases t) simp_all

lemma leftmost_loop:
  "tree_at h p t \<Longrightarrow> t \<noteq> E \<Longrightarrow>
     while_option (\<lambda>x. rb_left (h x) \<noteq> 0) (\<lambda>x. rb_left (h x)) (addr t) = Some (first_of (nodes t))"
proof (induction t arbitrary: p)
  case (T l a c r)
  then show ?case using addr_zero [of h a l] by (subst while_option_unfold) (cases "l = E"; auto)
qed simp

lemma rightmost_loop:
  "tree_at h p t \<Longrightarrow> t \<noteq> E \<Longrightarrow>
     while_option (\<lambda>x. rb_right (h x) \<noteq> 0) (\<lambda>x. rb_right (h x)) (addr t) = Some (first_of (rev (nodes t)))"
proof (induction t arbitrary: p)
  case (T l a c r)
  then show ?case using addr_zero [of h a r] by (subst while_option_unfold) (cases "r = E"; auto)
qed simp

lemma climb_right_loop:
  "zip_at h root t fs \<Longrightarrow> t \<noteq> E \<Longrightarrow>
     map_option snd (while_option (\<lambda>(n, p). p \<noteq> 0 \<and> n = rb_right (h p)) (\<lambda>(n, p). (p, rb_parent (h p))) (addr t, caddr fs)) =
       Some (first_of (nodes_r fs))"
proof (induction fs arbitrary: t)
  case (Cons f fs)
  have z: "zip_at h root (wrap t f) fs" using Cons.prems by (simp add: zip_move)
  show ?case
  proof (cases f)
    case (FL a c r)
    from zip_top [OF z [unfolded FL wrap.simps]] Cons.prems(2) FL show ?thesis by (subst while_option_unfold) auto
  next
    case (FR l a c)
    from zip_top [OF z [unfolded FR wrap.simps]] Cons.IH [OF z] FR show ?thesis by (subst while_option_unfold) auto
  qed
qed (simp add: while_option_unfold)

lemma climb_left_loop:
  "zip_at h root t fs \<Longrightarrow> t \<noteq> E \<Longrightarrow>
     map_option snd (while_option (\<lambda>(n, p). p \<noteq> 0 \<and> n = rb_left (h p)) (\<lambda>(n, p). (p, rb_parent (h p))) (addr t, caddr fs)) =
       Some (first_of (rev (nodes_l fs)))"
proof (induction fs arbitrary: t)
  case (Cons f fs)
  have z: "zip_at h root (wrap t f) fs" using Cons.prems by (simp add: zip_move)
  show ?case
  proof (cases f)
    case (FL a c r)
    from zip_top [OF z [unfolded FL wrap.simps]] Cons.IH [OF z] FL show ?thesis by (subst while_option_unfold) auto
  next
    case (FR l a c)
    from zip_top [OF z [unfolded FR wrap.simps]] Cons.prems(2) FR show ?thesis by (subst while_option_unfold) auto
  qed
qed (simp add: while_option_unfold)

text \<open>A node with at most one child taken out: its child, or nothing, is in its place.\<close>

lemma zip_unlink:
  assumes z: "zip_at h root (T l n c r) fs" and "l = E \<or> r = E" and x: "x = (if l = E then r else l)"
    and same: "\<And>a. a \<noteq> n \<Longrightarrow> a \<noteq> addr x \<Longrightarrow> fs = [] \<or> a \<noteq> caddr fs \<Longrightarrow> h' a = h a"
    and child: "addr x \<noteq> 0 \<Longrightarrow> addr x \<noteq> n \<Longrightarrow> fs = [] \<or> addr x \<noteq> caddr fs \<Longrightarrow> h' (addr x) = (h (addr x))\<lparr>rb_parent := caddr fs\<rparr>"
    and parent: "caddr fs \<noteq> 0 \<Longrightarrow> caddr fs \<noteq> n \<Longrightarrow> caddr fs \<noteq> addr x \<Longrightarrow>
      h' (caddr fs) = (if rb_left (h (caddr fs)) = n then (h (caddr fs))\<lparr>rb_left := addr x\<rparr> else (h (caddr fs))\<lparr>rb_right := addr x\<rparr>)"
    and root': "root' = (if caddr fs = 0 then addr x else root)"
  shows "zip_at h' root' x fs"
proof -
  let ?p = "caddr fs"
  note top = zip_top [OF z]
  have d: "distinct (nodes_l fs @ nodes (T l n c r) @ nodes_r fs)" and ctx: "ctx_at h root n fs"
    using z by (simp_all add: zip_at_def)
  have dx: "distinct (n # nodes_l fs @ nodes x @ nodes_r fs)" using d assms(2) x by auto
  have tx: "tree_at h n x" using z x by (simp add: zip_at_def)
  have c: "?p = 0 \<longleftrightarrow> fs = []" "fs \<noteq> [] \<Longrightarrow> ?p \<in> fnodes fs"
    using caddr_in [of fs] ctx_nonzero [OF ctx] by (cases "fs = []"; auto)+
  have ax: "addr x = 0 \<or> addr x \<in> set (nodes x)" using addr_in_nodes by blast
  have "tree_at h' ?p x"
  proof (rule tree_reparent [OF tx])
    show "distinct (nodes x)" using dx by simp
    show "h' a = h a" if "a \<in> set (nodes x)" "a \<noteq> addr x" for a using that dx c by (intro same) auto
    show "h' (addr x) = (h (addr x))\<lparr>rb_parent := ?p\<rparr>" if "x \<noteq> E"
      using that ax dx c addr_zero [OF tx] by (intro child) auto
  qed
  moreover have "ctx_at h' (if fs = [] then addr x else root) (addr x) fs"
  proof (rule ctx_relink [OF ctx])
    show "distinct (nodes_l fs @ nodes_r fs)" "n \<noteq> 0" "n \<notin> fnodes fs" using dx top by auto
    show "h' a = h a" if "a \<in> fnodes fs" "a \<noteq> ?p" for a
      using that dx ax ctx_nonzero [OF ctx] by (intro same) auto
    show "h' ?p = (if rb_left (h ?p) = n then (h ?p)\<lparr>rb_left := addr x\<rparr> else (h ?p)\<lparr>rb_right := addr x\<rparr>)" if "fs \<noteq> []"
      using that c dx ax ctx_nonzero [OF ctx] by (intro parent) auto
  qed
  ultimately show ?thesis using dx c root' by (auto simp: zip_at_def)
qed

subsection \<open>The contract of the loop\<close>

text \<open>
  A loop that restores the balance: its state shows a memory, a root and the current node; the loop goes on
  exactly while the parent is red, and each turn is \<^const>\<open>fix_step\<close> on the tree in memory. Both copies of the
  algorithm fulfil this, so both loops end in a balanced tree with the nodes in the same order.
\<close>

locale rb_fixer =
  fixes guard :: "'s \<Rightarrow> bool"
    and turn :: "'s \<Rightarrow> 's"
    and view :: "'s \<Rightarrow> 'a rb_mem \<times> u32 \<times> u32"
  assumes guard_red: "view s = (h, root, addr t) \<Longrightarrow> zip_at h root t fs \<Longrightarrow> red_focus t fs \<Longrightarrow> guard s \<longleftrightarrow> red_top fs"
    and turn_fix: "view s = (h, root, addr t) \<Longrightarrow> zip_at h root t fs \<Longrightarrow> red_focus t fs \<Longrightarrow> red_top fs \<Longrightarrow>
      fix_step t fs = (t', fs') \<Longrightarrow>
      \<exists>h' root'. view (turn s) = (h', root', addr t') \<and> zip_at h' root' t' fs' \<and> (\<forall>a. rb_node.more (h' a) = rb_node.more (h a))"
begin

lemma loop_balances:
  assumes "view s = (h, root, addr t)" and "zip_at h root t fs" and "red_focus t fs"
  shows "\<exists>s' h' root' n' t'. while_option guard turn s = Some s' \<and> view s' = (h', root', n') \<and> zip_at h' root' t' [] \<and>
    balanced t' \<and> t' \<noteq> E \<and> nodes t' = nodes (plug t fs) \<and> (\<forall>a. rb_node.more (h' a) = rb_node.more (h a))"
  using assms
proof (induction "length fs" arbitrary: s h root t fs rule: less_induct)
  case less
  show ?case
  proof (cases "red_top fs")
    case False
    have "balanced (plug t fs)" using less.prems(3) False by (intro plug_balanced) (auto simp: red_focus_def)
    moreover have "plug t fs \<noteq> E"
    proof
      assume "plug t fs = E"
      then have "nodes t = []" using nodes_plug [of t fs] by simp
      then show False using less.prems(3) by (cases t) (simp_all add: red_focus_def)
    qed
    moreover have "while_option guard turn s = Some s"
      using guard_red [OF less.prems] False by (subst while_option_unfold) simp
    ultimately show ?thesis using less.prems(1, 2) zip_at_unzip by blast
  next
    case True
    obtain t1 fs1 where st: "fix_step t fs = (t1, fs1)" by (cases "fix_step t fs")
    from turn_fix [OF less.prems True st] obtain h1 root1 where
      1: "view (turn s) = (h1, root1, addr t1)" "zip_at h1 root1 t1 fs1" "\<forall>a. rb_node.more (h1 a) = rb_node.more (h a)" by blast
    from fix_step_red_focus [OF less.prems(3) True st]
    have 2: "red_focus t1 fs1" "length fs1 < length fs" "nodes (plug t1 fs1) = nodes (plug t fs)" by simp_all
    have "while_option guard turn s = while_option guard turn (turn s)"
      using guard_red [OF less.prems] True by (subst while_option_unfold) simp
    with less.hyps [OF 2(2) 1(1, 2) 2(1)] 1(3) 2(3) show ?thesis by simp
  qed
qed

end

end
