(* ===== verification/Rbtree.thy ===== *)
theory Rbtree
  imports RbHeap
begin

text \<open>
  The intrusive red-black tree of the library, \<open>lib/rbtree.c\<close>. Nodes and roots live at addresses and 0 is
  NULL; the keys are 64-bit cells of the user's structures at a fixed offset from their node, given by
  \<open>um\<close>, the memory the library reads and never writes. The statistics are global. A result \<open>None\<close> says that the
  routine does not return.
\<close>

subsection \<open>State and operations\<close>

record rbtree_stats =
  inserts :: u64
  erases :: u64
  finds :: u64
  rotations :: u64
  max_depth :: u32

record rb_sys =
  rb_nodes :: "u32 \<Rightarrow> rb_node"
  rb_roots :: "u32 \<Rightarrow> u32"
  g_stats :: rbtree_stats

definition key_of :: "(u32 \<Rightarrow> u64) \<Rightarrow> u32 \<Rightarrow> u32 \<Rightarrow> u64" where
  "key_of um off n = um (n + off)"

definition put_tree :: "rb_sys \<Rightarrow> u32 \<Rightarrow> (u32 \<Rightarrow> rb_node) \<times> u32 \<Rightarrow> rb_sys" where
  "put_tree st R hr = st\<lparr>rb_nodes := fst hr, rb_roots := (rb_roots st)(R := snd hr)\<rparr>"

definition count_rotation :: "rb_sys \<Rightarrow> rb_sys" where
  "count_rotation st = st\<lparr>g_stats := (g_stats st)\<lparr>rotations := rotations (g_stats st) + 1\<rparr>\<rparr>"

definition left_rotate :: "rb_sys \<Rightarrow> u32 \<Rightarrow> u32 \<Rightarrow> rb_sys" where
  "left_rotate st R x = put_tree (count_rotation st) R (rot_left (rb_nodes st, rb_roots st R) x)"

definition right_rotate :: "rb_sys \<Rightarrow> u32 \<Rightarrow> u32 \<Rightarrow> rb_sys" where
  "right_rotate st R x = put_tree (count_rotation st) R (rot_right (rb_nodes st, rb_roots st R) x)"

definition upd_nodes :: "((u32 \<Rightarrow> rb_node) \<Rightarrow> u32 \<Rightarrow> rb_node) \<Rightarrow> rb_sys \<Rightarrow> rb_sys" where
  "upd_nodes f st = st\<lparr>rb_nodes := f (rb_nodes st)\<rparr>"

definition rbtree_init :: "rb_sys \<Rightarrow> u32 \<Rightarrow> rb_sys" where
  "rbtree_init st R = (if R \<noteq> 0 then st\<lparr>rb_roots := (rb_roots st)(R := 0)\<rparr> else st)"

definition rbtree_empty :: "rb_sys \<Rightarrow> u32 \<Rightarrow> bool" where
  "rbtree_empty st R \<longleftrightarrow> R = 0 \<or> rb_roots st R = 0"

text \<open>The condition and the body of the rebalancing loop, on the state and the current node.\<close>

definition fix_guard :: "u32 \<Rightarrow> rb_sys \<times> u32 \<Rightarrow> bool" where
  "fix_guard R = (\<lambda>(st, node). node \<noteq> rb_roots st R \<and> rb_color (rb_nodes st (rb_parent (rb_nodes st node))) = RB_RED)"

definition recolor :: "u32 \<Rightarrow> u32 \<Rightarrow> u32 \<Rightarrow> rb_sys \<Rightarrow> rb_sys" where
  "recolor u p gp = upd_nodes (\<lambda>h. set_color (set_color (set_color h u RB_BLACK) p RB_BLACK) gp RB_RED)"

definition up :: "rb_sys \<Rightarrow> u32 \<Rightarrow> u32" where
  "up st n = rb_parent (rb_nodes st n)"

definition fix_turn :: "u32 \<Rightarrow> rb_sys \<times> u32 \<Rightarrow> rb_sys \<times> u32" where
  "fix_turn R = (\<lambda>(st, node).
     let p = up st node; gp = up st p; h = rb_nodes st in
     if p = rb_left (h gp)
     then (let u = rb_right (h gp) in
           if u \<noteq> 0 \<and> rb_color (h u) = RB_RED then (recolor u p gp st, gp)
           else let (st1, n1) = (if node = rb_right (h p) then (left_rotate st R p, p) else (st, node));
                    st2 = upd_nodes (\<lambda>h. set_color h (up st1 n1) RB_BLACK) st1;
                    st3 = upd_nodes (\<lambda>h. set_color h (up st2 (up st2 n1)) RB_RED) st2
                in (right_rotate st3 R (up st3 (up st3 n1)), n1))
     else (let u = rb_left (h gp) in
           if u \<noteq> 0 \<and> rb_color (h u) = RB_RED then (recolor u p gp st, gp)
           else let (st1, n1) = (if node = rb_left (h p) then (right_rotate st R p, p) else (st, node));
                    st2 = upd_nodes (\<lambda>h. set_color h (up st1 n1) RB_BLACK) st1;
                    st3 = upd_nodes (\<lambda>h. set_color h (up st2 (up st2 n1)) RB_RED) st2
                in (left_rotate st3 R (up st3 (up st3 n1)), n1)))"

definition link_node :: "(u32 \<Rightarrow> u64) \<Rightarrow> u32 \<Rightarrow> u64 \<Rightarrow> u32 \<Rightarrow> u32 \<Rightarrow> u32 \<Rightarrow> rb_sys \<Rightarrow> rb_sys" where
  "link_node um off key R parent node st =
     (let st1 = upd_nodes (\<lambda>h. set_parent h node parent) st in
      if parent = 0 then st1\<lparr>rb_roots := (rb_roots st1)(R := node)\<rparr>
      else if key < key_of um off parent then upd_nodes (\<lambda>h. set_left h parent node) st1
      else upd_nodes (\<lambda>h. set_right h parent node) st1)"

definition rbtree_insert :: "(u32 \<Rightarrow> u64) \<Rightarrow> rb_sys \<Rightarrow> u32 \<Rightarrow> u32 \<Rightarrow> u64 \<Rightarrow> u32 \<Rightarrow> rb_sys option" where
  "rbtree_insert um st R node key off =
     (if R = 0 \<or> node = 0 then Some st
      else let st0 = st\<lparr>g_stats := (g_stats st)\<lparr>inserts := inserts (g_stats st) + 1\<rparr>\<rparr>;
               st1 = upd_nodes (\<lambda>h. set_color (set_right (set_left h node 0) node 0) node RB_RED) st0 in
           case while_option (\<lambda>(cur, parent). cur \<noteq> 0)
                  (\<lambda>(cur, parent). (if key < key_of um off cur then rb_left (rb_nodes st1 cur) else rb_right (rb_nodes st1 cur), cur))
                  (rb_roots st1 R, 0) of
             None \<Rightarrow> None
           | Some (_, parent) \<Rightarrow>
               (case while_option (fix_guard R) (fix_turn R) (link_node um off key R parent node st1, node) of
                  None \<Rightarrow> None
                | Some (st2, _) \<Rightarrow> Some (upd_nodes (\<lambda>h. set_color h (rb_roots st2 R) RB_BLACK) st2)))"

definition find_turn :: "(u32 \<Rightarrow> u64) \<Rightarrow> rb_sys \<Rightarrow> u64 \<Rightarrow> u32 \<Rightarrow> u32 \<Rightarrow> u32" where
  "find_turn um st key off cur = (if key < key_of um off cur then rb_left (rb_nodes st cur) else rb_right (rb_nodes st cur))"

definition rbtree_find :: "(u32 \<Rightarrow> u64) \<Rightarrow> rb_sys \<Rightarrow> u32 \<Rightarrow> u64 \<Rightarrow> u32 \<Rightarrow> (u32 \<times> rb_sys) option" where
  "rbtree_find um st R key off =
     (let st1 = st\<lparr>g_stats := (g_stats st)\<lparr>finds := finds (g_stats st) + 1\<rparr>\<rparr> in
      map_option (\<lambda>cur. (cur, st1))
        (while_option (\<lambda>cur. cur \<noteq> 0 \<and> key \<noteq> key_of um off cur) (find_turn um st key off) (if R \<noteq> 0 then rb_roots st R else 0)))"

definition tree_min :: "(u32 \<Rightarrow> rb_node) \<Rightarrow> u32 \<Rightarrow> u32 option" where
  "tree_min h x = (if x = 0 then Some 0 else while_option (\<lambda>x. rb_left (h x) \<noteq> 0) (\<lambda>x. rb_left (h x)) x)"

definition tree_max :: "(u32 \<Rightarrow> rb_node) \<Rightarrow> u32 \<Rightarrow> u32 option" where
  "tree_max h x = (if x = 0 then Some 0 else while_option (\<lambda>x. rb_right (h x) \<noteq> 0) (\<lambda>x. rb_right (h x)) x)"

definition rbtree_first :: "rb_sys \<Rightarrow> u32 \<Rightarrow> u32 option" where
  "rbtree_first st R = tree_min (rb_nodes st) (if R \<noteq> 0 then rb_roots st R else 0)"

definition rbtree_last :: "rb_sys \<Rightarrow> u32 \<Rightarrow> u32 option" where
  "rbtree_last st R = tree_max (rb_nodes st) (if R \<noteq> 0 then rb_roots st R else 0)"

text \<open>The climb from a node to the first ancestor of which it is not below the side \<open>side\<close>.\<close>

definition climb :: "(u32 \<Rightarrow> u32) \<Rightarrow> (u32 \<Rightarrow> rb_node) \<Rightarrow> u32 \<Rightarrow> u32 option" where
  "climb side h node =
     map_option snd (while_option (\<lambda>(n, p). p \<noteq> 0 \<and> n = side p) (\<lambda>(n, p). (p, rb_parent (h p))) (node, rb_parent (h node)))"

definition rbtree_next :: "rb_sys \<Rightarrow> u32 \<Rightarrow> u32 option" where
  "rbtree_next st node =
     (let h = rb_nodes st in
      if node = 0 then Some 0
      else if rb_right (h node) \<noteq> 0 then tree_min h (rb_right (h node))
      else climb (\<lambda>p. rb_right (h p)) h node)"

definition rbtree_prev :: "rb_sys \<Rightarrow> u32 \<Rightarrow> u32 option" where
  "rbtree_prev st node =
     (let h = rb_nodes st in
      if node = 0 then Some 0
      else if rb_left (h node) \<noteq> 0 then tree_max h (rb_left (h node))
      else climb (\<lambda>p. rb_left (h p)) h node)"

text \<open>The parent of \<open>node\<close>, or the root, gets \<open>x\<close> in its place.\<close>

definition replace_child :: "u32 \<Rightarrow> u32 \<Rightarrow> u32 \<Rightarrow> rb_sys \<Rightarrow> rb_sys" where
  "replace_child R node x st =
     (let p = up st node in
      if p = 0 then st\<lparr>rb_roots := (rb_roots st)(R := x)\<rparr>
      else if node = rb_left (rb_nodes st p) then upd_nodes (\<lambda>h. set_left h p x) st
      else upd_nodes (\<lambda>h. set_right h p x) st)"

definition detach :: "u32 \<Rightarrow> rb_sys \<Rightarrow> rb_sys" where
  "detach node = upd_nodes (\<lambda>h. set_parent (set_left (set_right h node 0) node 0) node 0)"

definition set_parent_if :: "u32 \<Rightarrow> u32 \<Rightarrow> (u32 \<Rightarrow> rb_node) \<Rightarrow> u32 \<Rightarrow> rb_node" where
  "set_parent_if x p h = (if x \<noteq> 0 then set_parent h x p else h)"

text \<open>The two branches of the removal: a node with two children is replaced by the least node \<open>y\<close> of its
  right subtree, any other by its child.\<close>

definition erase_two :: "u32 \<Rightarrow> u32 \<Rightarrow> u32 \<Rightarrow> rb_sys \<Rightarrow> rb_sys" where
  "erase_two R node y st =
     (let h = rb_nodes st; x = rb_right (h y);
          h1 = (if rb_parent (h y) = node then set_parent_if x y h
                else let h' = set_right (set_parent_if x (rb_parent (h y)) h) y (rb_right (h node))
                     in set_parent_if (rb_right (h' node)) y h');
          h2 = set_left h1 y (rb_left (h1 node));
          h3 = set_parent_if (rb_left (h2 node)) y h2;
          h4 = set_parent h3 y (rb_parent (h3 node));
          h5 = set_color h4 y (rb_color (h4 node))
      in detach node (replace_child R node y (upd_nodes (\<lambda>_. h5) st)))"

definition erase_one :: "u32 \<Rightarrow> u32 \<Rightarrow> u32 \<Rightarrow> rb_sys \<Rightarrow> rb_sys" where
  "erase_one R node x st =
     (let y_color = rb_color (rb_nodes st node); x_parent = up st node;
          st1 = upd_nodes (set_parent_if x x_parent) st;
          st2 = upd_nodes (\<lambda>h. set_color h node 0) (detach node (replace_child R node x st1))
      in if y_color = RB_BLACK \<and> x_parent \<noteq> 0 \<and> x \<noteq> 0 then upd_nodes (\<lambda>h. set_color h x RB_BLACK) st2 else st2)"

definition rbtree_erase :: "rb_sys \<Rightarrow> u32 \<Rightarrow> u32 \<Rightarrow> rb_sys option" where
  "rbtree_erase st R node =
     (if R = 0 \<or> node = 0 then Some st
      else let st1 = st\<lparr>g_stats := (g_stats st)\<lparr>erases := erases (g_stats st) + 1\<rparr>\<rparr>; h = rb_nodes st1 in
           if rb_left (h node) = 0 then Some (erase_one R node (rb_right (h node)) st1)
           else if rb_right (h node) = 0 then Some (erase_one R node (rb_left (h node)) st1)
           else map_option (\<lambda>y. erase_two R node y st1) (tree_min h (rb_right (h node))))"

definition rbtree_get_stats :: "rb_sys \<Rightarrow> rbtree_stats" where
  "rbtree_get_stats st = g_stats st"

definition rbtree_reset_stats :: "rb_sys \<Rightarrow> rb_sys" where
  "rbtree_reset_stats st = st\<lparr>g_stats := \<lparr>inserts = 0, erases = 0, finds = 0, rotations = 0, max_depth = 0\<rparr>\<rparr>"

lemmas sys_defs = put_tree_def count_rotation_def upd_nodes_def

subsection \<open>The rebalancing loop\<close>

definition fix_view :: "u32 \<Rightarrow> rb_sys \<times> u32 \<Rightarrow> (u32 \<Rightarrow> rb_node) \<times> u32 \<times> u32" where
  "fix_view R = (\<lambda>(st, node). (rb_nodes st, rb_roots st R, node))"

lemma fix_guard_red:
  assumes "fix_view R s = (h, root, addr t)" and "zip_at h root t fs" and "red_focus t fs"
  shows "fix_guard R s \<longleftrightarrow> red_top fs"
proof -
  obtain st node where s: "s = (st, node)" by (cases s)
  obtain l n c r where t: "t = T l n c r" using assms(3) by (cases t) (auto simp: red_focus_def)
  note top = zip_top [OF assms(2) [unfolded t]]
  show ?thesis
  proof (cases fs)
    case Nil
    with assms s t show ?thesis by (simp add: fix_view_def fix_guard_def zip_at_def)
  next
    case (Cons f gs)
    then obtain a where a: "a = caddr fs" "rb_color (h a) = fcolor f" "a \<in> fnodes fs"
      using assms(2) caddr_in [of fs] by (cases f) (auto simp: zip_at_def)
    have "root \<noteq> n" using zip_root [OF assms(2)] Cons t by simp
    with assms s t top a Cons show ?thesis by (simp add: fix_view_def fix_guard_def)
  qed
qed

lemma rotate_nodes [simp]:
  "rb_nodes (left_rotate st R x) = fst (rot_left (rb_nodes st, rb_roots st R) x)"
  "rb_roots (left_rotate st R x) R = snd (rot_left (rb_nodes st, rb_roots st R) x)"
  "rb_nodes (right_rotate st R x) = fst (rot_right (rb_nodes st, rb_roots st R) x)"
  "rb_roots (right_rotate st R x) R = snd (rot_right (rb_nodes st, rb_roots st R) x)"
  by (simp_all add: left_rotate_def right_rotate_def sys_defs)

lemma upd_nodes_sel [simp]:
  "rb_nodes (upd_nodes f st) = f (rb_nodes st)" "rb_roots (upd_nodes f st) = rb_roots st" "g_stats (upd_nodes f st) = g_stats st"
  by (simp_all add: upd_nodes_def)

text \<open>The end of a turn: the parent black, the grandparent red, and a rotation at the grandparent.\<close>

lemma turn_end_left:
  assumes "zip_at (rb_nodes st) (rb_roots st R) (T (T l n e r) p c s) (FL g d u # fs)"
    and "st2 = upd_nodes (\<lambda>h. set_color h (up st n) RB_BLACK) st"
    and "st3 = upd_nodes (\<lambda>h. set_color h (up st2 (up st2 n)) RB_RED) st2"
  shows "zip_at (rb_nodes (right_rotate st3 R (up st3 (up st3 n)))) (rb_roots (right_rotate st3 R (up st3 (up st3 n))) R)
      (T l n e r) (FL p RB_BLACK (T s g RB_RED u) # fs) \<and>
    (\<forall>a. rb_node.more (rb_nodes (right_rotate st3 R (up st3 (up st3 n))) a) = rb_node.more (rb_nodes st a))"
proof -
  have "zip_at (rb_nodes st) (rb_roots st R) (T l n e r) (FL p c s # FL g d u # fs)" using assms(1) by (simp add: zip_move)
  from zip_top(4) [OF this] zip_top(4) [OF assms(1)] have up: "up st n = p" "up st p = g" by (simp_all add: up_def)
  then have "up st2 n = p" "up st2 p = g" "up st3 n = p" "up st3 p = g" by (simp_all add: assms(2, 3) up_def)
  with finish_left [OF assms(1)] up show ?thesis by (simp add: assms(2, 3) prod_eq_iff)
qed

lemma turn_end_right:
  assumes "zip_at (rb_nodes st) (rb_roots st R) (T s p c (T l n e r)) (FR u g d # fs)"
    and "st2 = upd_nodes (\<lambda>h. set_color h (up st n) RB_BLACK) st"
    and "st3 = upd_nodes (\<lambda>h. set_color h (up st2 (up st2 n)) RB_RED) st2"
  shows "zip_at (rb_nodes (left_rotate st3 R (up st3 (up st3 n)))) (rb_roots (left_rotate st3 R (up st3 (up st3 n))) R)
      (T l n e r) (FR (T u g RB_RED s) p RB_BLACK # fs) \<and>
    (\<forall>a. rb_node.more (rb_nodes (left_rotate st3 R (up st3 (up st3 n))) a) = rb_node.more (rb_nodes st a))"
proof -
  have "zip_at (rb_nodes st) (rb_roots st R) (T l n e r) (FR s p c # FR u g d # fs)" using assms(1) by (simp add: zip_move)
  from zip_top(4) [OF this] zip_top(4) [OF assms(1)] have up: "up st n = p" "up st p = g" by (simp_all add: up_def)
  then have "up st2 n = p" "up st2 p = g" "up st3 n = p" "up st3 p = g" by (simp_all add: assms(2, 3) up_def)
  with finish_right [OF assms(1)] up show ?thesis by (simp add: assms(2, 3) prod_eq_iff)
qed

text \<open>The four positions of a node below its grandparent.\<close>

definition turn_ok :: "u32 \<Rightarrow> rb_sys \<Rightarrow> rbt \<Rightarrow> frame list \<Rightarrow> bool" where
  "turn_ok R st t fs \<longleftrightarrow>
     (case fix_step t fs of (t', fs') \<Rightarrow>
        \<exists>st'. fix_turn R (st, addr t) = (st', addr t') \<and> zip_at (rb_nodes st') (rb_roots st' R) t' fs' \<and>
          (\<forall>a. rb_node.more (rb_nodes st' a) = rb_node.more (rb_nodes st a)))"

lemma recolor_more: "rb_node.more (rb_nodes (recolor u p g st) a) = rb_node.more (rb_nodes st a)"
  by (simp add: recolor_def)

lemma fix_turn_LL:
  assumes "zip_at (rb_nodes st) (rb_roots st R) (T l n e r) (FL p c s # FL g d u # fs)"
  shows "turn_ok R st (T l n e r) (FL p c s # FL g d u # fs)"
proof -
  have z: "zip_at (rb_nodes st) (rb_roots st R) (T (T l n e r) p c s) (FL g d u # fs)" and zz: "zip_at (rb_nodes st) (rb_roots st R) (T (T (T l n e r) p c s) g d u) fs"
    using assms by (simp_all add: zip_move)
  note t = zip_top [OF assms] zip_top [OF z] zip_top [OF zz]
  note u = zip_red [OF zz]
  show ?thesis
  proof (cases "rcolor u = RB_RED")
    case True
    then have "u \<noteq> E" by auto
    moreover have "fix_turn R (st, n) = (recolor (addr u) p g st, g)"
      using t u True by (simp add: fix_turn_def up_def Let_def)
    ultimately show ?thesis using True recolor_left [OF z] by (simp add: turn_ok_def recolor_more) (simp add: recolor_def)
  next
    case False
    define st2 where "st2 = upd_nodes (\<lambda>h. set_color h (up st n) RB_BLACK) st"
    define st3 where "st3 = upd_nodes (\<lambda>h. set_color h (up st2 (up st2 n)) RB_RED) st2"
    have "fix_turn R (st, n) = (right_rotate st3 R (up st3 (up st3 n)), n)"
      unfolding st3_def st2_def using t u False by (auto simp: fix_turn_def up_def Let_def)
    then show ?thesis using False turn_end_left [OF z st2_def st3_def] by (simp add: turn_ok_def)
  qed
qed

lemma fix_turn_RR:
  assumes "zip_at (rb_nodes st) (rb_roots st R) (T l n e r) (FR s p c # FR u g d # fs)"
  shows "turn_ok R st (T l n e r) (FR s p c # FR u g d # fs)"
proof -
  have z: "zip_at (rb_nodes st) (rb_roots st R) (T s p c (T l n e r)) (FR u g d # fs)" and zz: "zip_at (rb_nodes st) (rb_roots st R) (T u g d (T s p c (T l n e r))) fs"
    using assms by (simp_all add: zip_move)
  note t = zip_top [OF assms] zip_top [OF z] zip_top [OF zz]
  note u = zip_red [OF zz]
  show ?thesis
  proof (cases "rcolor u = RB_RED")
    case True
    then have "u \<noteq> E" by auto
    moreover have "fix_turn R (st, n) = (recolor (addr u) p g st, g)"
      using t u True by (simp add: fix_turn_def up_def Let_def)
    ultimately show ?thesis using True recolor_right [OF z] by (simp add: turn_ok_def recolor_more) (simp add: recolor_def)
  next
    case False
    define st2 where "st2 = upd_nodes (\<lambda>h. set_color h (up st n) RB_BLACK) st"
    define st3 where "st3 = upd_nodes (\<lambda>h. set_color h (up st2 (up st2 n)) RB_RED) st2"
    have "fix_turn R (st, n) = (left_rotate st3 R (up st3 (up st3 n)), n)"
      unfolding st3_def st2_def using t u False by (auto simp: fix_turn_def up_def Let_def)
    then show ?thesis using False turn_end_right [OF z st2_def st3_def] by (simp add: turn_ok_def)
  qed
qed

lemma fix_turn_LR:
  assumes "zip_at (rb_nodes st) (rb_roots st R) (T l n e r) (FR s p c # FL g d u # fs)"
  shows "turn_ok R st (T l n e r) (FR s p c # FL g d u # fs)"
proof -
  have z: "zip_at (rb_nodes st) (rb_roots st R) (T s p c (T l n e r)) (FL g d u # fs)" and zz: "zip_at (rb_nodes st) (rb_roots st R) (T (T s p c (T l n e r)) g d u) fs"
    using assms by (simp_all add: zip_move)
  note t = zip_top [OF assms] zip_top [OF z] zip_top [OF zz]
  note u = zip_red [OF zz]
  show ?thesis
  proof (cases "rcolor u = RB_RED")
    case True
    then have "u \<noteq> E" by auto
    moreover have "fix_turn R (st, n) = (recolor (addr u) p g st, g)"
      using t u True by (simp add: fix_turn_def up_def Let_def)
    ultimately show ?thesis using True recolor_left [OF z] by (simp add: turn_ok_def recolor_more) (simp add: recolor_def)
  next
    case False
    have up: "up st n = p" "up st p = g" using t by (simp_all add: up_def)
    have nu: "addr u = 0 \<or> rb_color (rb_nodes st (addr u)) \<noteq> RB_RED" using u False by blast
    define st1 where "st1 = left_rotate st R p"
    define st2 where "st2 = upd_nodes (\<lambda>h. set_color h (up st1 p) RB_BLACK) st1"
    define st3 where "st3 = upd_nodes (\<lambda>h. set_color h (up st2 (up st2 p)) RB_RED) st2"
    have 1: "zip_at (rb_nodes st1) (rb_roots st1 R) (T (T s p c l) n e r) (FL g d u # fs)"
      using rot_left_zip [OF z] by (simp add: st1_def)
    have "fix_turn R (st, n) = (right_rotate st3 R (up st3 (up st3 p)), p)"
      using up nu t unfolding st3_def st2_def st1_def by (cases "addr u = 0") (simp_all add: fix_turn_def Let_def)
    then show ?thesis using False turn_end_left [OF 1 st2_def st3_def] by (simp add: turn_ok_def st1_def)
  qed
qed

lemma fix_turn_RL:
  assumes "zip_at (rb_nodes st) (rb_roots st R) (T l n e r) (FL p c s # FR u g d # fs)"
  shows "turn_ok R st (T l n e r) (FL p c s # FR u g d # fs)"
proof -
  have z: "zip_at (rb_nodes st) (rb_roots st R) (T (T l n e r) p c s) (FR u g d # fs)" and zz: "zip_at (rb_nodes st) (rb_roots st R) (T u g d (T (T l n e r) p c s)) fs"
    using assms by (simp_all add: zip_move)
  note t = zip_top [OF assms] zip_top [OF z] zip_top [OF zz]
  note u = zip_red [OF zz]
  show ?thesis
  proof (cases "rcolor u = RB_RED")
    case True
    then have "u \<noteq> E" by auto
    moreover have "fix_turn R (st, n) = (recolor (addr u) p g st, g)"
      using t u True by (simp add: fix_turn_def up_def Let_def)
    ultimately show ?thesis using True recolor_right [OF z] by (simp add: turn_ok_def recolor_more) (simp add: recolor_def)
  next
    case False
    have up: "up st n = p" "up st p = g" using t by (simp_all add: up_def)
    have nu: "addr u = 0 \<or> rb_color (rb_nodes st (addr u)) \<noteq> RB_RED" using u False by blast
    define st1 where "st1 = right_rotate st R p"
    define st2 where "st2 = upd_nodes (\<lambda>h. set_color h (up st1 p) RB_BLACK) st1"
    define st3 where "st3 = upd_nodes (\<lambda>h. set_color h (up st2 (up st2 p)) RB_RED) st2"
    have 1: "zip_at (rb_nodes st1) (rb_roots st1 R) (T l n e (T r p c s)) (FR u g d # fs)"
      using rot_right_zip [OF z] by (simp add: st1_def)
    have "fix_turn R (st, n) = (left_rotate st3 R (up st3 (up st3 p)), p)"
      using up nu t unfolding st3_def st2_def st1_def by (cases "addr u = 0") (simp_all add: fix_turn_def Let_def)
    then show ?thesis using False turn_end_right [OF 1 st2_def st3_def] by (simp add: turn_ok_def st1_def)
  qed
qed

lemma fix_turn_ok:
  assumes "zip_at (rb_nodes st) (rb_roots st R) t fs" and "red_focus t fs" and "red_top fs"
  shows "turn_ok R st t fs"
proof -
  obtain l n e r where t: "t = T l n e r" using assms(2) by (cases t) (auto simp: red_focus_def)
  obtain f1 f2 gs where fs: "fs = f1 # f2 # gs"
    using assms(2, 3) by (cases fs; cases "hd fs"; cases "tl fs") (auto simp: red_focus_def)
  show ?thesis
    using assms(1) unfolding t fs by (cases f1; cases f2) (simp_all add: fix_turn_LL fix_turn_RR fix_turn_LR fix_turn_RL)
qed

interpretation lib_fix: rb_fixer "fix_guard R" "fix_turn R" "fix_view R" for R
proof unfold_locales
  fix s h root t fs
  assume "fix_view R s = (h, root, addr t)" "zip_at h root t fs" "red_focus t fs"
  then show "fix_guard R s \<longleftrightarrow> red_top fs" by (rule fix_guard_red)
next
  fix s :: "rb_sys \<times> u32" and h root t fs t' fs'
  assume v: "fix_view R s = (h, root, addr t)" and z: "zip_at h root t fs" and f: "red_focus t fs" "red_top fs"
    and st: "fix_step t fs = (t', fs')"
  obtain st0 where s: "s = (st0, addr t)" "h = rb_nodes st0" "root = rb_roots st0 R" using v by (cases s) (simp add: fix_view_def)
  from fix_turn_ok [OF z [unfolded s(2, 3)] f] st
  show "\<exists>h' root'. fix_view R (fix_turn R s) = (h', root', addr t') \<and> zip_at h' root' t' fs' \<and>
      (\<forall>a. rb_node.more (h' a) = rb_node.more (h a))"
    by (auto simp: turn_ok_def s fix_view_def)
qed

subsection \<open>Insertion and search\<close>

text \<open>The tree at a root: it is in memory, its colours are balanced, and the keys are in order.\<close>

definition is_rbtree :: "(u32 \<Rightarrow> u64) \<Rightarrow> u32 \<Rightarrow> rb_sys \<Rightarrow> u32 \<Rightarrow> rbt \<Rightarrow> bool" where
  "is_rbtree um off st R t \<longleftrightarrow>
     zip_at (rb_nodes st) (rb_roots st R) t [] \<and> balanced t \<and> rcolor t \<noteq> RB_RED \<and> sorted (map (key_of um off) (nodes t))"

lemma link_node_zip:
  assumes z: "zip_at (rb_nodes st) (rb_roots st R) E fs" and n: "node \<noteq> 0" "node \<notin> fnodes fs"
    and new: "rb_left (rb_nodes st node) = 0" "rb_right (rb_nodes st node) = 0" "rb_color (rb_nodes st node) = RB_RED"
    and t: "turned (key_of um off) key fs" and st': "st' = link_node um off key R (caddr fs) node st"
  shows "zip_at (rb_nodes st') (rb_roots st' R) (T E node RB_RED E) fs"
proof -
  have c: "fs \<noteq> [] \<Longrightarrow> caddr fs \<noteq> 0 \<and> caddr fs \<noteq> node"
    using caddr_in [of fs] ctx_nonzero [of "rb_nodes st" "rb_roots st R" 0 fs] z n by (auto simp: zip_at_def)
  have "zip_at (rb_nodes st') (if fs = [] then node else rb_roots st R) (T E node RB_RED E) fs"
  proof (rule zip_insert [OF z n])
    show "rb_nodes st' node = (rb_nodes st node)\<lparr>rb_parent := caddr fs\<rparr>"
      using c by (cases "fs = []") (auto simp: st' link_node_def Let_def set_defs upd_nodes_def)
    show "rb_nodes st' a = rb_nodes st a" if "a \<noteq> node" "fs = [] \<or> a \<noteq> caddr fs" for a
      using that c by (cases "fs = []") (auto simp: st' link_node_def Let_def set_defs upd_nodes_def)
    show "rb_nodes st' a = (rb_nodes st a)\<lparr>rb_left := node\<rparr>" if "fs = FL a d r # gs" for a d r gs
      using that c t by (auto simp: st' link_node_def Let_def set_defs upd_nodes_def)
    show "rb_nodes st' a = (rb_nodes st a)\<lparr>rb_right := node\<rparr>" if "fs = FR l a d # gs" for l a d gs
      using that c t by (auto simp: st' link_node_def Let_def set_defs upd_nodes_def)
  qed (simp_all add: new)
  moreover have "rb_roots st' R = (if fs = [] then node else rb_roots st R)"
    using c by (cases "fs = []") (auto simp: st' link_node_def Let_def upd_nodes_def)
  ultimately show ?thesis by simp
qed

lemma insert_result:
  assumes "is_rbtree um off st R t" and "R \<noteq> 0" and "node \<noteq> 0" and "node \<notin> set (nodes t)" and "key_of um off node = key"
  shows "\<exists>st' t'. rbtree_insert um st R node key off = Some st' \<and> is_rbtree um off st' R t' \<and>
    nodes t' = insort_after (key_of um off) key node (nodes t)"
proof -
  define st1 where "st1 = upd_nodes (\<lambda>h. set_color (set_right (set_left h node 0) node 0) node RB_RED)
    (st\<lparr>g_stats := (g_stats st)\<lparr>inserts := inserts (g_stats st) + 1\<rparr>\<rparr>)"
  let ?k = "key_of um off" and ?fs = "way (key_of um off) key t []"
  define st2 where "st2 = link_node um off key R (caddr ?fs) node st1"
  have ok: "balanced t" "rcolor t \<noteq> RB_RED" "sorted (map ?k (nodes t))" using assms(1) by (simp_all add: is_rbtree_def)
  have "zip_at (rb_nodes st1) (rb_roots st1 R) t []"
    using assms(1, 4) by (auto simp: is_rbtree_def zip_at_def st1_def upd_nodes_def set_defs)
  note z = this
  have nin: "node \<notin> fnodes ?fs" using nodes_plug [of E ?fs] assms(4) by simp
  have "zip_at (rb_nodes st1) (rb_roots st1 R) E ?fs"
    using z zip_at_unzip [of "rb_nodes st1" "rb_roots st1 R" E ?fs] by simp
  from link_node_zip [OF this assms(3) nin _ _ _ turned_way st2_def]
  have 2: "zip_at (rb_nodes st2) (rb_roots st2 R) (T E node RB_RED E) ?fs" by (simp add: st1_def set_defs)
  have "fix_view R (st2, node) = (rb_nodes st2, rb_roots st2 R, addr (T E node RB_RED E))" by (simp add: fix_view_def)
  from lib_fix.loop_balances [OF this 2 new_red_focus [OF ok(1, 2)]] obtain s3 h3 root3 n3 t3 where
    3: "while_option (fix_guard R) (fix_turn R) (st2, node) = Some s3" "fix_view R s3 = (h3, root3, n3)" "zip_at h3 root3 t3 []"
      "balanced t3" "t3 \<noteq> E" "nodes t3 = nodes (plug (T E node RB_RED E) ?fs)" by blast
  obtain st3 where s3: "s3 = (st3, n3)" "h3 = rb_nodes st3" "root3 = rb_roots st3 R" using 3(2) by (cases s3) (simp add: fix_view_def)
  let ?st' = "upd_nodes (\<lambda>h. set_color h (rb_roots st3 R) RB_BLACK) st3"
  have root: "addr t = rb_roots st1 R" "rb_roots st3 R = addr t3" using z 3(3) s3 by (simp_all add: zip_at_def)
  have "rbtree_insert um st R node key off = Some ?st'"
    unfolding rbtree_insert_def Let_def st1_def [symmetric]
    using descend_loop [OF z, of key ?k] 3(1) assms(2, 3) s3 root(1) by (simp add: st2_def)
  moreover have "is_rbtree um off ?st' R (paint RB_BLACK t3)"
    using zip_paint [OF 3(3, 5), of RB_BLACK] 3(4, 6) s3 root nodes_way [OF ok(3)] sorted_insort_after [OF ok(3) assms(5)]
    by (simp add: is_rbtree_def balanced_paint)
  ultimately show ?thesis using 3(6) nodes_way [OF ok(3)] by auto
qed

lemma is_rbtree_root: "is_rbtree um off st R t \<Longrightarrow> rb_roots st R = addr t \<and> tree_at (rb_nodes st) 0 t \<and> 0 \<notin> set (nodes t)"
  by (auto simp: is_rbtree_def zip_at_def dest: nodes_nonzero)

lemma lookup_end:
  assumes "is_rbtree um off st R t"
  shows "lookup (key_of um off) key t = 0 \<or> key_of um off (lookup (key_of um off) key t) = key"
  using lookup_sorted [of "key_of um off" t key] assms is_rbtree_root [OF assms] by (auto simp: is_rbtree_def split: if_splits)

lemma find_loop:
  assumes "is_rbtree um off st R t"
  obtains m where "m \<le> height t" "(find_turn um st key off ^^ m) (rb_roots st R) = lookup (key_of um off) key t"
    "while_option (\<lambda>cur. cur \<noteq> 0 \<and> key \<noteq> key_of um off cur) (find_turn um st key off) (rb_roots st R) =
      Some (lookup (key_of um off) key t)"
proof -
  let ?f = "find_turn um st key off"
  have r: "rb_roots st R = addr t" "tree_at (rb_nodes st) 0 t" using is_rbtree_root [OF assms] by simp_all
  obtain m where m: "m \<le> height t" "(?f ^^ m) (addr t) = lookup (key_of um off) key t"
      "\<forall>i < m. (?f ^^ i) (addr t) \<noteq> 0 \<and> key \<noteq> key_of um off ((?f ^^ i) (addr t))"
    using lookup_turns [OF r(2), of ?f key "key_of um off"] by (auto simp: find_turn_def)
  have "while_option (\<lambda>cur. cur \<noteq> 0 \<and> key \<noteq> key_of um off cur) ?f (addr t) = Some ((?f ^^ m) (addr t))"
    using m(2, 3) lookup_end [OF assms, of key] by (intro while_option_turns) auto
  with m that r show ?thesis by simp
qed

lemma find_result:
  assumes "is_rbtree um off st R t" and "R \<noteq> 0"
  shows "map_option fst (rbtree_find um st R key off) = Some (lookup (key_of um off) key t)"
proof -
  obtain m where "while_option (\<lambda>cur. cur \<noteq> 0 \<and> key \<noteq> key_of um off cur) (find_turn um st key off) (rb_roots st R) =
      Some (lookup (key_of um off) key t)" using find_loop [OF assms(1)] by blast
  with assms(2) show ?thesis by (simp add: rbtree_find_def Let_def)
qed

lemma min_result: "tree_at h p t \<Longrightarrow> tree_min h (addr t) = Some (first_of (nodes t))"
  using leftmost_loop [of h p t] addr_zero [of h p t] by (cases t) (simp_all add: tree_min_def)

lemma max_result: "tree_at h p t \<Longrightarrow> tree_max h (addr t) = Some (first_of (rev (nodes t)))"
  using rightmost_loop [of h p t] addr_zero [of h p t] by (cases t) (simp_all add: tree_max_def)

lemma neighbours:
  assumes "is_rbtree um off st R t" and "nodes t = xs @ a # ys"
  shows "rbtree_next st a = Some (first_of ys) \<and> rbtree_prev st a = Some (first_of (rev xs))"
proof -
  have z: "zip_at (rb_nodes st) (rb_roots st R) t []" using assms(1) by (simp add: is_rbtree_def)
  obtain l c r fs where t: "t = plug (T l a c r) fs" using focus_on [of a t] assms(2) by auto
  with z have z1: "zip_at (rb_nodes st) (rb_roots st R) (T l a c r) fs" using zip_at_unzip by metis
  note top = zip_top [OF z1]
  have eq: "xs @ a # ys = (nodes_l fs @ nodes l) @ a # nodes r @ nodes_r fs" using assms(2) t by (simp add: nodes_plug)
  have "distinct (xs @ a # ys)" using z assms(2) by (simp add: zip_at_def)
  from split_unique [OF this eq] have xy: "xs = nodes_l fs @ nodes l" "ys = nodes r @ nodes_r fs" by simp_all
  have lr: "tree_at (rb_nodes st) a l" "tree_at (rb_nodes st) a r" using z1 by (simp_all add: zip_at_def)
  have "rbtree_next st a = Some (first_of (nodes r @ nodes_r fs))"
    using climb_right_loop [OF z1] top min_result [OF lr(2)] addr_zero [OF lr(2)]
    by (cases "r = E") (simp_all add: rbtree_next_def climb_def Let_def)
  moreover have "rbtree_prev st a = Some (first_of (rev (nodes l) @ rev (nodes_l fs)))"
    using climb_left_loop [OF z1] top max_result [OF lr(1)] addr_zero [OF lr(1)]
    by (cases "l = E") (simp_all add: rbtree_prev_def climb_def Let_def)
  ultimately show ?thesis by (simp add: xy)
qed

subsection \<open>Removal\<close>

text \<open>The memory after a node was taken out of its place, cell by cell.\<close>

lemma replace_child_cells:
  assumes "up st n = p" and "st' = replace_child R n q st"
  shows "rb_roots st' R = (if p = 0 then q else rb_roots st R)"
    "a \<noteq> p \<or> p = 0 \<Longrightarrow> rb_nodes st' a = rb_nodes st a"
    "p \<noteq> 0 \<Longrightarrow> rb_nodes st' p =
       (if rb_left (rb_nodes st p) = n then (rb_nodes st p)\<lparr>rb_left := q\<rparr> else (rb_nodes st p)\<lparr>rb_right := q\<rparr>)"
  using assms by (auto simp: replace_child_def Let_def upd_nodes_def set_defs)

lemma detach_sel [simp]:
  "rb_roots (detach n st) = rb_roots st" "a \<noteq> n \<Longrightarrow> rb_nodes (detach n st) a = rb_nodes st a"
  by (simp_all add: detach_def set_defs)

lemma set_parent_if_at: "a \<noteq> x \<Longrightarrow> set_parent_if x p h a = h a" "x \<noteq> 0 \<Longrightarrow> set_parent_if x p h x = (h x)\<lparr>rb_parent := p\<rparr>"
  by (simp_all add: set_parent_if_def set_parent_def)

lemma set_parent_if_fields [simp]:
  "rb_left (set_parent_if x p h a) = rb_left (h a)" "rb_right (set_parent_if x p h a) = rb_right (h a)"
  "rb_color (set_parent_if x p h a) = rb_color (h a)"
  "rb_parent (set_parent_if x p h a) = (if a = x \<and> x \<noteq> 0 then p else rb_parent (h a))"
  by (simp_all add: set_parent_if_def)

lemma erase_one_zip:
  assumes z: "zip_at (rb_nodes st) (rb_roots st R) (T l n c r) fs" and "l = E \<or> r = E" and x: "x = (if l = E then r else l)"
    and st': "st' = erase_one R n (addr x) st"
  shows "\<exists>x'. nodes x' = nodes x \<and> zip_at (rb_nodes st') (rb_roots st' R) x' fs"
proof -
  let ?h = "rb_nodes st" and ?p = "caddr fs"
  define st1 where "st1 = upd_nodes (set_parent_if (addr x) ?p) st"
  define st2 where "st2 = replace_child R n (addr x) st1"
  define st3 where "st3 = upd_nodes (\<lambda>h. set_color h n 0) (detach n st2)"
  note top = zip_top [OF z]
  have nx: "n \<noteq> addr x" using top x by auto
  have up: "up st1 n = ?p" using top nx by (simp add: up_def st1_def set_parent_if_at)
  note cells = replace_child_cells [OF up st2_def]
  have z3: "zip_at (rb_nodes st3) (rb_roots st3 R) x fs"
  proof (rule zip_unlink [OF z assms(2) x])
    show "rb_nodes st3 a = ?h a" if "a \<noteq> n" "a \<noteq> addr x" "fs = [] \<or> a \<noteq> ?p" for a
      using that cells(2) [of a] by (auto simp: st3_def st1_def set_color_def set_parent_if_at)
    show "rb_nodes st3 (addr x) = (?h (addr x))\<lparr>rb_parent := ?p\<rparr>" if "addr x \<noteq> 0" "addr x \<noteq> n" "fs = [] \<or> addr x \<noteq> ?p"
      using that cells(2) [of "addr x"] by (auto simp: st3_def st1_def set_color_def set_parent_if_at)
    show "rb_nodes st3 ?p = (if rb_left (?h ?p) = n then (?h ?p)\<lparr>rb_left := addr x\<rparr> else (?h ?p)\<lparr>rb_right := addr x\<rparr>)"
      if "?p \<noteq> 0" "?p \<noteq> n" "?p \<noteq> addr x"
      using that cells(3) by (simp add: st3_def st1_def set_color_def set_parent_if_at)
    show "rb_roots st3 R = (if ?p = 0 then addr x else rb_roots st R)" using cells(1) by (simp add: st3_def st1_def)
  qed
  have st': "st' = (if rb_color (?h n) = RB_BLACK \<and> ?p \<noteq> 0 \<and> addr x \<noteq> 0 then upd_nodes (\<lambda>h. set_color h (addr x) RB_BLACK) st3 else st3)"
    using top by (simp add: st' erase_one_def Let_def up_def st1_def st2_def st3_def)
  show ?thesis
  proof (cases "rb_color (?h n) = RB_BLACK \<and> ?p \<noteq> 0 \<and> addr x \<noteq> 0")
    case True
    then have "x \<noteq> E" by auto
    from zip_paint [OF z3 this, of RB_BLACK] True show ?thesis by (auto simp: st' intro!: exI [of _ "paint RB_BLACK x"])
  next
    case False
    with z3 show ?thesis by (auto simp: st')
  qed
qed

lemma erase_two_zip:
  assumes z: "zip_at (rb_nodes st) (rb_roots st R) (T l n c (T E y d x)) fs" and "l \<noteq> E" and st': "st' = erase_two R n y st"
  shows "zip_at (rb_nodes st') (rb_roots st' R) (T l y c x) fs"
proof -
  let ?h = "rb_nodes st" and ?p = "caddr fs"
  have zy: "zip_at ?h (rb_roots st R) (T E y d x) (FR l n c # fs)" using z by (simp add: zip_move)
  note top = zip_top [OF z] and topy = zip_top [OF zy]
  have d: "distinct (n # y # nodes_l fs @ nodes l @ nodes x @ nodes_r fs)" and ctx: "ctx_at ?h (rb_roots st R) n fs"
    and tl: "tree_at ?h n l" and tx: "tree_at ?h y x" using z by (auto simp: zip_at_def)
  have c: "?p = 0 \<longleftrightarrow> fs = []" "fs \<noteq> [] \<Longrightarrow> ?p \<in> fnodes fs"
    using caddr_in [of fs] ctx_nonzero [OF ctx] by (cases "fs = []"; auto)+
  have al: "addr l \<noteq> 0" "addr l \<in> set (nodes l)" using addr_zero [OF tl] assms(2) addr_in_nodes by auto
  have nz: "n \<noteq> 0" "y \<noteq> 0" using top topy by simp_all
  have pn: "?p \<notin> insert n (insert y (set (nodes l)))"
  proof (cases "fs = []")
    case True
    then show ?thesis using nz nodes_nonzero [OF tl] by simp
  next
    case False
    with c(2) d show ?thesis by auto
  qed
  have "addr l \<noteq> y" "addr l \<noteq> n" "n \<noteq> y" using d al by auto
  note ne = this(3, 1, 2) nz
  have pne: "?p \<noteq> n" "?p \<noteq> y" "?p \<noteq> addr l" using pn al by auto
  define h5 where "h5 = set_color (set_parent (set_parent (set_left ?h y (addr l)) (addr l) y) y ?p) y c"
  define st1 where "st1 = upd_nodes (\<lambda>_. h5) st"
  define st2 where "st2 = replace_child R n y st1"
  have "set_parent_if (addr x) y ?h = ?h"
    using tx by (cases x) (simp_all add: set_parent_if_def set_parent_def fun_upd_idem_iff)
  then have st': "st' = detach n st2"
    using top topy ne al pne by (simp add: st' erase_two_def Let_def set_parent_if_def h5_def st1_def st2_def)
  have up: "up st1 n = ?p" using top ne by (simp add: up_def st1_def h5_def)
  note cells = replace_child_cells [OF up st2_def]
  have same: "rb_nodes st' a = ?h a" if "a \<noteq> n" "a \<noteq> y" "a \<noteq> addr l" "fs = [] \<or> a \<noteq> ?p" for a
    using that cells(2) [of a] c by (auto simp: st' st1_def h5_def set_defs)
  have y: "rb_nodes st' y = (?h y)\<lparr>rb_left := addr l, rb_parent := ?p, rb_color := c\<rparr>"
    using ne pne cells(2) [of y] by (auto simp: st' st1_def h5_def set_defs)
  have "tree_at (rb_nodes st') y l"
  proof (rule tree_reparent [OF tl])
    show "distinct (nodes l)" using d by simp
    show "rb_nodes st' a = ?h a" if "a \<in> set (nodes l)" "a \<noteq> addr l" for a using that d c by (intro same) auto
    show "rb_nodes st' (addr l) = (?h (addr l))\<lparr>rb_parent := y\<rparr>"
      using ne pne cells(2) [of "addr l"] by (auto simp: st' st1_def h5_def set_defs)
  qed
  moreover have "tree_at (rb_nodes st') y x"
  proof -
    have "rb_nodes st' a = ?h a" if "a \<in> set (nodes x)" for a using that d c al by (intro same) auto
    with tx tree_at_cong [of x "rb_nodes st'" ?h y] show ?thesis by blast
  qed
  moreover have "ctx_at (rb_nodes st') (if fs = [] then y else rb_roots st R) y fs"
  proof (rule ctx_relink [OF ctx])
    show "distinct (nodes_l fs @ nodes_r fs)" "n \<noteq> 0" "n \<notin> fnodes fs" using d ne by auto
    show "rb_nodes st' a = ?h a" if "a \<in> fnodes fs" "a \<noteq> ?p" for a using that d al by (intro same) auto
    show "rb_nodes st' ?p = (if rb_left (?h ?p) = n then (?h ?p)\<lparr>rb_left := y\<rparr> else (?h ?p)\<lparr>rb_right := y\<rparr>)" if "fs \<noteq> []"
      using that ne pne c cells(3) by (simp add: st' st1_def h5_def set_defs)
  qed
  ultimately show ?thesis
    using d y topy ne cells(1) c by (auto simp: zip_at_def st' st1_def)
qed

text \<open>The removal of a node whose right child, if it has two children, has no left child.\<close>

lemma erase_result:
  assumes z: "zip_at (rb_nodes st) (rb_roots st R) (T l n c r) fs" and "R \<noteq> 0"
    and "l = E \<or> r = E \<or> (\<exists>y d x. r = T E y d x)"
  shows "\<exists>st' t'. rbtree_erase st R n = Some st' \<and> zip_at (rb_nodes st') (rb_roots st' R) t' [] \<and>
    nodes t' = nodes_l fs @ nodes l @ nodes r @ nodes_r fs"
proof -
  define st1 where "st1 = st\<lparr>g_stats := (g_stats st)\<lparr>erases := erases (g_stats st) + 1\<rparr>\<rparr>"
  have z1: "zip_at (rb_nodes st1) (rb_roots st1 R) (T l n c r) fs" using z by (simp add: st1_def)
  note top = zip_top [OF z1]
  have lr: "tree_at (rb_nodes st1) n l" "tree_at (rb_nodes st1) n r" using z1 by (simp_all add: zip_at_def)
  have "\<exists>st' x'. rbtree_erase st R n = Some st' \<and> zip_at (rb_nodes st') (rb_roots st' R) x' fs \<and> nodes x' = nodes l @ nodes r"
  proof (cases "l = E \<or> r = E")
    case True
    define x where "x = (if l = E then r else l)"
    have "rbtree_erase st R n = Some (erase_one R n (addr x) st1)"
      using top assms(2) True addr_zero [OF lr(1)] addr_zero [OF lr(2)]
      unfolding rbtree_erase_def Let_def st1_def [symmetric] by (auto simp: x_def)
    moreover have "nodes x = nodes l @ nodes r" using True by (auto simp: x_def)
    ultimately show ?thesis using erase_one_zip [OF z1 True x_def refl] by auto
  next
    case False
    then obtain y d x where r: "r = T E y d x" using assms(3) by auto
    have "rbtree_erase st R n = Some (erase_two R n y st1)"
      using top assms(2) False addr_zero [OF lr(1)] addr_zero [OF lr(2)] min_result [OF lr(2)] r
      unfolding rbtree_erase_def Let_def st1_def [symmetric] by auto
    with erase_two_zip [OF z1 [unfolded r] _ refl] False r show ?thesis by auto
  qed
  then obtain st' x' where "rbtree_erase st R n = Some st'" "zip_at (rb_nodes st') (rb_roots st' R) x' fs" "nodes x' = nodes l @ nodes r"
    by blast
  then show ?thesis
    using zip_at_unzip [of "rb_nodes st'" "rb_roots st' R" x' fs] by (intro exI [of _ st'] exI [of _ "plug x' fs"]) (simp add: nodes_plug)
qed

subsection \<open>Properties\<close>

text \<open>One black node at 0x1000; the key of a node is the address of its key cell.\<close>

definition addr_keys :: "u32 \<Rightarrow> u64" where
  "addr_keys a = ucast a"

definition one_node :: rb_sys where
  "one_node =
     \<lparr>rb_nodes = (\<lambda>_. \<lparr>rb_parent = 0, rb_left = 0, rb_right = 0, rb_color = RB_BLACK\<rparr>), rb_roots = (\<lambda>_. 0x1000),
      g_stats = \<lparr>inserts = 0, erases = 0, finds = 0, rotations = 0, max_depth = 0\<rparr>\<rparr>"

lemma one_node_tree: "is_rbtree addr_keys 16 one_node 0x10 (T E 0x1000 RB_BLACK E)"
  by (simp add: is_rbtree_def one_node_def zip_at_def)

text \<open>C6: insertion is correct and keeps the tree balanced. Inserting a new node into a red-black tree returns,
  and leaves a red-black tree with the same nodes in the same order and the new one behind the nodes with
  keys up to its own: colours and black heights are in order again, and the keys are sorted.\<close>
theorem rbtree_insert_correct:
  assumes "is_rbtree um off st R t" and "R \<noteq> 0" and "node \<noteq> 0" and "node \<notin> set (nodes t)" and "key_of um off node = key"
  shows "\<exists>st' t'. rbtree_insert um st R node key off = Some st' \<and> is_rbtree um off st' R t' \<and>
    nodes t' = insort_after (key_of um off) key node (nodes t)"
  using assms by (rule insert_result)

theorem rbtree_insert_correct_witness:
  "\<exists>st' t'. rbtree_insert addr_keys one_node 0x10 0x2000 0x2010 16 = Some st' \<and> is_rbtree addr_keys 16 st' 0x10 t' \<and>
    nodes t' = [0x1000, 0x2000]"
proof -
  have "key_of addr_keys 16 0x2000 = 0x2010" by (simp add: key_of_def addr_keys_def)
  from rbtree_insert_correct [OF one_node_tree _ _ _ this] show ?thesis
    by (simp add: insort_after_def key_of_def addr_keys_def)
qed

text \<open>C14: a search takes logarithmic time. In a red-black tree with \<open>n\<close> nodes the search loop ends after a
  number of turns \<open>m\<close> with \<open>2 ^ (m div 2) \<le> n + 1\<close>; it returns a node with the key, and NULL exactly when there is none.\<close>
theorem rbtree_find_bound:
  assumes "is_rbtree um off st R t" and "R \<noteq> 0"
  shows "\<exists>m. 2 ^ (m div 2) \<le> length (nodes t) + 1 \<and>
    map_option fst (rbtree_find um st R key off) = Some ((find_turn um st key off ^^ m) (rb_roots st R)) \<and>
    (if key \<in> key_of um off ` set (nodes t)
     then (find_turn um st key off ^^ m) (rb_roots st R) \<in> set (nodes t) \<and>
       key_of um off ((find_turn um st key off ^^ m) (rb_roots st R)) = key
     else (find_turn um st key off ^^ m) (rb_roots st R) = 0)"
proof -
  have ok: "balanced t" "rcolor t \<noteq> RB_RED" "sorted (map (key_of um off) (nodes t))" using assms(1) by (simp_all add: is_rbtree_def)
  obtain m where m: "m \<le> height t" "(find_turn um st key off ^^ m) (rb_roots st R) = lookup (key_of um off) key t"
    using find_loop [OF assms(1)] by blast
  have "(2::nat) ^ (m div 2) \<le> 2 ^ (height t div 2)" using m(1) by (intro power_increasing div_le_mono) simp_all
  also have "\<dots> \<le> length (nodes t) + 1" by (rule height_log [OF ok(1, 2)])
  finally show ?thesis
    using m(2) find_result [OF assms] lookup_sorted [OF ok(3), of key] is_rbtree_root [OF assms(1)] by (intro exI [of _ m]) simp
qed

theorem rbtree_find_bound_witness: "map_option fst (rbtree_find addr_keys one_node 0x10 0x1010 16) = Some 0x1000"
proof -
  have "key_of addr_keys 16 0x1000 = 0x1010" by (simp add: key_of_def addr_keys_def)
  with rbtree_find_bound [OF one_node_tree, of "0x1010"] show ?thesis by auto
qed

text \<open>C15: the iterators visit the nodes in order. The first and last node are those of the list, and the
  successor and predecessor of its \<open>i\<close>-th node are the next and the previous one, NULL at the ends.\<close>
theorem rbtree_iterates_in_order:
  assumes "is_rbtree um off st R t" and "R \<noteq> 0" and "i < length (nodes t)"
  shows "rbtree_first st R = Some (nodes t ! 0) \<and> rbtree_last st R = Some (nodes t ! (length (nodes t) - 1)) \<and>
    rbtree_next st (nodes t ! i) = Some (if Suc i < length (nodes t) then nodes t ! Suc i else 0) \<and>
    rbtree_prev st (nodes t ! i) = Some (if i = 0 then 0 else nodes t ! (i - 1))"
proof -
  let ?ns = "nodes t"
  have ne: "?ns \<noteq> []" using assms(3) by auto
  have r: "rb_roots st R = addr t" "tree_at (rb_nodes st) 0 t" using is_rbtree_root [OF assms(1)] by simp_all
  have "first_of ?ns = ?ns ! 0" using ne by (cases ?ns) simp_all
  moreover have "first_of (rev ?ns) = ?ns ! (length ?ns - 1)" using ne by (cases ?ns rule: rev_cases) simp_all
  moreover have "first_of (drop (Suc i) ?ns) = (if Suc i < length ?ns then ?ns ! Suc i else 0)"
    by (cases "drop (Suc i) ?ns") (auto simp: drop_eq_Nil hd_drop_conv_nth simp flip: nth_via_drop)
  moreover have "first_of (rev (take i ?ns)) = (if i = 0 then 0 else ?ns ! (i - 1))"
    using assms(3) by (cases i) (simp_all add: take_Suc_conv_app_nth)
  ultimately show ?thesis
    using neighbours [OF assms(1) id_take_nth_drop [OF assms(3)]] min_result [OF r(2)] max_result [OF r(2)] assms(2) r(1)
    by (simp add: rbtree_first_def rbtree_last_def)
qed

theorem rbtree_iterates_in_order_witness: "rbtree_first one_node 0x10 = Some 0x1000 \<and> rbtree_next one_node 0x1000 = Some 0"
  using rbtree_iterates_in_order [OF one_node_tree, of 0] by simp

text \<open>C38: a removal can leave a cycle behind. When a root with two children is removed and its successor is not
  its right child, the parent of the successor keeps it as its left child: a search for a key between the two
  runs forever.\<close>
theorem rbtree_erase_cycle:
  assumes z: "zip_at (rb_nodes st) (rb_roots st R) (T l n c (T (T E y e x) p d w)) []" and "l \<noteq> E" and "R \<noteq> 0"
    and "key_of um off y < key" and "key < key_of um off p"
  shows "\<exists>st'. rbtree_erase st R n = Some st' \<and> rbtree_find um st' R key off = None"
proof -
  let ?st = "st\<lparr>g_stats := (g_stats st)\<lparr>erases := erases (g_stats st) + 1\<rparr>\<rparr>"
  let ?st' = "erase_two R n y ?st"
  have zp: "zip_at (rb_nodes st) (rb_roots st R) (T (T E y e x) p d w) [FR l n c]" using z by (simp add: zip_move)
  then have zy: "zip_at (rb_nodes st) (rb_roots st R) (T E y e x) [FL p d w, FR l n c]" by (simp add: zip_move)
  note top = zip_top [OF z] zip_top [OF zp] zip_top [OF zy]
  have t: "tree_at (rb_nodes st) n (T (T E y e x) p d w)" "tree_at (rb_nodes st) n l" using z by (simp_all add: zip_at_def)
  have d: "y \<noteq> p" "y \<noteq> n" "p \<noteq> n" "addr x \<noteq> n" "addr l \<noteq> n"
    using z addr_not_in [of n x] addr_not_in [of n l] by (auto simp: zip_at_def)
  have er: "rbtree_erase st R n = Some ?st'"
    using top assms(2, 3) min_result [OF t(1)] addr_zero [OF t(2)] by (simp add: rbtree_erase_def Let_def)
  have link: "rb_roots ?st' R = y" "rb_right (rb_nodes ?st' y) = p" "rb_left (rb_nodes ?st' p) = y"
    using top d by (simp_all add: erase_two_def Let_def detach_def replace_child_def up_def)
  have "while_option (\<lambda>cur. cur \<noteq> 0 \<and> key \<noteq> key_of um off cur) (find_turn um ?st' key off) (rb_roots ?st' R) = None"
    using link top assms(4, 5) by (intro while_option_never [where I = "\<lambda>a. a = y \<or> a = p"]) (auto simp: find_turn_def)
  with er assms(3) show ?thesis by (simp add: rbtree_find_def Let_def)
qed

text \<open>A root at 0x1000 with the children 0x2000 and 0x3000; 0x4000 is the left child of 0x3000.\<close>

definition four_nodes :: rb_sys where
  "four_nodes = one_node\<lparr>rb_nodes := (rb_nodes one_node)
     (0x1000 := \<lparr>rb_parent = 0, rb_left = 0x2000, rb_right = 0x3000, rb_color = RB_BLACK\<rparr>,
      0x2000 := \<lparr>rb_parent = 0x1000, rb_left = 0, rb_right = 0, rb_color = RB_BLACK\<rparr>,
      0x3000 := \<lparr>rb_parent = 0x1000, rb_left = 0x4000, rb_right = 0, rb_color = RB_BLACK\<rparr>,
      0x4000 := \<lparr>rb_parent = 0x3000, rb_left = 0, rb_right = 0, rb_color = RB_RED\<rparr>)\<rparr>"

theorem rbtree_erase_cycle_witness:
  "\<exists>st'. rbtree_erase four_nodes 0x10 0x1000 = Some st' \<and>
    rbtree_find (\<lambda>a. if a = 0x1010 then 20 else if a = 0x2010 then 10 else if a = 0x3010 then 40 else 30) st' 0x10 35 16 = None"
proof -
  let ?um = "\<lambda>a :: u32. if a = 0x1010 then 20 else if a = 0x2010 then 10 else if a = 0x3010 then 40 else (30 :: u64)"
  have "zip_at (rb_nodes four_nodes) (rb_roots four_nodes 0x10)
      (T (T E 0x2000 RB_BLACK E) 0x1000 RB_BLACK (T (T E 0x4000 RB_RED E) 0x3000 RB_BLACK E)) []"
    by (simp add: zip_at_def four_nodes_def one_node_def)
  from rbtree_erase_cycle [OF this, of ?um 16 35] show ?thesis by (simp add: key_of_def)
qed

text \<open>C35: the other removals are right. When the node has at most one child, or its right child has no left
  child, the removal returns and exactly this node is gone from the list of nodes in order.\<close>
theorem rbtree_erase_in_order:
  assumes "zip_at (rb_nodes st) (rb_roots st R) t []" and "R \<noteq> 0" and "nodes t = xs @ n # ys"
    and "rb_left (rb_nodes st n) = 0 \<or> rb_right (rb_nodes st n) = 0 \<or> rb_left (rb_nodes st (rb_right (rb_nodes st n))) = 0"
  shows "\<exists>st' t'. rbtree_erase st R n = Some st' \<and> zip_at (rb_nodes st') (rb_roots st' R) t' [] \<and> nodes t' = xs @ ys"
proof -
  obtain l c r fs where t: "t = plug (T l n c r) fs" using focus_on [of n t] assms(3) by auto
  with assms(1) have z: "zip_at (rb_nodes st) (rb_roots st R) (T l n c r) fs" using zip_at_unzip by metis
  note top = zip_top [OF z]
  have lr: "tree_at (rb_nodes st) n l" "tree_at (rb_nodes st) n r" using z by (simp_all add: zip_at_def)
  have "l = E \<or> r = E \<or> (\<exists>y d x. r = T E y d x)"
  proof (cases r)
    case (T m y d x)
    then have "rb_left (rb_nodes st y) = addr m" "tree_at (rb_nodes st) y m" "y \<noteq> 0" using lr(2) by simp_all
    with assms(4) top addr_zero [OF lr(1)] addr_zero [of "rb_nodes st" y m] T show ?thesis by auto
  qed simp
  note res = erase_result [OF z assms(2) this]
  have eq: "xs @ n # ys = (nodes_l fs @ nodes l) @ n # nodes r @ nodes_r fs" using assms(3) t by (simp add: nodes_plug)
  have "distinct (xs @ n # ys)" using assms(1, 3) by (simp add: zip_at_def)
  from split_unique [OF this eq] res show ?thesis by simp
qed

theorem rbtree_erase_in_order_witness:
  "\<exists>st' t'. rbtree_erase one_node 0x10 0x1000 = Some st' \<and> zip_at (rb_nodes st') (rb_roots st' 0x10) t' [] \<and> nodes t' = []"
  using rbtree_erase_in_order [of one_node "0x10" "T E 0x1000 RB_BLACK E" "[]" "0x1000" "[]"] one_node_tree
  by (simp add: is_rbtree_def one_node_def)

end
