(* ===== verification/SchedCfs.thy ===== *)
theory SchedCfs
  imports RbHeap
begin

text \<open>
  The fair scheduler, \<open>kernel/sched_cfs.c\<close>: entities in a red-black tree ordered by virtual run time, of
  which the leftmost runs next. Entities and run queues live at addresses, 0 is NULL. Of an entity the
  fields are kept that the component uses. A result \<open>None\<close> says that the routine does not return.
\<close>

subsection \<open>State and operations\<close>

record sched_entity = rb_node +
  vruntime :: u64
  sum_exec_runtime :: u64
  weight :: u32
  on_rq :: bool

record cfs_rq =
  rq_root :: u32
  rb_node_count :: u32
  min_vruntime :: u64
  exec_clock :: u64
  nr_running :: u32
  weight_sum :: u32
  target_latency :: u64
  min_granularity :: u64
  inited :: bool

record cfs_sys =
  ents :: "u32 \<Rightarrow> sched_entity"
  rqs :: "u32 \<Rightarrow> cfs_rq"

definition upd_rq :: "u32 \<Rightarrow> (cfs_rq \<Rightarrow> cfs_rq) \<Rightarrow> cfs_sys \<Rightarrow> cfs_sys" where
  "upd_rq Q f s = s\<lparr>rqs := (rqs s)(Q := f (rqs s Q))\<rparr>"

definition upd_ent :: "u32 \<Rightarrow> (sched_entity \<Rightarrow> sched_entity) \<Rightarrow> cfs_sys \<Rightarrow> cfs_sys" where
  "upd_ent a f s = s\<lparr>ents := (ents s)(a := f (ents s a))\<rparr>"

definition upd_ents :: "((u32 \<Rightarrow> sched_entity) \<Rightarrow> u32 \<Rightarrow> sched_entity) \<Rightarrow> cfs_sys \<Rightarrow> cfs_sys" where
  "upd_ents f s = s\<lparr>ents := f (ents s)\<rparr>"

definition cfs_rq_init :: "cfs_sys \<Rightarrow> u32 \<Rightarrow> int \<times> cfs_sys" where
  "cfs_rq_init s Q =
     (if Q = 0 then (-1, s)
      else (0, upd_rq Q (\<lambda>_. \<lparr>rq_root = 0, rb_node_count = 0, min_vruntime = 0, exec_clock = 0, nr_running = 0, weight_sum = 0,
                target_latency = 20000000, min_granularity = 1000000, inited = True\<rparr>) s))"

text \<open>The weight 1024 shifted by the nice value, at most 19 places, and never 0.\<close>

definition nice_to_weight :: "int \<Rightarrow> int" where
  "nice_to_weight n =
     (if n \<ge> 0 then drop_bit (nat (if n > 19 then 19 else n)) 1024 else push_bit (nat (if - n > 19 then 19 else - n)) 1024)"

definition cfs_calc_weight :: "int \<Rightarrow> u64" where
  "cfs_calc_weight nice =
     (let n1 = (if nice < -20 then -20 else nice); n2 = (if n1 > 19 then 19 else n1); w = of_int (nice_to_weight n2)
      in if w \<noteq> 0 then w else 1)"

definition rb_subtree_min :: "(u32 \<Rightarrow> sched_entity) \<Rightarrow> u32 \<Rightarrow> u32 option" where
  "rb_subtree_min h n = (if n = 0 then Some 0 else while_option (\<lambda>n. rb_left (h n) \<noteq> 0) (\<lambda>n. rb_left (h n)) n)"

definition rb_leftmost :: "cfs_sys \<Rightarrow> u32 \<Rightarrow> u32 option" where
  "rb_leftmost s Q = (if Q = 0 \<or> rq_root (rqs s Q) = 0 then Some 0 else rb_subtree_min (ents s) (rq_root (rqs s Q)))"

text \<open>The division by the sum of the weights is by a signed 32-bit value converted to 64 bits.\<close>

definition cfs_calc_timeslice :: "cfs_sys \<Rightarrow> u32 \<Rightarrow> u64 option" where
  "cfs_calc_timeslice s Q =
     (let q = rqs s Q in
      if Q = 0 then Some 0
      else if weight_sum q = 0 then Some (target_latency q)
      else map_option (\<lambda>e.
             if e = 0 then target_latency q
             else let t = (target_latency q * ucast (weight (ents s e))) div (scast (weight_sum q) :: u64)
                  in if t < min_granularity q then min_granularity q else t) (rb_leftmost s Q))"

definition cfs_rq_min_vruntime :: "cfs_sys \<Rightarrow> u32 \<Rightarrow> u64" where
  "cfs_rq_min_vruntime s Q = (if Q \<noteq> 0 then min_vruntime (rqs s Q) else 0)"

definition put_rot :: "u32 \<Rightarrow> (u32 \<Rightarrow> sched_entity) \<times> u32 \<Rightarrow> cfs_sys \<Rightarrow> cfs_sys" where
  "put_rot Q hr s = upd_rq Q (\<lambda>q. q\<lparr>rq_root := snd hr\<rparr>) (s\<lparr>ents := fst hr\<rparr>)"

definition rb_rotate_left :: "cfs_sys \<Rightarrow> u32 \<Rightarrow> u32 \<Rightarrow> cfs_sys" where
  "rb_rotate_left s Q x = put_rot Q (rot_left (ents s, rq_root (rqs s Q)) x) s"

definition rb_rotate_right :: "cfs_sys \<Rightarrow> u32 \<Rightarrow> u32 \<Rightarrow> cfs_sys" where
  "rb_rotate_right s Q x = put_rot Q (rot_right (ents s, rq_root (rqs s Q)) x) s"

text \<open>The pointer to a link of the insertion loop.\<close>

datatype link = RootLink | LeftLink u32 | RightLink u32

fun deref :: "cfs_sys \<Rightarrow> u32 \<Rightarrow> link \<Rightarrow> u32" where
  "deref s Q RootLink = rq_root (rqs s Q)"
| "deref s Q (LeftLink a) = rb_left (ents s a)"
| "deref s Q (RightLink a) = rb_right (ents s a)"

fun assign :: "u32 \<Rightarrow> link \<Rightarrow> u32 \<Rightarrow> cfs_sys \<Rightarrow> cfs_sys" where
  "assign Q RootLink v s = upd_rq Q (\<lambda>q. q\<lparr>rq_root := v\<rparr>) s"
| "assign Q (LeftLink a) v s = upd_ents (\<lambda>h. set_left h a v) s"
| "assign Q (RightLink a) v s = upd_ents (\<lambda>h. set_right h a v) s"

definition link_turn :: "cfs_sys \<Rightarrow> u32 \<Rightarrow> u64 \<Rightarrow> link \<times> u32 \<Rightarrow> link \<times> u32" where
  "link_turn s Q v = (\<lambda>(link, _).
     let parent = deref s Q link in (if v < vruntime (ents s parent) then LeftLink parent else RightLink parent, parent))"

definition bal_guard :: "u32 \<Rightarrow> cfs_sys \<times> u32 \<Rightarrow> bool" where
  "bal_guard Q = (\<lambda>(s, se).
     let h = ents s; p = rb_parent (h se) in p \<noteq> 0 \<and> rb_color (h p) = RB_RED \<and> rb_parent (h p) \<noteq> 0)"

definition paint3 :: "u32 \<Rightarrow> u32 \<Rightarrow> u32 \<Rightarrow> cfs_sys \<Rightarrow> cfs_sys" where
  "paint3 p u g = upd_ents (\<lambda>h. set_color (set_color (set_color h p RB_BLACK) u RB_BLACK) g RB_RED)"

definition paint2 :: "u32 \<Rightarrow> u32 \<Rightarrow> cfs_sys \<Rightarrow> cfs_sys" where
  "paint2 p g = upd_ents (\<lambda>h. set_color (set_color h p RB_BLACK) g RB_RED)"

definition bal_turn :: "u32 \<Rightarrow> cfs_sys \<times> u32 \<Rightarrow> cfs_sys \<times> u32" where
  "bal_turn Q = (\<lambda>(s, se).
     let h = ents s; p = rb_parent (h se); g = rb_parent (h p) in
     if p = rb_left (h g)
     then (let u = rb_right (h g) in
           if u \<noteq> 0 \<and> rb_color (h u) = RB_RED then (paint3 p u g s, g)
           else let (s1, n1) = (if se = rb_right (h p) then (rb_rotate_left s Q p, p) else (s, se))
                in (rb_rotate_right (paint2 (rb_parent (ents s1 n1)) g s1) Q g, n1))
     else (let u = rb_left (h g) in
           if u \<noteq> 0 \<and> rb_color (h u) = RB_RED then (paint3 p u g s, g)
           else let (s1, n1) = (if se = rb_left (h p) then (rb_rotate_right s Q p, p) else (s, se))
                in (rb_rotate_left (paint2 (rb_parent (ents s1 n1)) g s1) Q g, n1)))"

definition rb_insert :: "cfs_sys \<Rightarrow> u32 \<Rightarrow> u32 \<Rightarrow> (int \<times> cfs_sys) option" where
  "rb_insert s Q se =
     (if Q = 0 \<or> se = 0 then Some (-1, s)
      else case while_option (\<lambda>(link, _). deref s Q link \<noteq> 0) (link_turn s Q (vruntime (ents s se))) (RootLink, 0) of
             None \<Rightarrow> None
           | Some (link, parent) \<Rightarrow>
               let s1 = upd_ents (\<lambda>h. set_color (set_left (set_right (set_parent h se parent) se 0) se 0) se RB_RED) s in
               (case while_option (bal_guard Q) (bal_turn Q) (assign Q link se s1, se) of
                  None \<Rightarrow> None
                | Some (s2, _) \<Rightarrow>
                    Some (0, upd_rq Q (\<lambda>q. q\<lparr>rb_node_count := rb_node_count q + 1\<rparr>)
                               (upd_ents (\<lambda>h. set_color h (rq_root (rqs s2 Q)) RB_BLACK) s2))))"

definition unlink :: "u32 \<Rightarrow> u32 \<Rightarrow> cfs_sys \<Rightarrow> cfs_sys" where
  "unlink Q n s =
     (let h = ents s; x = (if rb_left (h n) \<noteq> 0 then rb_left (h n) else rb_right (h n));
          s1 = (if x \<noteq> 0 then upd_ents (\<lambda>h. set_parent h x (rb_parent (h n))) s else s);
          p = rb_parent (ents s1 n) in
      if p = 0 then upd_rq Q (\<lambda>q. q\<lparr>rq_root := x\<rparr>) s1
      else if n = rb_left (ents s1 p) then upd_ents (\<lambda>h. set_left h p x) s1
      else upd_ents (\<lambda>h. set_right h p x) s1)"

definition rb_erase :: "cfs_sys \<Rightarrow> u32 \<Rightarrow> u32 \<Rightarrow> cfs_sys option" where
  "rb_erase s Q se =
     (let h = ents s;
          finish = (\<lambda>s. upd_rq Q (\<lambda>q. q\<lparr>rb_node_count := rb_node_count q - 1\<rparr>)
                     (upd_ents (\<lambda>h. set_left (set_right (set_parent h se 0) se 0) se 0) s)) in
      if Q = 0 \<or> se = 0 then Some s
      else if rb_left (h se) \<noteq> 0 \<and> rb_right (h se) \<noteq> 0
      then map_option (\<lambda>succ. finish (unlink Q succ (upd_ent se (\<lambda>e. e\<lparr>vruntime := vruntime (h succ)\<rparr>) s)))
             (rb_subtree_min h (rb_right (h se)))
      else Some (finish (unlink Q se s)))"

definition cfs_rq_enqueue :: "cfs_sys \<Rightarrow> u32 \<Rightarrow> u32 \<Rightarrow> (int \<times> cfs_sys) option" where
  "cfs_rq_enqueue s Q se =
     (if Q = 0 \<or> se = 0 then Some (-1, s)
      else if on_rq (ents s se) then Some (-1, s)
      else let m = min_vruntime (rqs s Q);
               s1 = (if vruntime (ents s se) < m then upd_ent se (\<lambda>e. e\<lparr>vruntime := m\<rparr>) s else s) in
           map_option (\<lambda>(_, s2).
             let s3 = upd_ent se (\<lambda>e. e\<lparr>on_rq := True\<rparr>) s2 in
             (0, upd_rq Q (\<lambda>q. q\<lparr>nr_running := nr_running q + 1, weight_sum := weight_sum q + weight (ents s3 se)\<rparr>) s3))
           (rb_insert s1 Q se))"

definition cfs_rq_dequeue :: "cfs_sys \<Rightarrow> u32 \<Rightarrow> u32 \<Rightarrow> (int \<times> cfs_sys) option" where
  "cfs_rq_dequeue s Q se =
     (if Q = 0 \<or> se = 0 then Some (-1, s)
      else if \<not> on_rq (ents s se) then Some (-1, s)
      else map_option (\<lambda>s1.
             let s2 = upd_rq Q (\<lambda>q. q\<lparr>nr_running := nr_running q - 1\<rparr>) (upd_ent se (\<lambda>e. e\<lparr>on_rq := False\<rparr>) s1);
                 w = weight (ents s2 se) in
             (0, if w \<noteq> 0 \<and> sint (weight_sum (rqs s2 Q)) \<ge> sint w
                 then upd_rq Q (\<lambda>q. q\<lparr>weight_sum := weight_sum q - w\<rparr>) s2 else s2))
           (rb_erase s Q se))"

definition cfs_rq_pick_next :: "cfs_sys \<Rightarrow> u32 \<Rightarrow> u32 option" where
  "cfs_rq_pick_next s Q = (if Q = 0 then Some 0 else rb_leftmost s Q)"

definition cfs_rq_account :: "cfs_sys \<Rightarrow> u32 \<Rightarrow> u32 \<Rightarrow> u64 \<Rightarrow> cfs_sys" where
  "cfs_rq_account s Q se delta_exec_ns =
     (if Q = 0 \<or> se = 0 then s
      else let e = ents s se; w = (if weight e \<noteq> 0 then ucast (weight e) else 1 :: u64);
               v = vruntime e + (delta_exec_ns * 1024) div w;
               s1 = upd_ent se (\<lambda>e. e\<lparr>vruntime := v, sum_exec_runtime := sum_exec_runtime e + delta_exec_ns\<rparr>) s in
           upd_rq Q (\<lambda>q. q\<lparr>min_vruntime := (if v > min_vruntime q then v else min_vruntime q), exec_clock := exec_clock q + delta_exec_ns\<rparr>) s1)"

subsection \<open>The rebalancing loop\<close>

lemma upd_sel [simp]:
  "ents (upd_rq Q f s) = ents s" "rqs (upd_rq Q f s) = (rqs s)(Q := f (rqs s Q))"
  "ents (upd_ents g s) = g (ents s)" "rqs (upd_ents g s) = rqs s"
  "ents (upd_ent a k s) = (ents s)(a := k (ents s a))" "rqs (upd_ent a k s) = rqs s"
  by (simp_all add: upd_rq_def upd_ents_def upd_ent_def)

lemma rb_rotate_sel [simp]:
  "ents (rb_rotate_left s Q x) = fst (rot_left (ents s, rq_root (rqs s Q)) x)"
  "rqs (rb_rotate_left s Q x) = (rqs s)(Q := (rqs s Q)\<lparr>rq_root := snd (rot_left (ents s, rq_root (rqs s Q)) x)\<rparr>)"
  "ents (rb_rotate_right s Q x) = fst (rot_right (ents s, rq_root (rqs s Q)) x)"
  "rqs (rb_rotate_right s Q x) = (rqs s)(Q := (rqs s Q)\<lparr>rq_root := snd (rot_right (ents s, rq_root (rqs s Q)) x)\<rparr>)"
  by (simp_all add: rb_rotate_left_def rb_rotate_right_def put_rot_def upd_rq_def)

text \<open>One turn is a step of the balancing algorithm, and the queue's other fields stay.\<close>

definition bal_ok :: "u32 \<Rightarrow> cfs_sys \<Rightarrow> rbt \<Rightarrow> frame list \<Rightarrow> bool" where
  "bal_ok Q s t fs \<longleftrightarrow>
     (case fix_step t fs of (t', fs') \<Rightarrow>
        \<exists>s'. bal_turn Q (s, addr t) = (s', addr t') \<and> zip_at (ents s') (rq_root (rqs s' Q)) t' fs' \<and>
          (\<forall>a. rb_node.more (ents s' a) = rb_node.more (ents s a)))"

lemma bal_turn_LL:
  assumes "zip_at (ents s) (rq_root (rqs s Q)) (T l n e r) (FL p c b # FL g d u # fs)"
  shows "bal_ok Q s (T l n e r) (FL p c b # FL g d u # fs)"
proof -
  have z: "zip_at (ents s) (rq_root (rqs s Q)) (T (T l n e r) p c b) (FL g d u # fs)" and zz: "zip_at (ents s) (rq_root (rqs s Q)) (T (T (T l n e r) p c b) g d u) fs"
    using assms by (simp_all add: zip_move)
  note t = zip_top [OF assms] zip_top [OF z] zip_top [OF zz]
  note u = zip_red [OF zz]
  show ?thesis
  proof (cases "rcolor u = RB_RED")
    case True
    then have "u \<noteq> E" by auto
    moreover have "bal_turn Q (s, n) = (paint3 p (addr u) g s, g)"
      using t u True by (simp add: bal_turn_def Let_def)
    ultimately show ?thesis
      using True recolor_left [OF z] t by (simp add: bal_ok_def paint3_def set_color_swap [of p "addr u"])
  next
    case False
    then have nu: "addr u = 0 \<or> rb_color (ents s (addr u)) \<noteq> RB_RED" using u by blast
    have "bal_turn Q (s, n) = (rb_rotate_right (paint2 p g s) Q g, n)"
      using t nu by (cases "addr u = 0") (simp_all add: bal_turn_def Let_def)
    then show ?thesis using False finish_left [OF z] by (simp add: bal_ok_def paint2_def prod_eq_iff)
  qed
qed

lemma bal_turn_RR:
  assumes "zip_at (ents s) (rq_root (rqs s Q)) (T l n e r) (FR b p c # FR u g d # fs)"
  shows "bal_ok Q s (T l n e r) (FR b p c # FR u g d # fs)"
proof -
  have z: "zip_at (ents s) (rq_root (rqs s Q)) (T b p c (T l n e r)) (FR u g d # fs)" and zz: "zip_at (ents s) (rq_root (rqs s Q)) (T u g d (T b p c (T l n e r))) fs"
    using assms by (simp_all add: zip_move)
  note t = zip_top [OF assms] zip_top [OF z] zip_top [OF zz]
  note u = zip_red [OF zz]
  show ?thesis
  proof (cases "rcolor u = RB_RED")
    case True
    then have "u \<noteq> E" by auto
    moreover have "bal_turn Q (s, n) = (paint3 p (addr u) g s, g)"
      using t u True by (simp add: bal_turn_def Let_def)
    ultimately show ?thesis
      using True recolor_right [OF z] t by (simp add: bal_ok_def paint3_def set_color_swap [of p "addr u"])
  next
    case False
    then have nu: "addr u = 0 \<or> rb_color (ents s (addr u)) \<noteq> RB_RED" using u by blast
    have "bal_turn Q (s, n) = (rb_rotate_left (paint2 p g s) Q g, n)"
      using t nu by (cases "addr u = 0") (simp_all add: bal_turn_def Let_def)
    then show ?thesis using False finish_right [OF z] by (simp add: bal_ok_def paint2_def prod_eq_iff)
  qed
qed

lemma bal_turn_LR:
  assumes "zip_at (ents s) (rq_root (rqs s Q)) (T l n e r) (FR b p c # FL g d u # fs)"
  shows "bal_ok Q s (T l n e r) (FR b p c # FL g d u # fs)"
proof -
  have z: "zip_at (ents s) (rq_root (rqs s Q)) (T b p c (T l n e r)) (FL g d u # fs)" and zz: "zip_at (ents s) (rq_root (rqs s Q)) (T (T b p c (T l n e r)) g d u) fs"
    using assms by (simp_all add: zip_move)
  note t = zip_top [OF assms] zip_top [OF z] zip_top [OF zz]
  note u = zip_red [OF zz]
  show ?thesis
  proof (cases "rcolor u = RB_RED")
    case True
    then have "u \<noteq> E" by auto
    moreover have "bal_turn Q (s, n) = (paint3 p (addr u) g s, g)"
      using t u True by (simp add: bal_turn_def Let_def)
    ultimately show ?thesis
      using True recolor_left [OF z] t by (simp add: bal_ok_def paint3_def set_color_swap [of p "addr u"])
  next
    case False
    then have nu: "addr u = 0 \<or> rb_color (ents s (addr u)) \<noteq> RB_RED" using u by blast
    define s1 where "s1 = rb_rotate_left s Q p"
    have 1: "zip_at (ents s1) (rq_root (rqs s1 Q)) (T (T b p c l) n e r) (FL g d u # fs)" using rot_left_zip [OF z] by (simp add: s1_def)
    then have "zip_at (ents s1) (rq_root (rqs s1 Q)) (T b p c l) (FL n e r # FL g d u # fs)" by (simp add: zip_move)
    from zip_top(4) [OF this] have up: "rb_parent (ents s1 p) = n" by simp
    have "bal_turn Q (s, n) = (rb_rotate_right (paint2 n g s1) Q g, p)"
      using t nu up by (cases "addr u = 0") (simp_all add: bal_turn_def Let_def s1_def)
    then show ?thesis using False finish_left [OF 1] by (simp add: bal_ok_def paint2_def prod_eq_iff) (simp add: s1_def)
  qed
qed

lemma bal_turn_RL:
  assumes "zip_at (ents s) (rq_root (rqs s Q)) (T l n e r) (FL p c b # FR u g d # fs)"
  shows "bal_ok Q s (T l n e r) (FL p c b # FR u g d # fs)"
proof -
  have z: "zip_at (ents s) (rq_root (rqs s Q)) (T (T l n e r) p c b) (FR u g d # fs)" and zz: "zip_at (ents s) (rq_root (rqs s Q)) (T u g d (T (T l n e r) p c b)) fs"
    using assms by (simp_all add: zip_move)
  note t = zip_top [OF assms] zip_top [OF z] zip_top [OF zz]
  note u = zip_red [OF zz]
  show ?thesis
  proof (cases "rcolor u = RB_RED")
    case True
    then have "u \<noteq> E" by auto
    moreover have "bal_turn Q (s, n) = (paint3 p (addr u) g s, g)"
      using t u True by (simp add: bal_turn_def Let_def)
    ultimately show ?thesis
      using True recolor_right [OF z] t by (simp add: bal_ok_def paint3_def set_color_swap [of p "addr u"])
  next
    case False
    then have nu: "addr u = 0 \<or> rb_color (ents s (addr u)) \<noteq> RB_RED" using u by blast
    define s1 where "s1 = rb_rotate_right s Q p"
    have 1: "zip_at (ents s1) (rq_root (rqs s1 Q)) (T l n e (T r p c b)) (FR u g d # fs)" using rot_right_zip [OF z] by (simp add: s1_def)
    then have "zip_at (ents s1) (rq_root (rqs s1 Q)) (T r p c b) (FR l n e # FR u g d # fs)" by (simp add: zip_move)
    from zip_top(4) [OF this] have up: "rb_parent (ents s1 p) = n" by simp
    have "bal_turn Q (s, n) = (rb_rotate_left (paint2 n g s1) Q g, p)"
      using t nu up by (cases "addr u = 0") (simp_all add: bal_turn_def Let_def s1_def)
    then show ?thesis using False finish_right [OF 1] by (simp add: bal_ok_def paint2_def prod_eq_iff) (simp add: s1_def)
  qed
qed

lemma bal_turn_ok:
  assumes "zip_at (ents s) (rq_root (rqs s Q)) t fs" and "red_focus t fs" and "red_top fs"
  shows "bal_ok Q s t fs"
proof -
  obtain l n e r where t: "t = T l n e r" using assms(2) by (cases t) (auto simp: red_focus_def)
  obtain f1 f2 gs where fs: "fs = f1 # f2 # gs"
    using assms(2, 3) by (cases fs; cases "hd fs"; cases "tl fs") (auto simp: red_focus_def)
  show ?thesis
    using assms(1) unfolding t fs by (cases f1; cases f2) (simp_all add: bal_turn_LL bal_turn_RR bal_turn_LR bal_turn_RL)
qed

definition bal_view :: "u32 \<Rightarrow> cfs_sys \<times> u32 \<Rightarrow> (u32 \<Rightarrow> sched_entity) \<times> u32 \<times> u32" where
  "bal_view Q = (\<lambda>(s, se). (ents s, rq_root (rqs s Q), se))"

lemma bal_guard_red:
  assumes "zip_at (ents s) (rq_root (rqs s Q)) t fs" and "red_focus t fs"
  shows "bal_guard Q (s, addr t) \<longleftrightarrow> red_top fs"
proof -
  obtain l n c r where t: "t = T l n c r" using assms(2) by (cases t) (auto simp: red_focus_def)
  note top = zip_top [OF assms(1) [unfolded t]]
  show ?thesis
  proof (cases fs)
    case Nil
    with top t show ?thesis by (simp add: bal_guard_def)
  next
    case (Cons f gs)
    have p: "caddr fs \<noteq> 0" "rb_color (ents s (caddr fs)) = fcolor f" "rb_parent (ents s (caddr fs)) = caddr gs"
      using assms(1) Cons by (cases f; simp add: zip_at_def)+
    have "caddr gs \<noteq> 0" if "fcolor f = RB_RED"
    proof -
      have "gs \<noteq> []" using assms(2) Cons that by (cases f) (auto simp: red_focus_def)
      moreover have "ctx_at (ents s) (rq_root (rqs s Q)) (addr t) fs" using assms(1) by (simp add: zip_at_def)
      ultimately show ?thesis using Cons by (cases f; cases gs; cases "hd gs") auto
    qed
    with p top t Cons show ?thesis by (auto simp: bal_guard_def)
  qed
qed

interpretation cfs_fix: rb_fixer "bal_guard Q" "bal_turn Q" "bal_view Q" for Q
proof unfold_locales
  fix s :: "cfs_sys \<times> u32" and h root t fs
  assume v: "bal_view Q s = (h, root, addr t)" and z: "zip_at h root t fs" and f: "red_focus t fs"
  obtain s0 where s: "s = (s0, addr t)" "h = ents s0" "root = rq_root (rqs s0 Q)" using v by (cases s) (simp add: bal_view_def)
  from bal_guard_red [OF z [unfolded s(2, 3)] f] show "bal_guard Q s \<longleftrightarrow> red_top fs" by (simp add: s)
next
  fix s :: "cfs_sys \<times> u32" and h root t fs t' fs'
  assume v: "bal_view Q s = (h, root, addr t)" and z: "zip_at h root t fs" and f: "red_focus t fs" "red_top fs"
    and st: "fix_step t fs = (t', fs')"
  obtain s0 where s: "s = (s0, addr t)" "h = ents s0" "root = rq_root (rqs s0 Q)" using v by (cases s) (simp add: bal_view_def)
  from bal_turn_ok [OF z [unfolded s(2, 3)] f] st
  show "\<exists>h' root'. bal_view Q (bal_turn Q s) = (h', root', addr t') \<and> zip_at h' root' t' fs' \<and>
      (\<forall>a. rb_node.more (h' a) = rb_node.more (h a))"
    by (auto simp: bal_ok_def s bal_view_def)
qed

text \<open>The loop changes only the root of the queue.\<close>

lemma bal_turn_rq: "(rqs (fst (bal_turn Q x)) Q)\<lparr>rq_root := 0\<rparr> = (rqs (fst x) Q)\<lparr>rq_root := 0\<rparr>"
  by (cases x) (simp add: bal_turn_def Let_def paint2_def paint3_def)

lemma bal_loop_rq:
  assumes "while_option (bal_guard Q) (bal_turn Q) x = Some y"
  shows "(rqs (fst y) Q)\<lparr>rq_root := 0\<rparr> = (rqs (fst x) Q)\<lparr>rq_root := 0\<rparr>"
  by (rule while_option_rule [OF _ assms, where P = "\<lambda>z. (rqs (fst z) Q)\<lparr>rq_root := 0\<rparr> = (rqs (fst x) Q)\<lparr>rq_root := 0\<rparr>"])
    (simp_all add: bal_turn_rq)

subsection \<open>Insertion\<close>

lemma same_more:
  assumes "rb_node.more a = rb_node.more (b :: sched_entity)"
  shows "vruntime a = vruntime b" "on_rq a = on_rq b" "weight a = weight b"
  using assms by (cases a; cases b; simp)+

fun link_of :: "frame list \<Rightarrow> link" where
  "link_of [] = RootLink"
| "link_of (FL a c r # fs) = LeftLink a"
| "link_of (FR l a c # fs) = RightLink a"

lemma deref_link: "zip_at (ents s) (rq_root (rqs s Q)) t fs \<Longrightarrow> deref s Q (link_of fs) = addr t"
  by (cases fs; cases "hd fs") (auto simp: zip_at_def)

lemma link_loop:
  "zip_at (ents s) (rq_root (rqs s Q)) t fs \<Longrightarrow>
     while_option (\<lambda>(link, _). deref s Q link \<noteq> 0) (link_turn s Q v) (link_of fs, caddr fs) =
       Some (link_of (way (\<lambda>a. vruntime (ents s a)) v t fs), caddr (way (\<lambda>a. vruntime (ents s a)) v t fs))"
proof (induction t arbitrary: fs)
  case E
  with deref_link [OF E] show ?case by (simp add: while_option_unfold)
next
  case (T l a c r)
  have down: "zip_at (ents s) (rq_root (rqs s Q)) l (FL a c r # fs)" "zip_at (ents s) (rq_root (rqs s Q)) r (FR l a c # fs)"
    using T.prems by (simp_all add: zip_move)
  from T.IH(1) [OF down(1)] T.IH(2) [OF down(2)] zip_top(1) [OF T.prems] deref_link [OF T.prems] show ?case
    by (subst while_option_unfold) (simp add: link_turn_def)
qed

lemma assign_zip:
  assumes z: "zip_at (ents s) (rq_root (rqs s Q)) E fs" and n: "n \<noteq> 0" "n \<notin> fnodes fs"
    and s1: "s1 = upd_ents (\<lambda>h. set_color (set_left (set_right (set_parent h n (caddr fs)) n 0) n 0) n RB_RED) s"
    and s2: "s2 = assign Q (link_of fs) n s1"
  shows "zip_at (ents s2) (rq_root (rqs s2 Q)) (T E n RB_RED E) fs"
proof -
  have c: "fs \<noteq> [] \<Longrightarrow> caddr fs \<noteq> n" using caddr_in [of fs] n by auto
  have "zip_at (ents s2) (if fs = [] then n else rq_root (rqs s Q)) (T E n RB_RED E) fs"
  proof (rule zip_insert [OF z n])
    show "ents s2 n = (ents s n)\<lparr>rb_parent := caddr fs, rb_right := 0, rb_left := 0, rb_color := RB_RED\<rparr>"
      using c by (cases fs; cases "hd fs") (auto simp: s1 s2 set_defs)
    show "ents s2 a = ents s a" if "a \<noteq> n" "fs = [] \<or> a \<noteq> caddr fs" for a
      using that by (cases fs; cases "hd fs") (auto simp: s1 s2 set_defs)
    show "ents s2 a = (ents s a)\<lparr>rb_left := n\<rparr>" if "fs = FL a d r # gs" for a d r gs using that c by (auto simp: s1 s2 set_defs)
    show "ents s2 a = (ents s a)\<lparr>rb_right := n\<rparr>" if "fs = FR l a d # gs" for l a d gs using that c by (auto simp: s1 s2 set_defs)
  qed simp_all
  moreover have "rq_root (rqs s2 Q) = (if fs = [] then n else rq_root (rqs s Q))"
    by (cases fs; cases "hd fs") (auto simp: s1 s2)
  ultimately show ?thesis by simp
qed

text \<open>The tree of a queue: balanced, in the order of the virtual run times.\<close>

definition rq_tree :: "cfs_sys \<Rightarrow> u32 \<Rightarrow> rbt \<Rightarrow> bool" where
  "rq_tree s Q t \<longleftrightarrow>
     zip_at (ents s) (rq_root (rqs s Q)) t [] \<and> balanced t \<and> rcolor t \<noteq> RB_RED \<and> sorted (map (\<lambda>a. vruntime (ents s a)) (nodes t))"

lemma rb_insert_result:
  assumes "rq_tree s Q t" and "Q \<noteq> 0" and "n \<noteq> 0" and "n \<notin> set (nodes t)"
  shows "\<exists>s' t'. rb_insert s Q n = Some (0, s') \<and> rq_tree s' Q t' \<and>
    nodes t' = insort_after (\<lambda>a. vruntime (ents s a)) (vruntime (ents s n)) n (nodes t) \<and>
    (\<forall>a. rb_node.more (ents s' a) = rb_node.more (ents s a)) \<and>
    (rqs s' Q)\<lparr>rq_root := 0\<rparr> = (rqs s Q)\<lparr>rq_root := 0, rb_node_count := rb_node_count (rqs s Q) + 1\<rparr>"
proof -
  let ?k = "\<lambda>a. vruntime (ents s a)" and ?v = "vruntime (ents s n)"
  define fs where "fs = way ?k ?v t []"
  define s1 where "s1 = upd_ents (\<lambda>h. set_color (set_left (set_right (set_parent h n (caddr fs)) n 0) n 0) n RB_RED) s"
  define s2 where "s2 = assign Q (link_of fs) n s1"
  have z: "zip_at (ents s) (rq_root (rqs s Q)) t []" and ok: "balanced t" "rcolor t \<noteq> RB_RED" "sorted (map ?k (nodes t))"
    using assms(1) by (simp_all add: rq_tree_def)
  have "zip_at (ents s) (rq_root (rqs s Q)) E fs" using z zip_at_unzip [of "ents s" "rq_root (rqs s Q)" E fs] by (simp add: fs_def)
  moreover have "n \<notin> fnodes fs" using nodes_plug [of E fs] assms(4) by (simp add: fs_def)
  ultimately have 2: "zip_at (ents s2) (rq_root (rqs s2 Q)) (T E n RB_RED E) fs"
    using assms(3) by (intro assign_zip [OF _ _ _ s1_def s2_def])
  have m2: "rb_node.more (ents s2 a) = rb_node.more (ents s a)" for a
    by (cases fs; cases "hd fs") (auto simp: s1_def s2_def)
  have r2: "(rqs s2 Q)\<lparr>rq_root := 0\<rparr> = (rqs s Q)\<lparr>rq_root := 0\<rparr>" by (cases fs; cases "hd fs") (auto simp: s1_def s2_def)
  have "bal_view Q (s2, n) = (ents s2, rq_root (rqs s2 Q), addr (T E n RB_RED E))" by (simp add: bal_view_def)
  moreover have "red_focus (T E n RB_RED E) fs" unfolding fs_def by (rule new_red_focus [OF ok(1, 2)])
  ultimately obtain y h3 root3 n3 t3 where
    3: "while_option (bal_guard Q) (bal_turn Q) (s2, n) = Some y" "bal_view Q y = (h3, root3, n3)" "zip_at h3 root3 t3 []"
      "balanced t3" "t3 \<noteq> E" "nodes t3 = nodes (plug (T E n RB_RED E) fs)" "\<forall>a. rb_node.more (h3 a) = rb_node.more (ents s2 a)"
    using cfs_fix.loop_balances [OF _ 2] by blast
  obtain s3 where y: "y = (s3, n3)" "h3 = ents s3" "root3 = rq_root (rqs s3 Q)" using 3(2) by (cases y) (simp add: bal_view_def)
  let ?s' = "upd_rq Q (\<lambda>q. q\<lparr>rb_node_count := rb_node_count q + 1\<rparr>) (upd_ents (\<lambda>h. set_color h (rq_root (rqs s3 Q)) RB_BLACK) s3)"
  have "rb_insert s Q n = Some (0, ?s')"
    using link_loop [OF z, of ?v] assms(2, 3) 3(1) y by (simp add: rb_insert_def fs_def s1_def s2_def)
  moreover have more: "rb_node.more (ents ?s' a) = rb_node.more (ents s a)" for a using 3(7) y m2 by simp
  moreover have ns: "nodes t3 = insort_after ?k ?v n (nodes t)" using 3(6) nodes_way [OF ok(3)] by (simp add: fs_def)
  moreover have "rq_tree ?s' Q (paint RB_BLACK t3)"
  proof -
    have "zip_at (ents ?s') (rq_root (rqs ?s' Q)) (paint RB_BLACK t3) []"
      using zip_paint [OF 3(3, 5), of RB_BLACK] 3(3) y by (simp add: zip_at_def)
    moreover have "(\<lambda>a. vruntime (ents ?s' a)) = ?k" using more same_more(1) by blast
    ultimately show ?thesis using 3(4) ns sorted_insort_after [OF ok(3), of n] unfolding rq_tree_def by (simp add: balanced_paint)
  qed
  moreover have "(rqs ?s' Q)\<lparr>rq_root := 0\<rparr> = (rqs s Q)\<lparr>rq_root := 0, rb_node_count := rb_node_count (rqs s Q) + 1\<rparr>"
    using bal_loop_rq [OF 3(1)] r2 y by (cases "rqs s3 Q"; cases "rqs s2 Q"; cases "rqs s Q") simp
  ultimately show ?thesis by (intro exI [of _ ?s'] exI [of _ "paint RB_BLACK t3"]) simp
qed

subsection \<open>Properties\<close>

definition rq_ok :: "cfs_sys \<Rightarrow> u32 \<Rightarrow> rbt \<Rightarrow> bool" where
  "rq_ok s Q t \<longleftrightarrow>
     rq_tree s Q t \<and> (\<forall>a \<in> set (nodes t). on_rq (ents s a)) \<and>
     rb_node_count (rqs s Q) = of_nat (length (nodes t)) \<and> nr_running (rqs s Q) = of_nat (length (nodes t))"

lemma leftmost_result:
  assumes "rq_tree s Q t" and "Q \<noteq> 0"
  shows "cfs_rq_pick_next s Q = Some (first_of (nodes t))"
proof -
  have t: "rq_root (rqs s Q) = addr t" "tree_at (ents s) 0 t" using assms(1) by (simp_all add: rq_tree_def zip_at_def)
  with leftmost_loop [OF t(2)] addr_zero [OF t(2)] assms(2) show ?thesis
    by (cases "t = E") (simp_all add: cfs_rq_pick_next_def rb_leftmost_def rb_subtree_min_def)
qed

lemma set_insort_after [simp]:
  "set (insort_after key k n ns) = insert n (set ns)" "length (insort_after key k n ns) = Suc (length ns)"
proof -
  let ?P = "\<lambda>a. key a \<le> k"
  have "set (takeWhile ?P ns) \<union> set (dropWhile ?P ns) = set ns" by (simp only: takeWhile_dropWhile_id flip: set_append)
  then show "set (insort_after key k n ns) = insert n (set ns)" by (auto simp: insort_after_def simp del: dropWhile_eq_Nil_conv)
  have "length (takeWhile ?P ns) + length (dropWhile ?P ns) = length ns" by (simp only: takeWhile_dropWhile_id flip: length_append)
  then show "length (insort_after key k n ns) = Suc (length ns)" by (simp add: insort_after_def)
qed

text \<open>Only the links, the colours and the virtual run times of its entities matter to a tree.\<close>

lemma rq_tree_cong:
  assumes "\<And>a. a \<in> set (nodes t) \<Longrightarrow> rb_node.truncate (ents s' a) = rb_node.truncate (ents s a) \<and> vruntime (ents s' a) = vruntime (ents s a)"
    and "rq_root (rqs s' Q) = rq_root (rqs s Q)"
  shows "rq_tree s' Q t \<longleftrightarrow> rq_tree s Q t"
proof -
  have "(\<And>a. a \<in> set (nodes u) \<Longrightarrow> rb_node.truncate (ents s' a) = rb_node.truncate (ents s a)) \<Longrightarrow>
    tree_at (ents s') p u = tree_at (ents s) p u" for p u
    by (induction u arbitrary: p) (auto simp: rb_node.defs)
  then have "tree_at (ents s') 0 t = tree_at (ents s) 0 t" using assms(1) by blast
  moreover have "map (\<lambda>a. vruntime (ents s' a)) (nodes t) = map (\<lambda>a. vruntime (ents s a)) (nodes t)" using assms(1) by simp
  ultimately show ?thesis by (simp only: rq_tree_def zip_at_def assms(2) caddr.simps ctx_at.simps)
qed

lemma raise_keeps:
  assumes "rq_tree s Q t" and "se \<notin> set (nodes t)"
  shows "rq_tree (if b then upd_ent se f s else s) Q t"
proof -
  have "a \<noteq> se" if "a \<in> set (nodes t)" for a using that assms(2) by auto
  then show ?thesis using assms(1) rq_tree_cong [of t "upd_ent se f s" s Q] by (cases b) simp_all
qed

lemma mark_keeps: "rq_tree (upd_rq Q (\<lambda>q. q\<lparr>nr_running := v, weight_sum := w\<rparr>) (upd_ent se (\<lambda>e. e\<lparr>on_rq := x\<rparr>) s)) Q t \<longleftrightarrow> rq_tree s Q t"
  by (rule rq_tree_cong) (simp_all add: rb_node.defs)

text \<open>C7: enqueueing keeps the queue balanced and fair. A new entity enters the tree behind all entities whose
  virtual run time is not larger, after its own was raised to the queue's minimum; counters are right,
  and the entity picked next is one of the queue with the least virtual run time.\<close>
theorem cfs_enqueue_picks_least:
  assumes "rq_ok s Q t" and "Q \<noteq> 0" and "se \<noteq> 0" and "se \<notin> set (nodes t)" and "\<not> on_rq (ents s se)"
  shows "\<exists>s' t'. cfs_rq_enqueue s Q se = Some (0, s') \<and> rq_ok s' Q t' \<and> set (nodes t') = insert se (set (nodes t)) \<and>
    vruntime (ents s' se) = max (vruntime (ents s se)) (min_vruntime (rqs s Q)) \<and>
    (\<exists>a \<in> set (nodes t'). cfs_rq_pick_next s' Q = Some a \<and> (\<forall>b \<in> set (nodes t'). vruntime (ents s' a) \<le> vruntime (ents s' b)))"
proof -
  let ?m = "min_vruntime (rqs s Q)"
  define s1 where "s1 = (if vruntime (ents s se) < ?m then upd_ent se (\<lambda>e. e\<lparr>vruntime := ?m\<rparr>) s else s)"
  have e1: "a \<noteq> se \<Longrightarrow> ents s1 a = ents s a" "vruntime (ents s1 se) = max (vruntime (ents s se)) ?m" "rqs s1 = rqs s" for a
    by (auto simp: s1_def max_def)
  have "rq_tree s1 Q t" unfolding s1_def using assms(1, 4) by (intro raise_keeps) (simp_all add: rq_ok_def)
  from rb_insert_result [OF this assms(2-4)] obtain s2 t2 where
    2: "rb_insert s1 Q se = Some (0, s2)" "rq_tree s2 Q t2" "set (nodes t2) = insert se (set (nodes t))"
      "length (nodes t2) = Suc (length (nodes t))" "\<forall>a. rb_node.more (ents s2 a) = rb_node.more (ents s1 a)"
      "(rqs s2 Q)\<lparr>rq_root := 0\<rparr> = (rqs s1 Q)\<lparr>rq_root := 0, rb_node_count := rb_node_count (rqs s1 Q) + 1\<rparr>" by auto
  note more = same_more [OF 2(5) [THEN spec]]
  define s4 where "s4 = upd_rq Q (\<lambda>q. q\<lparr>nr_running := nr_running (rqs s2 Q) + 1, weight_sum := weight_sum (rqs s2 Q) + weight (ents s2 se)\<rparr>)
    (upd_ent se (\<lambda>e. e\<lparr>on_rq := True\<rparr>) s2)"
  have enq: "cfs_rq_enqueue s Q se = Some (0, s4)"
    using assms(2, 3, 5) 2(1) by (simp add: cfs_rq_enqueue_def Let_def s1_def [symmetric] s4_def upd_rq_def)
  have t4: "rq_tree s4 Q t2" unfolding s4_def mark_keeps by (rule 2(2))
  have f: "vruntime (ents s4 a) = vruntime (ents s2 a)" "on_rq (ents s4 a) \<longleftrightarrow> a = se \<or> on_rq (ents s2 a)" for a
    by (simp_all add: s4_def)
  have "rb_node_count (rqs s2 Q) = rb_node_count (rqs s Q) + 1" "nr_running (rqs s2 Q) = nr_running (rqs s Q)"
    using 2(6) e1(3) by (cases "rqs s2 Q"; cases "rqs s Q"; simp)+
  moreover have "\<forall>a \<in> set (nodes t2). on_rq (ents s4 a)"
    using assms(1) 2(3) f(2) more(2) e1(1) unfolding rq_ok_def by (metis insert_iff)
  ultimately have ok: "rq_ok s4 Q t2" using t4 assms(1) 2(4) by (simp add: rq_ok_def) (simp add: s4_def)
  have "nodes t2 \<noteq> []" using 2(4) by auto
  then have "first_of (nodes t2) \<in> set (nodes t2)" "\<forall>b \<in> set (nodes t2). vruntime (ents s4 (first_of (nodes t2))) \<le> vruntime (ents s4 b)"
    using t4 by (cases "nodes t2"; auto simp: rq_tree_def)+
  with enq ok 2(3) leftmost_result [OF t4 assms(2)] f(1) more(1) e1(2) show ?thesis by (intro exI [of _ s4] exI [of _ t2]) auto
qed

text \<open>An initialised queue at 0x10 and idle entities everywhere.\<close>

definition idle_sys :: cfs_sys where
  "idle_sys = snd (cfs_rq_init
     \<lparr>ents = (\<lambda>_. \<lparr>rb_parent = 0, rb_left = 0, rb_right = 0, rb_color = 0, vruntime = 5, sum_exec_runtime = 0, weight = 1024, on_rq = False\<rparr>),
      rqs = (\<lambda>_. \<lparr>rq_root = 0, rb_node_count = 0, min_vruntime = 0, exec_clock = 0, nr_running = 0, weight_sum = 0,
                target_latency = 0, min_granularity = 0, inited = False\<rparr>)\<rparr> 0x10)"

theorem cfs_enqueue_picks_least_witness:
  "\<exists>s'. cfs_rq_enqueue idle_sys 0x10 0x1000 = Some (0, s') \<and> vruntime (ents s' 0x1000) = 5 \<and> cfs_rq_pick_next s' 0x10 = Some 0x1000"
proof -
  have "rq_ok idle_sys 0x10 E" by (simp add: rq_ok_def rq_tree_def zip_at_def idle_sys_def cfs_rq_init_def)
  from cfs_enqueue_picks_least [OF this, of "0x1000"] show ?thesis by (auto simp: idle_sys_def cfs_rq_init_def)
qed

lemma unlink_zip:
  assumes z: "zip_at (ents s) (rq_root (rqs s Q)) (T l n c r) fs" and "l = E \<or> r = E" and x: "x = (if l = E then r else l)"
  shows "zip_at (ents (unlink Q n s)) (rq_root (rqs (unlink Q n s) Q)) x fs"
proof -
  note top = zip_top [OF z]
  have lr: "tree_at (ents s) n l" "tree_at (ents s) n r" using z by (simp_all add: zip_at_def)
  have ax: "(if rb_left (ents s n) \<noteq> 0 then rb_left (ents s n) else rb_right (ents s n)) = addr x"
    using top(2, 3) assms(2) addr_zero [OF lr(1)] by (cases "l = E") (simp_all add: x)
  have nx: "n \<noteq> addr x" using top(6, 7) by (simp add: x)
  define s1 where "s1 = (if addr x \<noteq> 0 then upd_ents (\<lambda>h. set_parent h (addr x) (rb_parent (h n))) s else s)"
  have s1: "a \<noteq> addr x \<Longrightarrow> ents s1 a = ents s a" "addr x \<noteq> 0 \<Longrightarrow> ents s1 (addr x) = (ents s (addr x))\<lparr>rb_parent := caddr fs\<rparr>"
    "rqs s1 = rqs s" for a using top(4) by (simp_all add: s1_def set_parent_def)
  have p: "rb_parent (ents s1 n) = caddr fs" using s1(1) [OF nx] top(4) by simp
  have u: "unlink Q n s = (if caddr fs = 0 then upd_rq Q (\<lambda>q. q\<lparr>rq_root := addr x\<rparr>) s1
      else if n = rb_left (ents s1 (caddr fs)) then upd_ents (\<lambda>h. set_left h (caddr fs) (addr x)) s1
      else upd_ents (\<lambda>h. set_right h (caddr fs) (addr x)) s1)"
    unfolding unlink_def Let_def ax s1_def [symmetric] p by (rule refl)
  show ?thesis
  proof (rule zip_unlink [OF z assms(2) x])
    show "ents (unlink Q n s) a = ents s a" if "a \<noteq> n" "a \<noteq> addr x" "fs = [] \<or> a \<noteq> caddr fs" for a
      using that s1(1) [OF that(2)] by (auto simp: u set_left_def set_right_def)
    show "ents (unlink Q n s) (addr x) = (ents s (addr x))\<lparr>rb_parent := caddr fs\<rparr>"
      if "addr x \<noteq> 0" "addr x \<noteq> n" "fs = [] \<or> addr x \<noteq> caddr fs"
      using that s1(2) [OF that(1)] by (auto simp: u set_left_def set_right_def)
    show "ents (unlink Q n s) (caddr fs) = (if rb_left (ents s (caddr fs)) = n then (ents s (caddr fs))\<lparr>rb_left := addr x\<rparr>
        else (ents s (caddr fs))\<lparr>rb_right := addr x\<rparr>)" if "caddr fs \<noteq> 0" "caddr fs \<noteq> n" "caddr fs \<noteq> addr x"
      using that s1(1) [OF that(3)] by (auto simp: u set_left_def set_right_def)
    show "rq_root (rqs (unlink Q n s) Q) = (if caddr fs = 0 then addr x else rq_root (rqs s Q))" by (simp add: u s1(3))
  qed
qed

text \<open>C39: dequeueing an entity with two children loses the rest of the queue. The removal copies the successor's
  run time into the entity, takes the successor out, and then clears the links of the entity, which is still
  the root: it is picked next although it was dequeued, and no other entity can be reached.\<close>
theorem cfs_dequeue_loses_queue:
  assumes "zip_at (ents s) (rq_root (rqs s Q)) (T l n c r) []" and "l \<noteq> E" and "r \<noteq> E" and "Q \<noteq> 0" and "on_rq (ents s n)"
  shows "\<exists>s'. cfs_rq_dequeue s Q n = Some (0, s') \<and> \<not> on_rq (ents s' n) \<and> cfs_rq_pick_next s' Q = Some n \<and>
    rq_root (rqs s' Q) = n \<and> rb_left (ents s' n) = 0 \<and> rb_right (ents s' n) = 0"
proof -
  note top = zip_top [OF assms(1)]
  have lr: "tree_at (ents s) n l" "tree_at (ents s) n r" using assms(1) by (simp_all add: zip_at_def)
  have root: "rq_root (rqs s Q) = n" using assms(1) by (simp add: zip_at_def)
  let ?y = "first_of (nodes r)"
  have y: "?y \<in> set (nodes r)" using assms(3) by (cases "nodes r") simp_all
  have py: "rb_parent (ents s ?y) \<noteq> 0" by (rule parent_nonzero [OF lr(2) top(1) y])
  let ?s0 = "upd_ent n (\<lambda>e. e\<lparr>vruntime := vruntime (ents s ?y)\<rparr>) s"
  have min: "rb_subtree_min (ents s) (rb_right (ents s n)) = Some ?y"
    using leftmost_loop [OF lr(2) assms(3)] top addr_zero [OF lr(2)] assms(3) by (simp add: rb_subtree_min_def)
  have ny: "?y \<noteq> n" using assms(1) y by (auto simp: zip_at_def)
  have keep: "rq_root (rqs (unlink Q ?y ?s0) Q) = n"
    using py ny root by (auto simp: unlink_def Let_def)
  show ?thesis
    using assms(2-5) top addr_zero [OF lr(1)] addr_zero [OF lr(2)] min keep
    by (simp add: cfs_rq_dequeue_def rb_erase_def Let_def cfs_rq_pick_next_def rb_leftmost_def rb_subtree_min_def while_option_unfold)
qed

text \<open>A queue with the root 0x1000 and the children 0x2000 and 0x3000.\<close>

definition three_ents :: cfs_sys where
  "three_ents =
     (let e = (\<lambda>p l r. \<lparr>rb_parent = p, rb_left = l, rb_right = r, rb_color = RB_BLACK, vruntime = 5, sum_exec_runtime = 0, weight = 1024, on_rq = True\<rparr>)
      in upd_rq 0x10 (\<lambda>q. q\<lparr>rq_root := 0x1000\<rparr>)
        (idle_sys\<lparr>ents := (ents idle_sys)(0x1000 := e 0 0x2000 0x3000, 0x2000 := e 0x1000 0 0, 0x3000 := e 0x1000 0 0)\<rparr>))"

theorem cfs_dequeue_loses_queue_witness:
  "\<exists>s'. cfs_rq_dequeue three_ents 0x10 0x1000 = Some (0, s') \<and> cfs_rq_pick_next s' 0x10 = Some 0x1000"
proof -
  have "zip_at (ents three_ents) (rq_root (rqs three_ents 0x10)) (T (T E 0x2000 RB_BLACK E) 0x1000 RB_BLACK (T E 0x3000 RB_BLACK E)) []"
    by (simp add: zip_at_def three_ents_def Let_def)
  moreover have "on_rq (ents three_ents 0x1000)" by (simp add: three_ents_def Let_def)
  ultimately show ?thesis using cfs_dequeue_loses_queue [of three_ents "0x10"] by fastforce
qed

text \<open>Dequeueing an entity with at most one child takes exactly this one out of the order.\<close>

lemma cfs_dequeue_result:
  assumes z: "zip_at (ents s) (rq_root (rqs s Q)) (T l n c r) fs" and "l = E \<or> r = E" and "Q \<noteq> 0" and "on_rq (ents s n)"
  shows "\<exists>s' t'. cfs_rq_dequeue s Q n = Some (0, s') \<and> zip_at (ents s') (rq_root (rqs s' Q)) t' [] \<and>
    nodes t' = nodes_l fs @ nodes l @ nodes r @ nodes_r fs \<and> \<not> on_rq (ents s' n)"
proof -
  define x where "x = (if l = E then r else l)"
  define s1 where "s1 = unlink Q n s"
  note top = zip_top [OF z]
  have lr: "tree_at (ents s) n l" "tree_at (ents s) n r" using z by (simp_all add: zip_at_def)
  have z1: "zip_at (ents s1) (rq_root (rqs s1 Q)) x fs" unfolding s1_def by (rule unlink_zip [OF z assms(2) x_def])
  have nin: "n \<notin> fnodes fs \<union> set (nodes x)" using z assms(2) by (auto simp: zip_at_def x_def)
  have ctx: "zip_at h root x fs" if "\<And>a. a \<noteq> n \<Longrightarrow> rb_node.truncate (h a) = rb_node.truncate (ents s1 a)" "root = rq_root (rqs s1 Q)" for h root
  proof -
    have t: "a \<in> set (nodes (plug x fs)) \<Longrightarrow> rb_node.truncate (h a) = rb_node.truncate (ents s1 a)" for a
      using nin by (intro that(1)) (auto simp: nodes_plug)
    have "(\<And>a. a \<in> set (nodes u) \<Longrightarrow> rb_node.truncate (h a) = rb_node.truncate (ents s1 a)) \<Longrightarrow>
      tree_at h p u = tree_at (ents s1) p u" for p u
      by (induction u arbitrary: p) (auto simp: rb_node.defs)
    from this [OF t] z1 that(2) show ?thesis
      using zip_at_unzip [of h root x fs] zip_at_unzip [of "ents s1" root x fs] by (simp add: zip_at_def)
  qed
  obtain s' where s': "cfs_rq_dequeue s Q n = Some (0, s')" "\<And>a. a \<noteq> n \<Longrightarrow> ents s' a = ents s1 a" "rq_root (rqs s' Q) = rq_root (rqs s1 Q)"
      "\<not> on_rq (ents s' n)"
    using assms(2-4) top addr_zero [OF lr(1)] addr_zero [OF lr(2)]
    by (auto simp: cfs_rq_dequeue_def rb_erase_def Let_def s1_def [symmetric] set_defs)
  have "zip_at (ents s') (rq_root (rqs s' Q)) x fs" by (rule ctx) (simp_all add: s')
  then have "zip_at (ents s') (rq_root (rqs s' Q)) (plug x fs) []" using zip_at_unzip by blast
  moreover have "nodes x = nodes l @ nodes r" using assms(2) by (auto simp: x_def)
  ultimately show ?thesis using s'(1, 4) by (auto simp: nodes_plug intro!: exI [of _ s'] exI [of _ "plug x fs"])
qed

subsection \<open>Weights\<close>

text \<open>The weights from nice value -20 to 19.\<close>

lemma weights: "map cfs_calc_weight [-20..19] =
   map (\<lambda>n. 2 ^ n) [29, 29, 28, 27, 26, 25, 24, 23, 22, 21, 20, 19, 18, 17, 16, 15, 14, 13, 12, 11, 10, 9, 8, 7, 6, 5, 4, 3, 2, 1, 0, 0, 0, 0, 0, 0, 0, 0, 0, 0]"
  by code_simp

end
