(* ===== verification/Softdiv.thy ===== *)
theory Softdiv
  imports Prelude "HOL-Library.While_Combinator" "HOL-Library.Signed_Division"
begin

text \<open>
  The 64-bit division the compiler calls on the 32-bit target, \<open>lib/softdiv.c\<close>: shift and subtract on
  words. Signed values are read from words by \<^const>\<open>sint\<close>, and negation wraps. A result \<open>None\<close> says that the
  loops do not end.
\<close>

definition align_turn :: "u64 \<times> u64 \<Rightarrow> u64 \<times> u64" where
  "align_turn = (\<lambda>(den, b). (push_bit 1 den, push_bit 1 b))"

definition divide_turn :: "u64 \<times> u64 \<times> u64 \<times> u64 \<Rightarrow> u64 \<times> u64 \<times> u64 \<times> u64" where
  "divide_turn = (\<lambda>(num, den, b, quot).
     let (num', quot') = (if num \<ge> den then (num - den, quot OR b) else (num, quot))
     in (num', drop_bit 1 den, drop_bit 1 b, quot'))"

definition udivdi3 :: "u64 \<Rightarrow> u64 \<Rightarrow> u64 option" where
  "udivdi3 num den =
     (if den = 0 then Some 0
      else case while_option (\<lambda>(den, b). den \<le> num \<and> den AND push_bit 63 1 = 0) align_turn (den, 1) of
             None \<Rightarrow> None
           | Some (den', b) \<Rightarrow>
               map_option (\<lambda>(_, _, _, quot). quot)
                 (while_option (\<lambda>(_, _, b, _). b \<noteq> 0) divide_turn (num, den', b, 0)))"

definition umoddi3 :: "u64 \<Rightarrow> u64 \<Rightarrow> u64 option" where
  "umoddi3 num den = (if den = 0 then Some 0 else map_option (\<lambda>q. num - q * den) (udivdi3 num den))"

definition divdi3 :: "u64 \<Rightarrow> u64 \<Rightarrow> u64 option" where
  "divdi3 num den =
     (let (num1, neg1) = (if sint num < 0 then (- num, True) else (num, False));
          (den1, neg2) = (if sint den < 0 then (- den, \<not> neg1) else (den, neg1))
      in map_option (\<lambda>r. if neg2 then - r else r) (udivdi3 num1 den1))"

definition moddi3 :: "u64 \<Rightarrow> u64 \<Rightarrow> u64 option" where
  "moddi3 num den =
     (let (num1, neg) = (if sint num < 0 then (- num, True) else (num, False));
          den1 = (if sint den < 0 then - den else den)
      in map_option (\<lambda>r. if neg then - r else r) (umoddi3 num1 den1))"

subsection \<open>The loops\<close>

lemma unat_or_exp:
  fixes q b :: u64
  assumes "2 ^ Suc k dvd unat q" and "unat b = 2 ^ k"
  shows "unat (q OR b) = unat q + 2 ^ k"
proof -
  have "even (unat q div 2 ^ k)" using assms(1) by (auto simp: dvd_def)
  then have "\<not> bit (unat q) k" by (simp add: bit_iff_odd)
  then have "unat q AND 2 ^ k = 0" by (simp add: and_exp_eq_0_iff_not_bit)
  from disjunctive_add_eq_or [OF this] show ?thesis by (simp add: unsigned_or_eq assms(2))
qed

lemma unat_shift_right: "unat (drop_bit 1 w) = unat w div 2" for w :: u64
  by (simp add: drop_bit_eq_div unat_div)

lemma unat_shift_left: "2 * unat w < 2 ^ 64 \<Longrightarrow> unat (push_bit 1 w) = 2 * unat w" for w :: u64
  by (simp add: push_bit_eq_mult unat_word_ariths mult.commute)

lemma top_bit: "w AND push_bit 63 1 = 0 \<longleftrightarrow> 2 * unat w < 2 ^ 64" for w :: u64
proof -
  have "push_bit 63 1 = (2 ^ 63 :: u64)" by simp
  then have "w AND push_bit 63 1 = 0 \<longleftrightarrow> \<not> bit w 63" by (simp only: and_exp_eq_0_iff_not_bit)
  also have "\<dots> \<longleftrightarrow> \<not> bit (unat w) 63" by (simp add: bit_unsigned_iff)
  also have "\<dots> \<longleftrightarrow> even (unat w div 2 ^ 63)" by (simp add: bit_iff_odd)
  also have "\<dots> \<longleftrightarrow> unat w div 2 ^ 63 = 0"
  proof -
    have "unat w < 2 ^ 64" using unsigned_less [where 'a = nat, of w] by simp
    then have "unat w div 2 ^ 63 < 2" by (simp add: div_less_iff_less_mult)
    then show ?thesis by (auto simp: less_2_cases_iff)
  qed
  also have "\<dots> \<longleftrightarrow> 2 * unat w < 2 ^ 64" by (auto simp: div_eq_0_iff)
  finally show ?thesis .
qed

text \<open>The first loop shifts the divisor until twice the shifted one is above the dividend.\<close>

lemma align_loop:
  fixes num den b :: u64
  assumes "unat den = d * 2 ^ k" and "unat b = 2 ^ k" and "0 < d" and "k < 64"
  shows "\<exists>den' b' m. while_option (\<lambda>(den, b). den \<le> num \<and> den AND push_bit 63 1 = 0) align_turn (den, b) = Some (den', b') \<and>
    unat den' = d * 2 ^ m \<and> unat b' = 2 ^ m \<and> unat num < d * 2 ^ Suc m \<and> m < 64"
  using assms(1, 2, 4)
proof (induction "64 - k" arbitrary: k den b)
  case (Suc j)
  show ?case
  proof (cases "den \<le> num \<and> den AND push_bit 63 1 = 0")
    case True
    then have small: "2 * unat den < 2 ^ 64" by (simp only: top_bit)
    have "2 * 2 ^ k \<le> d * (2 * 2 ^ k)" using assms(3) by simp
    also have "\<dots> = 2 * unat den" using Suc.prems(1) by simp
    finally have le: "(2::nat) ^ Suc k < 2 ^ 64" using small by simp
    then have k: "Suc k < 64" by (rule power_less_imp_less_exp [rotated]) simp
    have "unat (push_bit 1 den) = d * 2 ^ Suc k" using unat_shift_left [OF small] Suc.prems(1) by simp
    moreover have "unat (push_bit 1 b) = 2 ^ Suc k" using unat_shift_left [of b] Suc.prems(2) le by simp
    ultimately show ?thesis
      using Suc.hyps(1) [of "Suc k" "push_bit 1 den" "push_bit 1 b"] Suc.hyps(2) k True
      by (subst while_option_unfold) (simp add: align_turn_def)
  next
    case False
    then have "unat num < 2 * unat den"
    proof -
      consider "num < den" | "2 ^ 64 \<le> 2 * unat den" using False top_bit [of den] by force
      then show ?thesis
      proof cases
        case 1
        then show ?thesis by (simp add: word_less_nat_alt)
      next
        case 2
        moreover have "unat num < 2 ^ 64" using unsigned_less [where 'a = nat, of num] by simp
        ultimately show ?thesis by simp
      qed
    qed
    moreover have "while_option (\<lambda>(den, b). den \<le> num \<and> den AND push_bit 63 1 = 0) align_turn (den, b) = Some (den, b)"
      using False by (subst while_option_unfold) auto
    ultimately show ?thesis using Suc.prems by (intro exI [of _ den] exI [of _ b] exI [of _ k]) simp
  qed
qed simp

text \<open>The second loop: what was subtracted so far is a multiple of the divisor, the rest is below twice the
  current one.\<close>

lemma divide_loop:
  fixes num den b quot :: u64
  assumes "unat b = 2 ^ k" and "unat den = d * 2 ^ k" and "unat num < d * 2 ^ Suc k" and "2 ^ Suc k dvd unat quot"
    and "unat quot * d + unat num = n" and "0 < d"
  shows "\<exists>r e c q. while_option (\<lambda>(_, _, b, _). b \<noteq> 0) divide_turn (num, den, b, quot) = Some (r, e, c, q) \<and> unat q = n div d"
  using assms(1-5)
proof (induction k arbitrary: num den b quot)
  case 0
  have "b \<noteq> 0" using 0(1) by auto
  define q where "q = (if num \<ge> den then quot OR b else quot)"
  define r where "r = (if num \<ge> den then num - den else num)"
  have step: "divide_turn (num, den, b, quot) = (r, drop_bit 1 den, drop_bit 1 b, q)" by (simp add: divide_turn_def q_def r_def)
  have r: "unat q * d + unat r = n \<and> unat r < d"
    using 0 unat_or_exp [OF 0(4, 1)] by (auto simp: q_def r_def unat_sub word_le_nat_alt algebra_simps)
  have "drop_bit 1 b = 0" using 0(1) unat_shift_right [of b] by (simp add: unat_eq_0)
  then have "while_option (\<lambda>(_, _, b, _). b \<noteq> 0) divide_turn (num, den, b, quot) = Some (r, drop_bit 1 den, 0, q)"
    using \<open>b \<noteq> 0\<close> by (simp add: while_option_unfold step)
  moreover have "unat q = n div d" using r by (metis div_mult_self3 assms(6) div_less add.right_neutral mult.commute add.commute less_numeral_extra(3))
  ultimately show ?case by blast
next
  case (Suc k)
  have "b \<noteq> 0" using Suc.prems(1) by auto
  define q where "q = (if num \<ge> den then quot OR b else quot)"
  define r where "r = (if num \<ge> den then num - den else num)"
  have step: "divide_turn (num, den, b, quot) = (r, drop_bit 1 den, drop_bit 1 b, q)" by (simp add: divide_turn_def q_def r_def)
  have or: "unat (quot OR b) = unat quot + 2 ^ Suc k" by (rule unat_or_exp [OF Suc.prems(4, 1)])
  have "unat q * d + unat r = n \<and> unat r < d * 2 ^ Suc k"
    using Suc.prems(2, 3, 5) or by (auto simp: q_def r_def unat_sub word_le_nat_alt algebra_simps)
  moreover have "2 ^ Suc k dvd unat q"
    using Suc.prems(4) or by (auto simp: q_def intro: dvd_trans [of "2 ^ Suc k" "2 ^ Suc (Suc k)"])
  moreover have "unat (drop_bit 1 b) = 2 ^ k" "unat (drop_bit 1 den) = d * 2 ^ k"
    using Suc.prems(1, 2) unat_shift_right [of b] unat_shift_right [of den] by simp_all
  ultimately show ?case using Suc.IH [of "drop_bit 1 b" "drop_bit 1 den" r q] \<open>b \<noteq> 0\<close> by (subst while_option_unfold) (simp add: step)
qed

lemma udivdi3_eq: "udivdi3 num den = Some (num div den)"
proof (cases "den = 0")
  case False
  then have d: "0 < unat den" by (simp add: unat_gt_0)
  from align_loop [of den "unat den" 0 1 num] d obtain den' b' m where
    a: "while_option (\<lambda>(den, b). den \<le> num \<and> den AND push_bit 63 1 = 0) align_turn (den, 1) = Some (den', b')"
      "unat den' = unat den * 2 ^ m" "unat b' = 2 ^ m" "unat num < unat den * 2 ^ Suc m" by auto
  from divide_loop [OF a(3, 2, 4) _ _ d, of 0] obtain r e c q where
    "while_option (\<lambda>(_, _, b, _). b \<noteq> 0) divide_turn (num, den', b', 0) = Some (r, e, c, q)" "unat q = unat num div unat den" by auto
  moreover from this have "q = num div den" by (simp add: word_unat_eq_iff unat_div)
  ultimately show ?thesis using a(1) False by (simp add: udivdi3_def)
qed (simp add: udivdi3_def)

subsection \<open>Properties\<close>

text \<open>C21: the unsigned routines are division and remainder. For every dividend and every divisor the loops
  end and give the quotient and the remainder of the 64-bit words; by zero both give 0.\<close>
theorem udivdi3_correct:
  "udivdi3 num den = Some (num div den) \<and> umoddi3 num den = Some (if den = 0 then 0 else num mod den)"
proof -
  have "num - num div den * den = num mod den" by (simp add: minus_div_mult_eq_mod)
  then show ?thesis by (simp add: umoddi3_def udivdi3_eq)
qed

lemma abs_word: "uint (if sint w < 0 then - w else w) = \<bar>sint w\<bar>" for w :: u64
proof -
  have b: "- (2 ^ 63) \<le> sint w" "sint w < 2 ^ 63" using sint_greater_eq [of w] sint_less [of w] by simp_all
  have "(if sint w < 0 then - w else w) = word_of_int \<bar>sint w\<bar>" by simp
  moreover have "uint (word_of_int \<bar>sint w\<bar> :: u64) = \<bar>sint w\<bar>" using b by (simp add: uint_word_of_int)
  ultimately show ?thesis by (simp only:)
qed

lemma sdiv_parts: "(k::int) sdiv l = (if (k < 0) = (l < 0) then \<bar>k\<bar> div \<bar>l\<bar> else - (\<bar>k\<bar> div \<bar>l\<bar>))"
  by (auto simp: signed_divide_int_def sgn_if)

lemma smod_parts: "(k::int) smod l = (if k < 0 then - (\<bar>k\<bar> mod \<bar>l\<bar>) else \<bar>k\<bar> mod \<bar>l\<bar>)"
  by (simp add: smod_int_alt_def sgn_if)

text \<open>the signed routines truncate towards zero. For every divisor but 0 the results are the words of
  the quotient and of the remainder of the signed values as C defines them, the quotient wrapping for the
  least value divided by -1.\<close>
theorem divdi3_correct:
  assumes "den \<noteq> 0"
  shows "divdi3 num den = Some (word_of_int (sint num sdiv sint den)) \<and> moddi3 num den = Some (word_of_int (sint num smod sint den))"
proof -
  define n where "n = (if sint num < 0 then - num else num)"
  define d where "d = (if sint den < 0 then - den else den)"
  have u: "uint n = \<bar>sint num\<bar>" "uint d = \<bar>sint den\<bar>" unfolding n_def d_def by (rule abs_word)+
  have "d \<noteq> 0" using assms by (simp add: d_def)
  have q: "n div d = word_of_int (\<bar>sint num\<bar> div \<bar>sint den\<bar>)" "n mod d = word_of_int (\<bar>sint num\<bar> mod \<bar>sint den\<bar>)"
    by (simp_all add: word_div_def word_mod_def u)
  have "divdi3 num den = Some (if (sint num < 0) = (sint den < 0) then n div d else - (n div d))"
    by (auto simp: divdi3_def n_def d_def udivdi3_eq)
  moreover have "moddi3 num den = Some (if sint num < 0 then - (n mod d) else n mod d)"
    using \<open>d \<noteq> 0\<close> by (auto simp: moddi3_def n_def d_def umoddi3_def udivdi3_eq minus_div_mult_eq_mod)
  ultimately show ?thesis by (simp add: q sdiv_parts smod_parts)
qed

theorem divdi3_correct_witness: "divdi3 (- 7) 2 = Some (- 3) \<and> moddi3 (- 7) 2 = Some (- 1)"
  using divdi3_correct [of 2 "- 7"] by (simp add: sdiv_parts smod_parts)

end
