(* ===== verification/Spec2Isabelle.thy ===== *)
theory Spec2Isabelle
  imports Signal VmmCow ShmIpc Kheap Pipe Msg SemSet Swap Authz Path Flock Route Slip Rbtree SchedCfs Softdiv
begin

text \<open>
  A model of the core of FunsOS, an operating system for 32-bit x86 written in C. Paths are relative to
  \<open>src/\<close>. Each theory models one or two source files, function by function and under the names of the C
  functions; helper definitions stand for the bodies of loops and for branches that occur more than once.

  \<^bold>\<open>Conventions.\<close> Machine integers are words of their width (\<open>u8\<close>, \<open>u16\<close>, \<open>u32\<close>, \<open>u64\<close>), so
  arithmetic wraps as it does in the kernel; signed comparisons go through \<open>sint\<close>. A structure is a record,
  static variables are a state record that a function takes and returns. NULL is 0 where the code does
  arithmetic on addresses and \<open>None\<close> elsewhere. Error returns are values of the result; a kernel panic, an
  endless wait and a loop that does not end are \<open>None\<close>. Functions that run under a lock are one step.
  Functions of the system that are outside the model are arguments of the definitions that call them:
  the eviction and \<open>mmap\<close> hooks of the page fault handler, disk access of the swap space, the clock and the
  stack memory the user database reads, the file system under path resolution, and the success of memory
  requests where a component only tests for NULL.

  \<^bold>\<open>Shared theories.\<close>
  \<^item> \<open>Prelude\<close>: word types, collections of rules, lemmas on lists, options, bits and words.
  \<^item> \<open>Interfaces\<close>: the locales \<open>call_system\<close> (an invariant kept by every call holds after every sequence of
    calls), \<open>index_allocator\<close> (allocations in a row give distinct slots) and \<open>fifo_channel\<close>. They are
    interpreted on the page allocator, signals, users, labels, routes and file locks; on pages and swap slots;
    and on pipes.
  \<^item> \<open>Ring\<close>: the circular buffer of pipes, as a list.
  \<^item> \<open>RbHeap\<close>: trees of linked nodes in memory, seen as a tree with a focus, rotations, and the locale
    \<open>rb_fixer\<close> with the repair loop of an insertion, interpreted on both implementations in the sources.

  \<^bold>\<open>Memory.\<close>
  \<^item> \<open>Pmm\<close>, \<open>kernel/pmm.c\<close>: the bitmap of physical pages. Allocation is first fit, an allocated page is
    distinct from all used ones, and the counter of used pages keeps its distance to the true number.
  \<^item> \<open>Vmm\<close>, \<open>kernel/vmm.c\<close>: directories and page tables in physical frames, address spaces, faults. On
    well-formed address spaces (\<open>dir_wf\<close>) mapping and unmapping change exactly one translation. Further
    lemmas show that the fault handler ignores the copy-on-write flag of the entry and that destroying an
    address space frees shared frames.
  \<^item> \<open>VmmCow\<close>, \<open>kernel/vmm_cow.c\<close>: reference counts for copy on write, one too low after the first fork.
  \<^item> \<open>ShmIpc\<close>, \<open>kernel/ipc_shm.c\<close>: shared regions, composed of the allocator and the page tables. Creation is
    all or nothing, attaching maps the frames of the region, and detaching frees them for everybody.
  \<^item> \<open>Kheap\<close>, \<open>kernel/kheap.c\<close>: the list of blocks. Allocation, release and growth keep the heap well formed and
    live blocks apart; \<open>krealloc\<close> keeps the contents.
  \<^item> \<open>Swap\<close>, \<open>kernel/swap.c\<close>: slots on a disk never overlap.

  \<^bold>\<open>Processes and communication.\<close>
  \<^item> \<open>Signal\<close>, \<open>kernel/signal.c\<close>: dispositions, masks, delivery onto the user stack and return. SIGKILL
    cannot be blocked and ends a process within nine ticks; delivery and return restore the registers.
  \<^item> \<open>Sync\<close>, \<open>kernel/sync.c\<close> and \<open>kernel/spinlock.c\<close>: mutexes, semaphores and ticket locks as step relations
    over processes, with exclusion and fairness in every reachable state.
  \<^item> \<open>Pipe\<close>, \<open>kernel/pipe.c\<close>; \<open>Msg\<close>, \<open>kernel/ipc_msg.c\<close>; \<open>SemSet\<close>, \<open>kernel/ipc_sem.c\<close>: pipes refine a bounded
    list and deliver in order, queues give the oldest message first, groups of semaphore operations are all or
    nothing and are rolled back at exit.
  \<^item> \<open>Rbtree\<close>, \<open>lib/rbtree.c\<close>, and \<open>SchedCfs\<close>, \<open>kernel/sched_cfs.c\<close>: insertion keeps trees balanced and
    ordered, search is logarithmic, iteration follows the order, and the fair scheduler picks an entity of
    least virtual run time. Removal is right for the simple shapes; on others it leaves a cycle, or loses
    the queue.

  \<^bold>\<open>Security.\<close>
  \<^item> \<open>Sha256\<close>, \<open>kernel/sha256.c\<close>: the streaming interface computes the digest of the padded message.
  \<^item> \<open>Users\<close>, \<open>kernel/user.c\<close>: accounts stay unique, five failures lock an account.
  \<^item> \<open>Capability\<close>, \<open>Permission\<close>, \<open>Authz\<close>: \<open>kernel/capability.c\<close>, \<open>kernel/permission.c\<close>, and on top of both
    \<open>kernel/acl.c\<close>, \<open>kernel/mac_label.c\<close>, \<open>kernel/security_hook.c\<close> and \<open>kernel/authz.c\<close>. Labels let
    information flow upwards only; mode strings determine modes.

  \<^bold>\<open>Files, network and arithmetic.\<close>
  \<^item> \<open>Path\<close>, \<open>fs/path.c\<close>: normal forms are canonical, and resolution returns on every path, cycles of links
    included.
  \<^item> \<open>Flock\<close>, \<open>fs/flock.c\<close>: the table of locks stays consistent; an exclusive lock can be taken over.
  \<^item> \<open>Route\<close>, \<open>net/route.c\<close>: the lookup is the longest prefix match; tables, policies and cache stay in order.
  \<^item> \<open>Slip\<close>, \<open>net/slip.c\<close>: packets over a line arrive as they were sent.
  \<^item> \<open>Softdiv\<close>, \<open>lib/softdiv.c\<close>: the loops compute 64-bit division.

  \<^bold>\<open>Loops.\<close> Loops with a bound in the code are folds over the same range. Walks over linked structures and
  the division loops are \<open>partial_function (option)\<close>, \<open>while_option\<close>, or recursion whose fuel is the
  number of turns the code allows; the theorems on them state that they return. The walks of a
  well-formed heap or tree return because the structure is finite.

  \<^bold>\<open>Not modelled.\<close> Drivers, boot code, interrupt entry and context switch are assembly and device registers.
  The scheduler proper and the process table change under interrupts: blocking is a step of the models that
  need it instead. The graphical interface, the shell, the applications and the development kit act through
  consoles and frame buffers. The virtual file system, the file systems and the rest of the network stack work
  on disk and packet buffers of drivers and through tables of function pointers. TLB flushes have no
  effect on the state of the model. Concurrency inside a function that holds a lock is not modelled.
\<close>

end
